(* ===== verification/Prelude.thy ===== *)
theory Prelude
  imports Main "HOL-Library.Word"
begin

text \<open>
  Types, constants and generic lemmas shared by every component of the kernel model:
  the C integer types of \<^verbatim>\<open>kernel/types.h\<close>, the paging and layout constants of
  \<^verbatim>\<open>kernel/riscv.h\<close>, \<^verbatim>\<open>kernel/memlayout.h\<close> and \<^verbatim>\<open>kernel/param.h\<close>, byte-addressed memory
  with 64-bit little-endian loads and stores, and the page arithmetic the allocator and
  the page tables rest on.
\<close>

unbundle bit_operations_syntax

section \<open>C integer types\<close>

type_synonym u8 = "8 word"
type_synonym u16 = "16 word"
type_synonym u32 = "32 word"
type_synonym u64 = "64 word"

text \<open>Byte-addressed memory: physical memory, or the memory of one user program.\<close>

type_synonym memory = "u64 \<Rightarrow> u8"

section \<open>Constants of param.h, memlayout.h and riscv.h\<close>

definition NPROC :: nat where "NPROC = 64"
definition NCPU :: nat where "NCPU = 8"
definition NOFILE :: nat where "NOFILE = 16"
definition NFILE :: nat where "NFILE = 100"
definition NINODE :: nat where "NINODE = 50"
definition NDEV :: int where "NDEV = 10"
definition ROOTDEV :: u32 where "ROOTDEV = 1"
definition MAXOPBLOCKS :: nat where "MAXOPBLOCKS = 10"
definition LOGBLOCKS :: nat where "LOGBLOCKS = MAXOPBLOCKS * 3"
definition NBUF :: nat where "NBUF = MAXOPBLOCKS * 3"
definition MAXARG :: nat where "MAXARG = 32"
definition MAXPATH :: nat where "MAXPATH = 128"
definition USERSTACK :: u64 where "USERSTACK = 1"

definition KERNBASE :: u64 where "KERNBASE = 0x80000000"
definition PHYSTOP :: u64 where "PHYSTOP = KERNBASE + 128 * 1024 * 1024"

definition PGSIZE :: u64 where "PGSIZE = 4096"
definition PGSHIFT :: nat where "PGSHIFT = 12"

definition PGROUNDUP :: "u64 \<Rightarrow> u64" where
  "PGROUNDUP sz = (sz + PGSIZE - 1) AND NOT (PGSIZE - 1)"

definition PGROUNDDOWN :: "u64 \<Rightarrow> u64" where
  "PGROUNDDOWN a = a AND NOT (PGSIZE - 1)"

text \<open>One beyond the highest virtual address, and the two pages below it.\<close>

definition MAXVA :: u64 where "MAXVA = push_bit (9 + 9 + 9 + 12 - 1) 1"
definition TRAMPOLINE :: u64 where "TRAMPOLINE = MAXVA - PGSIZE"
definition TRAPFRAME :: u64 where "TRAPFRAME = TRAMPOLINE - PGSIZE"

definition KSTACK :: "nat \<Rightarrow> u64" where
  "KSTACK p = TRAMPOLINE - (of_nat p + 1) * 2 * PGSIZE"

lemmas layout_defs = KERNBASE_def PHYSTOP_def PGSIZE_def MAXVA_def TRAMPOLINE_def TRAPFRAME_def

lemma PHYSTOP_val: "PHYSTOP = 0x88000000"
  by (simp add: PHYSTOP_def KERNBASE_def)

lemma MAXVA_val: "MAXVA = 0x4000000000"
  by (simp add: MAXVA_def push_bit_eq_mult)

section \<open>Word lemmas\<close>

text \<open>Alignment facts stay in the form \<open>a mod n = 0\<close>.\<close>

declare mod_0_imp_dvd [rule del]

lemma unat_ucast_up [simp]:
  "LENGTH('a::len) \<le> LENGTH('b::len) \<Longrightarrow> unat (ucast (w :: 'a word) :: 'b word) = unat w"
proof -
  assume le: "LENGTH('a) \<le> LENGTH('b)"
  have "unat w < 2 ^ LENGTH('a)" by (rule unsigned_less)
  also have "\<dots> \<le> (2::nat) ^ LENGTH('b)" using le by simp
  finally show ?thesis by (simp add: unsigned_ucast_eq take_bit_nat_eq_self_iff)
qed

lemma unat_u64_less [simp]: "unat (w::u64) < 18446744073709551616"
  using unsigned_less[of w, where ?'a = nat] by simp

lemma unat_u32_less [simp]: "unat (w::u32) < 4294967296"
  using unsigned_less[of w, where ?'a = nat] by simp

lemma unat_add_no_wrap: "unat a + unat b < 2 ^ 64 \<Longrightarrow> unat (a + b :: u64) = unat a + unat b"
  by (simp add: unat_word_ariths)

lemma unat_of_nat_u64: "n < 2 ^ 64 \<Longrightarrow> unat (of_nat n :: u64) = n"
  by (simp add: unat_of_nat)

lemma of_nat_u64_eq_iff:
  "j < 2 ^ 64 \<Longrightarrow> k < 2 ^ 64 \<Longrightarrow> (of_nat j :: u64) = of_nat k \<longleftrightarrow> j = k"
  by (metis unat_of_nat_u64)

lemma word_offset_cases:
  obtains k where "a = b + of_nat k" "k < 2 ^ 64" "unat (a - b :: u64) = k"
  using that[of "unat (a - b)"] by simp

lemma PGROUNDDOWN_eq: "PGROUNDDOWN a = a - a mod 4096"
proof -
  have "a AND NOT (mask 12) = push_bit 12 (drop_bit 12 a)"
    by (rule bit_word_eqI) (auto simp: bit_simps)
  also have "\<dots> = (a div 4096) * 4096"
    by (simp add: push_bit_eq_mult drop_bit_eq_div)
  also have "\<dots> = a - a mod 4096"
    by (simp add: minus_mod_eq_div_mult)
  finally show ?thesis by (simp add: PGROUNDDOWN_def PGSIZE_def mask_eq_exp_minus_1)
qed

lemma unat_PGROUNDDOWN: "unat (PGROUNDDOWN a) = unat a - unat a mod 4096"
proof -
  have "unat (a mod 4096) \<le> unat a" by (simp add: unat_mod)
  then show ?thesis
    by (simp add: PGROUNDDOWN_eq unat_mod unat_sub word_le_nat_alt)
qed

lemma PGROUNDUP_DOWN: "PGROUNDUP a = PGROUNDDOWN (a + 4095)"
  by (simp add: PGROUNDUP_def PGROUNDDOWN_def PGSIZE_def algebra_simps)

lemma PGROUNDDOWN_aligned [simp]: "PGROUNDDOWN a mod 4096 = 0"
  by (simp add: word_unat_eq_iff unat_mod unat_PGROUNDDOWN minus_mod_eq_div_mult)

lemma PGROUNDUP_aligned [simp]: "PGROUNDUP a mod 4096 = 0"
  by (simp add: PGROUNDUP_DOWN)

lemma unat_PGROUNDUP:
  assumes "unat a + 4095 < 2 ^ 64"
  shows "unat (PGROUNDUP a) = (unat a + 4095) div 4096 * 4096"
proof -
  have "unat (a + 4095) = unat a + 4095"
    using assms by (simp add: unat_word_ariths)
  then show ?thesis
    by (simp add: PGROUNDUP_DOWN unat_PGROUNDDOWN minus_mod_eq_div_mult)
qed

lemma PGROUNDDOWN_id: "a mod 4096 = 0 \<Longrightarrow> PGROUNDDOWN a = a"
  by (simp add: PGROUNDDOWN_eq)

section \<open>Pages\<close>

text \<open>The page number of an address, as a natural number.\<close>

definition pgno :: "u64 \<Rightarrow> nat" where
  "pgno a = unat a div 4096"

lemma aligned_unat: "(a::u64) mod 4096 = 0 \<longleftrightarrow> unat a mod 4096 = 0"
  by (simp add: word_unat_eq_iff unat_mod)

lemma pgno_inj:
  "a mod 4096 = 0 \<Longrightarrow> b mod 4096 = 0 \<Longrightarrow> pgno a = pgno b \<Longrightarrow> (a::u64) = b"
  by (metis aligned_unat div_mult_mod_eq pgno_def word_unat_eq_iff)

lemma unat_add_offset:
  assumes "(p::u64) mod 4096 = 0" "unat k < 4096"
  shows "unat (p + k) = unat p + unat k"
proof -
  obtain q where q: "unat p = 4096 * q"
    using assms(1) by (auto simp: aligned_unat mod_eq_0_iff_dvd elim!: dvdE)
  have "unat p < 2 ^ 64" using unsigned_less[of p] by simp
  then have "4096 * q + unat k < 2 ^ 64" using q assms(2) by simp
  then show ?thesis using q by (simp add: unat_word_ariths)
qed

lemma pgno_add_offset:
  "(p::u64) mod 4096 = 0 \<Longrightarrow> unat k < 4096 \<Longrightarrow> pgno (p + k) = pgno p"
  using unat_add_offset[of p k] by (auto simp: pgno_def aligned_unat dest!: mod_0_imp_dvd)

text \<open>An address lies in the page at \<open>p\<close> exactly when its offset is below the page size.\<close>

lemma in_page_iff:
  assumes "(p::u64) mod 4096 = 0"
  shows "a - p < 4096 \<longleftrightarrow> pgno a = pgno p"
proof
  assume "a - p < 4096"
  then have "unat (a - p) < 4096" by (simp add: word_less_nat_alt)
  from pgno_add_offset[OF assms this] show "pgno a = pgno p" by simp
next
  assume eq: "pgno a = pgno p"
  obtain q where q: "unat p = 4096 * q"
    using assms by (auto simp: aligned_unat mod_eq_0_iff_dvd elim!: dvdE)
  have dq: "unat a div 4096 = q" using eq q by (simp add: pgno_def)
  have le: "4096 * q \<le> unat a" and lt: "unat a < 4096 * q + 4096"
    using dq by linarith+
  then have "unat (a - p) < 4096" using q by (simp add: unat_sub word_le_nat_alt)
  then show "a - p < 4096" by (simp add: word_less_nat_alt)
qed

section \<open>Little-endian words\<close>

text \<open>
  RISC-V is little-endian: a word of \<open>n\<close> bytes is stored least significant byte first.
\<close>

definition le_bytes :: "nat \<Rightarrow> 'a::len word \<Rightarrow> u8 list" where
  "le_bytes n v = map (\<lambda>i. ucast (drop_bit (8 * i) v)) [0..<n]"

primrec le_word :: "u8 list \<Rightarrow> 'a::len word" where
  "le_word [] = 0"
| "le_word (b # bs) = ucast b OR push_bit 8 (le_word bs)"

lemma length_le_bytes [simp]: "length (le_bytes n v) = n"
  by (simp add: le_bytes_def)

lemma bit_le_word:
  "bit (le_word bs :: 'a::len word) n \<longleftrightarrow>
     n < LENGTH('a) \<and> n div 8 < length bs \<and> bit (bs ! (n div 8)) (n mod 8)"
proof (induction bs arbitrary: n)
  case Nil
  then show ?case by simp
next
  case (Cons b bs)
  show ?case
  proof (cases "n < 8")
    case True
    then show ?thesis by (auto simp: bit_simps)
  next
    case False
    then have d: "n div 8 = Suc ((n - 8) div 8)" and m: "n mod 8 = (n - 8) mod 8"
      by (simp_all add: le_div_geq le_mod_geq)
    from False have "\<not> bit b n" by (auto dest: bit_imp_le_length)
    with False show ?thesis
      by (auto simp: bit_simps Cons.IH d m)
  qed
qed

lemma le_word_le_bytes:
  assumes "LENGTH('a::len) \<le> 8 * n"
  shows "le_word (le_bytes n v) = (v :: 'a word)"
proof (rule bit_word_eqI)
  fix k assume k: "k < LENGTH('a)"
  then have "k div 8 < n" using assms by linarith
  with k show "bit (le_word (le_bytes n v) :: 'a word) k = bit v k"
    by (simp add: bit_le_word le_bytes_def bit_simps)
qed

lemma le_bytes_le_word:
  assumes "8 * n \<le> LENGTH('a::len)" "length bs = n"
  shows "le_bytes n (le_word bs :: 'a word) = bs"
proof (rule nth_equalityI)
  show "length (le_bytes n (le_word bs :: 'a word)) = length bs" using assms by simp
next
  fix i assume "i < length (le_bytes n (le_word bs :: 'a word))"
  then have i: "i < n" by simp
  show "le_bytes n (le_word bs :: 'a word) ! i = bs ! i"
  proof (rule bit_word_eqI)
    fix k assume k: "k < LENGTH(8)"
    then have "8 * i + k < LENGTH('a)" "(8 * i + k) div 8 = i" "(8 * i + k) mod 8 = k"
      using i assms by simp_all
    then show "bit (le_bytes n (le_word bs :: 'a word) ! i) k = bit (bs ! i) k"
      using i k assms by (simp add: le_bytes_def bit_simps bit_le_word add.commute)
  qed
qed

section \<open>Stores into a byte array\<close>

definition patch :: "nat \<Rightarrow> 'a list \<Rightarrow> 'a list \<Rightarrow> 'a list" where
  "patch i xs bs = take i bs @ xs @ drop (i + length xs) bs"

lemma length_patch [simp]: "i + length xs \<le> length bs \<Longrightarrow> length (patch i xs bs) = length bs"
  by (simp add: patch_def)

lemma patch_read_same: "i + n \<le> length bs \<Longrightarrow> length xs = n \<Longrightarrow> take n (drop i (patch i xs bs)) = xs"
  by (simp add: patch_def)

lemma patch_read_other:
  assumes "i + length xs \<le> length bs" "j + n \<le> i \<or> i + length xs \<le> j"
  shows "take n (drop j (patch i xs bs)) = take n (drop j bs)"
proof (rule nth_equalityI)
  show "length (take n (drop j (patch i xs bs))) = length (take n (drop j bs))" using assms(1) by simp
next
  fix k assume "k < length (take n (drop j (patch i xs bs)))"
  then have k: "k < n" "j + k < length bs" using assms(1) by auto
  then have "patch i xs bs ! (j + k) = bs ! (j + k)"
    using assms by (auto simp: patch_def nth_append)
  then show "take n (drop j (patch i xs bs)) ! k = take n (drop j bs) ! k" using k assms(1) by simp
qed

section \<open>Runs of bytes in memory\<close>

definition mem_read :: "memory \<Rightarrow> u64 \<Rightarrow> nat \<Rightarrow> u8 list" where
  "mem_read m a n = map (\<lambda>i. m (a + of_nat i)) [0..<n]"

definition mem_write :: "u64 \<Rightarrow> u8 list \<Rightarrow> memory \<Rightarrow> memory" where
  "mem_write a bs m = (\<lambda>x. if unat (x - a) < length bs then bs ! unat (x - a) else m x)"

lemma length_mem_read [simp]: "length (mem_read m a n) = n"
  by (simp add: mem_read_def)

lemma mem_write_Nil [simp]: "mem_write a [] m = m"
  by (simp add: mem_write_def)

lemma mem_read_mem_write_same:
  "length bs = n \<Longrightarrow> n \<le> 2 ^ 64 \<Longrightarrow> mem_read (mem_write a bs m) a n = bs"
  by (auto simp: mem_read_def mem_write_def unat_of_nat intro!: nth_equalityI)

text \<open>A read of a run that a write does not touch.\<close>

lemma mem_read_mem_write_disj:
  assumes "\<And>i. i < n \<Longrightarrow> length bs \<le> unat (b + of_nat i - a)"
  shows "mem_read (mem_write a bs m) b n = mem_read m b n"
  using assms by (force simp: mem_read_def mem_write_def)

lemma mem_read_cong:
  "(\<And>i. i < n \<Longrightarrow> m (a + of_nat i) = m' (a + of_nat i)) \<Longrightarrow> mem_read m a n = mem_read m' a n"
  by (simp add: mem_read_def)

definition load64 :: "memory \<Rightarrow> u64 \<Rightarrow> u64" where
  "load64 m a = le_word (mem_read m a 8)"

definition store64 :: "u64 \<Rightarrow> u64 \<Rightarrow> memory \<Rightarrow> memory" where
  "store64 a v = mem_write a (le_bytes 8 v)"

lemma load64_store64_same [simp]: "load64 (store64 a v m) a = v"
  by (simp add: load64_def store64_def mem_read_mem_write_same le_word_le_bytes)

lemma store64_apply: "unat (x - a) \<ge> 8 \<Longrightarrow> store64 a v m x = m x"
  by (simp add: store64_def mem_write_def)

text \<open>Two different eight-byte aligned addresses hold disjoint words.\<close>

lemma aligned8_disjoint:
  assumes "(a::u64) mod 8 = 0" "b mod 8 = 0" "a \<noteq> b" "i < 8"
  shows "8 \<le> unat (b + of_nat i - a)"
proof -
  define d where "d = b - a"
  have d0: "d \<noteq> 0" using assms by (simp add: d_def)
  have "unat d mod 8 = 0"
  proof -
    have "uint a mod 8 = 0" "uint b mod 8 = 0"
      using assms(1,2) by (simp_all add: word_uint_eq_iff uint_mod)
    then have "(uint b - uint a) mod 2 ^ 64 mod 8 = 0"
      by (simp add: mod_mod_cancel mod_eq_0_iff_dvd)
    then have "uint d mod 8 = 0" by (simp add: d_def uint_word_ariths)
    then have "int (unat d) mod 8 = 0" by simp
    then show ?thesis by presburger
  qed
  moreover have "unat d \<noteq> 0" using d0 by (simp add: unat_eq_zero)
  ultimately have ge: "8 \<le> unat d" by (metis mod_less not_le)
  have "unat d + 8 \<le> 18446744073709551616"
    using \<open>unat d mod 8 = 0\<close> unat_u64_less[of d] by presburger
  then have "unat (d + of_nat i) = unat d + i"
    using assms(4) by (simp add: unat_word_ariths unat_of_nat)
  then have "8 \<le> unat (d + of_nat i)" using ge by simp
  then show ?thesis by (simp add: d_def algebra_simps)
qed

lemma load64_store64_other:
  assumes "(a::u64) mod 8 = 0" "b mod 8 = 0" "a \<noteq> b"
  shows "load64 (store64 a v m) b = load64 m b"
  unfolding load64_def store64_def
  by (subst mem_read_mem_write_disj) (use aligned8_disjoint[OF assms] in auto)

end
