(* ===== verification/Kernel_Monad.thy ===== *)
theory Kernel_Monad
  imports Prelude
begin

text \<open>
  How kernel code is modelled. A C function becomes a function from the kernel state to a
  result: it returns a value in a new state, or it stops. It stops when it calls
  \<^verbatim>\<open>panic\<close>, when it spins on a lock that is held, when it switches to the
  scheduler, when it loops forever (after a panic, or in a loop that has outrun its bound), or
  when it does what C leaves undefined, as an access outside an array; the result then carries
  the state at that point, and what the thread does when it runs again is a definition of its own.
  \<open>wp\<close> is the total-correctness predicate transformer of such a computation: the
  computation returns, and its result satisfies the postcondition. The collection
  \<open>wp_eqs\<close> holds the equations by which \<open>simp\<close> computes it.
\<close>

named_theorems wp_eqs \<open>equations that compute the weakest precondition\<close>

section \<open>Locks and wait channels\<close>

text \<open>
  The kernel names a lock and a wait channel by the address of a C object. The model names
  them by the object: one constructor per spin lock and per channel of the source. The
  locks of a table carry the index of the entry, the lock of a pipe the address of its page.
\<close>

datatype sleeplock_id = SLbuf nat | SLinode nat

datatype lockid =
    Lkmem | Lref | Lpr | Ltx | Lcons | Ltickslock | Lpid | Lwait | Lproc nat
  | Lbcache | Lsleep sleeplock_id | Llog | Litable | Lftable | Lpipe u64 | Lvdisk

datatype chan =
    ChNone | ChProc nat | ChLog | ChTicks | ChBuf nat | ChSleeplock sleeplock_id
  | ChNread u64 | ChNwrite u64 | ChConsR | ChTx | ChDiskFree

section \<open>Results\<close>

datatype stop = Panic string | Spin lockid | Switched | Frozen | Undef

datatype ('s, 'a) result = Ok 'a 's | Stop stop 's

type_synonym ('s, 'a) kern = "'s \<Rightarrow> ('s, 'a) result"

definition kret :: "'a \<Rightarrow> ('s, 'a) kern" where
  "kret x = (\<lambda>s. Ok x s)"

definition kbind :: "('s, 'a) kern \<Rightarrow> ('a \<Rightarrow> ('s, 'b) kern) \<Rightarrow> ('s, 'b) kern" where
  "kbind m f = (\<lambda>s. case m s of Ok x s' \<Rightarrow> f x s' | Stop e s' \<Rightarrow> Stop e s')"

definition kthen :: "('s, 'a) kern \<Rightarrow> ('s, 'b) kern \<Rightarrow> ('s, 'b) kern" where
  "kthen m n = kbind m (\<lambda>_. n)"

definition kstop :: "stop \<Rightarrow> ('s, 'a) kern" where
  "kstop e = (\<lambda>s. Stop e s)"

abbreviation kpanic :: "string \<Rightarrow> ('s, 'a) kern" where
  "kpanic msg \<equiv> kstop (Panic msg)"

definition kget :: "('s \<Rightarrow> 'a) \<Rightarrow> ('s, 'a) kern" where
  "kget f = (\<lambda>s. Ok (f s) s)"

definition kmod :: "('s \<Rightarrow> 's) \<Rightarrow> ('s, unit) kern" where
  "kmod f = (\<lambda>s. Ok () (f s))"

definition kwhen :: "bool \<Rightarrow> ('s, unit) kern \<Rightarrow> ('s, unit) kern" where
  "kwhen b m = (if b then m else kret ())"

text \<open>Statements in sequence, and a statement for each element of a list.\<close>

primrec kseq :: "('s, unit) kern list \<Rightarrow> ('s, unit) kern" where
  "kseq [] = kret ()"
| "kseq (m # ms) = kthen m (kseq ms)"

primrec kfor :: "'i list \<Rightarrow> ('i \<Rightarrow> ('s, unit) kern) \<Rightarrow> ('s, unit) kern" where
  "kfor [] f = kret ()"
| "kfor (i # is) f = kthen (f i) (kfor is f)"

lemma kbind_cong [fundef_cong]:
  assumes "m = m'" "\<And>x. f x = f' x"
  shows "kbind m f = kbind m' f'"
proof -
  have "f = f'" using assms(2) by (rule ext)
  then show ?thesis using assms(1) by simp
qed

lemma kthen_cong [fundef_cong]: "m = m' \<Longrightarrow> n = n' \<Longrightarrow> kthen m n = kthen m' n'"
  by simp

section \<open>Running a computation\<close>

lemma run_kret: "kret x s = Ok x s"
  by (simp add: kret_def)

lemma run_kget [simp]: "kget f s = Ok (f s) s"
  by (simp add: kget_def)

lemma run_kmod [simp]: "kmod f s = Ok () (f s)"
  by (simp add: kmod_def)

lemma run_kstop: "kstop e s = Stop e s"
  by (simp add: kstop_def)

lemma run_kbind_Ok: "m s = Ok x s' \<Longrightarrow> kbind m f s = f x s'"
  by (simp add: kbind_def)

lemma run_kbind_Stop: "m s = Stop e s' \<Longrightarrow> kbind m f s = Stop e s'"
  by (simp add: kbind_def)

lemma run_kthen_Ok: "m s = Ok x s' \<Longrightarrow> kthen m n s = n s'"
  by (simp add: kthen_def kbind_def)

lemma run_kthen_Stop: "m s = Stop e s' \<Longrightarrow> kthen m n s = Stop e s'"
  by (simp add: kthen_def kbind_def)

lemma run_kwhen [simp]: "kwhen b m s = (if b then m s else Ok () s)"
  by (simp add: kwhen_def kret_def)

text \<open>One step at a state, which leaves the bodies of the statements that follow alone.\<close>

lemma run_kbind: "kbind m f s = (case m s of Ok x s' \<Rightarrow> f x s' | Stop e s' \<Rightarrow> Stop e s')"
  by (simp add: kbind_def)

lemma run_kthen: "kthen m n s = (case m s of Ok x s' \<Rightarrow> n s' | Stop e s' \<Rightarrow> Stop e s')"
  by (simp add: kthen_def kbind_def)

lemmas run_simps = run_kbind_Ok run_kbind_Stop run_kthen_Ok run_kthen_Stop run_kret run_kstop

lemma kbind_kret [simp]: "kbind (kret x) f = f x"
  by (simp add: kbind_def kret_def fun_eq_iff)

lemma kbind_assoc: "kbind (kbind m f) g = kbind m (\<lambda>x. kbind (f x) g)"
  by (simp add: kbind_def fun_eq_iff split: result.splits)

lemma kthen_kret [simp]: "kthen (kret x) n = n"
  by (simp add: kthen_def)

lemma kfor_append: "kfor (xs @ ys) f = kthen (kfor xs f) (kfor ys f)"
  by (induction xs) (simp_all add: kthen_def kbind_assoc)

section \<open>Weakest preconditions\<close>

definition wp :: "('s, 'a) kern \<Rightarrow> ('a \<Rightarrow> 's \<Rightarrow> bool) \<Rightarrow> 's \<Rightarrow> bool" where
  "wp m Q s = (case m s of Ok x s' \<Rightarrow> Q x s' | Stop e s' \<Rightarrow> False)"

lemma wp_iff: "wp m Q s \<longleftrightarrow> (\<exists>x s'. m s = Ok x s' \<and> Q x s')"
  by (simp add: wp_def split: result.splits)

lemma wpI: "m s = Ok x s' \<Longrightarrow> Q x s' \<Longrightarrow> wp m Q s"
  by (simp add: wp_def)

lemma wp_mono: "wp m P s \<Longrightarrow> (\<And>x s'. P x s' \<Longrightarrow> Q x s') \<Longrightarrow> wp m Q s"
  by (auto simp: wp_iff)

lemma wp_run: "m s = Ok x s' \<Longrightarrow> wp m Q s = Q x s'"
  by (simp add: wp_def)

lemma wp_kret [simp, wp_eqs]: "wp (kret x) Q s = Q x s"
  by (simp add: wp_def kret_def)

lemma wp_kbind [simp, wp_eqs]: "wp (kbind m f) Q s = wp m (\<lambda>x. wp (f x) Q) s"
  by (simp add: wp_def kbind_def split: result.splits)

lemma wp_kthen [simp, wp_eqs]: "wp (kthen m n) Q s = wp m (\<lambda>_. wp n Q) s"
  by (simp add: kthen_def)

lemma wp_kget [simp, wp_eqs]: "wp (kget f) Q s = Q (f s) s"
  by (simp add: wp_def)

lemma wp_kmod [simp, wp_eqs]: "wp (kmod f) Q s = Q () (f s)"
  by (simp add: wp_def)

lemma wp_kstop [simp, wp_eqs]: "wp (kstop e) Q s = False"
  by (simp add: wp_def kstop_def)

lemma wp_kwhen [simp, wp_eqs]: "wp (kwhen b m) Q s = (if b then wp m Q s else Q () s)"
  by (simp add: kwhen_def)

lemma wp_if [wp_eqs]: "wp (if b then m else n) Q s = (if b then wp m Q s else wp n Q s)"
  by simp

text \<open>A loop over a list keeps an invariant indexed by the part already done.\<close>

lemma wp_kfor_inv:
  assumes start: "I [] s"
    and step: "\<And>done i t. I done t \<Longrightarrow> (\<exists>rest. is = done @ i # rest)
       \<Longrightarrow> wp (f i) (\<lambda>_. I (done @ [i])) t"
    and post: "\<And>t. I is t \<Longrightarrow> Q () t"
  shows "wp (kfor is f) Q s"
proof -
  have "wp (kfor js f) Q t" if "is = done @ js" "I done t" for js "done" t
    using that
  proof (induction js arbitrary: "done" t)
    case Nil
    then show ?case using post by simp
  next
    case (Cons j js)
    have "wp (f j) (\<lambda>_. I (done @ [j])) t" using step Cons.prems by blast
    then show ?case
      using Cons.IH[of "done @ [j]"] Cons.prems(1) by (auto intro: wp_mono)
  qed
  from this[of "[]" "is" s] start show ?thesis by simp
qed

end
