(* ===== verification/Spinlock.thy ===== *)
theory Spinlock
  imports Kernel_Monad
begin

text \<open>
  Spin locks and interrupt masking: \<^verbatim>\<open>kernel/spinlock.c\<close>, \<^verbatim>\<open>kernel/spinlock.h\<close>, the
  interrupt switches of \<^verbatim>\<open>kernel/riscv.h\<close>, \<^verbatim>\<open>cpuid\<close>/\<^verbatim>\<open>mycpu\<close> of \<^verbatim>\<open>kernel/proc.c\<close> and the
  structures \<^verbatim>\<open>context\<close> and \<^verbatim>\<open>cpu\<close> of \<^verbatim>\<open>kernel/proc.h\<close>. The first part is the code as one
  hart runs it; its lemmas give the net effect of an acquire/release pair. The second part
  lets any number of harts interleave at the atomic memory operations of \<^verbatim>\<open>acquire\<close> and
  \<^verbatim>\<open>release\<close>, as a step relation, and shows mutual exclusion.
\<close>

section \<open>State\<close>

text \<open>Saved registers for kernel context switches.\<close>

record ctxt =
  c_ra :: u64
  c_sp :: u64
  c_s0 :: u64
  c_s1 :: u64
  c_s2 :: u64
  c_s3 :: u64
  c_s4 :: u64
  c_s5 :: u64
  c_s6 :: u64
  c_s7 :: u64
  c_s8 :: u64
  c_s9 :: u64
  c_s10 :: u64
  c_s11 :: u64

text \<open>Per-CPU state; a process is named by its index in the process table.\<close>

record cpu =
  cpu_proc :: "nat option"
  cpu_context :: ctxt
  noff :: int
  intena :: bool

record spinlock =
  locked :: bool
  lock_name :: string
  lock_cpu :: "nat option"

text \<open>
  The harts: the hart that is running (its \<^verbatim>\<open>tp\<close> register), the array \<^verbatim>\<open>cpus\<close>, the
  interrupt-enable bit \<^verbatim>\<open>sstatus.SIE\<close> of each hart, and all spin locks.
\<close>

record harts =
  tp :: nat
  cpus :: "nat \<Rightarrow> cpu"
  sie :: "nat \<Rightarrow> bool"
  locks :: "lockid \<Rightarrow> spinlock"

record machine =
  hart :: harts

section \<open>Operations\<close>

definition cpuid :: "('z machine_scheme, nat) kern" where
  "cpuid = kget (\<lambda>s. tp (hart s))"

definition mycpu :: "('z machine_scheme, cpu) kern" where
  "mycpu = kget (\<lambda>s. cpus (hart s) (tp (hart s)))"

definition set_mycpu :: "(cpu \<Rightarrow> cpu) \<Rightarrow> ('z machine_scheme, unit) kern" where
  "set_mycpu f = kmod (\<lambda>s. let h = hart s in s\<lparr>hart := h\<lparr>cpus := (cpus h)(tp h := f (cpus h (tp h)))\<rparr>\<rparr>)"

definition intr_get :: "('z machine_scheme, bool) kern" where
  "intr_get = kget (\<lambda>s. sie (hart s) (tp (hart s)))"

definition intr_on :: "('z machine_scheme, unit) kern" where
  "intr_on = kmod (\<lambda>s. let h = hart s in s\<lparr>hart := h\<lparr>sie := (sie h)(tp h := True)\<rparr>\<rparr>)"

definition intr_off :: "('z machine_scheme, unit) kern" where
  "intr_off = kmod (\<lambda>s. let h = hart s in s\<lparr>hart := h\<lparr>sie := (sie h)(tp h := False)\<rparr>\<rparr>)"

definition get_lock :: "lockid \<Rightarrow> ('z machine_scheme, spinlock) kern" where
  "get_lock lk = kget (\<lambda>s. locks (hart s) lk)"

definition set_lock :: "lockid \<Rightarrow> (spinlock \<Rightarrow> spinlock) \<Rightarrow> ('z machine_scheme, unit) kern" where
  "set_lock lk f = kmod (\<lambda>s. let h = hart s in s\<lparr>hart := h\<lparr>locks := (locks h)(lk := f (locks h lk))\<rparr>\<rparr>)"

definition initlock :: "lockid \<Rightarrow> string \<Rightarrow> ('z machine_scheme, unit) kern" where
  "initlock lk nm = set_lock lk (\<lambda>l. l\<lparr>lock_name := nm, locked := False, lock_cpu := None\<rparr>)"

definition push_off :: "('z machine_scheme, unit) kern" where
  "push_off =
     kbind intr_get (\<lambda>old.
     kthen intr_off (
     kbind mycpu (\<lambda>c.
     kthen (kwhen (noff c = 0) (set_mycpu (\<lambda>c. c\<lparr>intena := old\<rparr>)))
           (set_mycpu (\<lambda>c. c\<lparr>noff := noff c + 1\<rparr>)))))"

definition pop_off :: "('z machine_scheme, unit) kern" where
  "pop_off =
     kbind intr_get (\<lambda>on.
     if on then kpanic ''pop_off - interruptible'' else
     kbind mycpu (\<lambda>c.
     if noff c < 1 then kpanic ''pop_off'' else
     kthen (set_mycpu (\<lambda>c. c\<lparr>noff := noff c - 1\<rparr>)) (
     kbind mycpu (\<lambda>c.
     kwhen (noff c = 0 \<and> intena c) intr_on))))"

definition holding :: "lockid \<Rightarrow> ('z machine_scheme, bool) kern" where
  "holding lk =
     kbind (get_lock lk) (\<lambda>l.
     kbind cpuid (\<lambda>me. kret (locked l \<and> lock_cpu l = Some me)))"

text \<open>
  The loop of \<^verbatim>\<open>acquire\<close> swaps 1 into the lock word until it reads back 0. A hart that
  finds the lock taken keeps spinning; in the run of one hart it never gets further, so the
  model stops there with \<^const>\<open>Spin\<close>.
\<close>

definition test_and_set :: "lockid \<Rightarrow> ('z machine_scheme, bool) kern" where
  "test_and_set lk =
     kbind (get_lock lk) (\<lambda>l.
     kthen (set_lock lk (\<lambda>l. l\<lparr>locked := True\<rparr>)) (kret (locked l)))"

definition set_owner :: "lockid \<Rightarrow> ('z machine_scheme, unit) kern" where
  "set_owner lk = kbind cpuid (\<lambda>me. set_lock lk (\<lambda>l. l\<lparr>lock_cpu := Some me\<rparr>))"

definition acquire :: "lockid \<Rightarrow> ('z machine_scheme, unit) kern" where
  "acquire lk =
     kthen push_off (
     kbind (holding lk) (\<lambda>mine.
     if mine then kpanic ''acquire'' else
     kbind (test_and_set lk) (\<lambda>taken.
     if taken then kstop (Spin lk) else set_owner lk)))"

definition clear_owner :: "lockid \<Rightarrow> ('z machine_scheme, unit) kern" where
  "clear_owner lk = set_lock lk (\<lambda>l. l\<lparr>lock_cpu := None\<rparr>)"

definition lock_release :: "lockid \<Rightarrow> ('z machine_scheme, unit) kern" where
  "lock_release lk = set_lock lk (\<lambda>l. l\<lparr>locked := False\<rparr>)"

definition release :: "lockid \<Rightarrow> ('z machine_scheme, unit) kern" where
  "release lk =
     kbind (holding lk) (\<lambda>mine.
     if \<not> mine then kpanic ''release'' else
     kseq [clear_owner lk, lock_release lk, pop_off])"

lemmas lock_op_defs = holding_def get_lock_def cpuid_def set_lock_def test_and_set_def
  set_owner_def clear_owner_def lock_release_def

section \<open>Net effects\<close>

text \<open>
  The effect of \<^verbatim>\<open>push_off\<close>, \<^verbatim>\<open>acquire\<close> and \<^verbatim>\<open>release\<close> on the harts, as functions, and the
  effect \<open>scrub\<close> of a matched pair: only the saved \<^verbatim>\<open>intena\<close> of the running hart can change.
\<close>

definition cur :: "harts \<Rightarrow> cpu" where
  "cur h = cpus h (tp h)"

definition pushed :: "harts \<Rightarrow> harts" where
  "pushed h = h\<lparr>sie := (sie h)(tp h := False),
                 cpus := (cpus h)(tp h := (cur h)
                   \<lparr>intena := (if noff (cur h) = 0 then sie h (tp h) else intena (cur h)),
                    noff := noff (cur h) + 1\<rparr>)\<rparr>"

definition popped :: "harts \<Rightarrow> harts" where
  "popped h = h\<lparr>sie := (sie h)(tp h := sie h (tp h) \<or> noff (cur h) = 1 \<and> intena (cur h)),
                 cpus := (cpus h)(tp h := (cur h)\<lparr>noff := noff (cur h) - 1\<rparr>)\<rparr>"

definition acq :: "lockid \<Rightarrow> harts \<Rightarrow> harts" where
  "acq lk h = (pushed h)\<lparr>locks := (locks h)(lk := (locks h lk)
                \<lparr>locked := True, lock_cpu := Some (tp h)\<rparr>)\<rparr>"

definition rel :: "lockid \<Rightarrow> harts \<Rightarrow> harts" where
  "rel lk h = popped (h\<lparr>locks := (locks h)(lk := (locks h lk)
                \<lparr>lock_cpu := None, locked := False\<rparr>)\<rparr>)"

definition scrub :: "harts \<Rightarrow> harts" where
  "scrub h = h\<lparr>cpus := (cpus h)(tp h := (cur h)
                 \<lparr>intena := (if noff (cur h) = 0 then sie h (tp h) else intena (cur h))\<rparr>)\<rparr>"

definition hart_ok :: "harts \<Rightarrow> bool" where
  "hart_ok h \<longleftrightarrow> 0 \<le> noff (cur h) \<and> (0 < noff (cur h) \<longrightarrow> \<not> sie h (tp h))"

definition masked :: "harts \<Rightarrow> bool" where
  "masked h \<longleftrightarrow> 1 \<le> noff (cur h) \<and> \<not> sie h (tp h)"

definition lock_free :: "lockid \<Rightarrow> harts \<Rightarrow> bool" where
  "lock_free lk h \<longleftrightarrow> \<not> locked (locks h lk) \<and> lock_cpu (locks h lk) = None"

definition held :: "lockid \<Rightarrow> harts \<Rightarrow> bool" where
  "held lk h \<longleftrightarrow> locked (locks h lk) \<and> lock_cpu (locks h lk) = Some (tp h)"

lemmas hart_defs = cur_def pushed_def popped_def acq_def rel_def scrub_def hart_ok_def
  masked_def lock_free_def held_def

text \<open>The harts of a concrete machine: hart 0 runs, interrupts are off, every lock is free.\<close>

definition ctxt0 :: ctxt where
  "ctxt0 = \<lparr>c_ra = 0, c_sp = 0, c_s0 = 0, c_s1 = 0, c_s2 = 0, c_s3 = 0, c_s4 = 0, c_s5 = 0,
     c_s6 = 0, c_s7 = 0, c_s8 = 0, c_s9 = 0, c_s10 = 0, c_s11 = 0\<rparr>"

definition hart0 :: harts where
  "hart0 = \<lparr>tp = 0,
     cpus = (\<lambda>_. \<lparr>cpu_proc = None, cpu_context = ctxt0, noff = 0, intena = False\<rparr>),
     sie = (\<lambda>_. False),
     locks = (\<lambda>_. \<lparr>locked = False, lock_name = [], lock_cpu = None\<rparr>)\<rparr>"

lemma hart0_ok [simp]: "hart_ok hart0" "lock_free lk hart0"
  by (simp_all add: hart0_def hart_defs)

lemma wp_cpuid [wp_eqs]: "wp cpuid Q s = Q (tp (hart s)) s"
  by (simp add: cpuid_def)

lemma wp_mycpu [wp_eqs]: "wp mycpu Q s = Q (cur (hart s)) s"
  by (simp add: mycpu_def cur_def)

lemma wp_intr_get [wp_eqs]: "wp intr_get Q s = Q (sie (hart s) (tp (hart s))) s"
  by (simp add: intr_get_def)

lemma push_off_run: "push_off s = Ok () (s\<lparr>hart := pushed (hart s)\<rparr>)"
  by (simp add: push_off_def Let_def mycpu_def set_mycpu_def intr_get_def intr_off_def
      pushed_def cur_def kbind_def kthen_def)

lemma pop_off_run: "masked (hart s) \<Longrightarrow> pop_off s = Ok () (s\<lparr>hart := popped (hart s)\<rparr>)"
  by (auto simp: pop_off_def Let_def mycpu_def set_mycpu_def intr_get_def intr_on_def
      popped_def cur_def kbind_def kthen_def masked_def fun_upd_idem)

lemma pop_off_stop: "\<not> masked (hart s) \<Longrightarrow> \<exists>msg. pop_off s = Stop (Panic msg) s"
  by (auto simp: pop_off_def mycpu_def intr_get_def cur_def kbind_def masked_def kstop_def)

lemma wp_push_off [wp_eqs]: "wp push_off Q s = Q () (s\<lparr>hart := pushed (hart s)\<rparr>)"
  by (simp add: wp_def push_off_run)

lemma wp_pop_off [wp_eqs]:
  "wp pop_off Q s \<longleftrightarrow> masked (hart s) \<and> Q () (s\<lparr>hart := popped (hart s)\<rparr>)"
  using pop_off_run pop_off_stop by (cases "masked (hart s)") (fastforce simp: wp_def)+

lemma acquire_run:
  "\<not> locked (locks (hart s) lk) \<Longrightarrow> acquire lk s = Ok () (s\<lparr>hart := acq lk (hart s)\<rparr>)"
  by (simp add: acquire_def push_off_run lock_op_defs Let_def
      kbind_def kthen_def kret_def acq_def pushed_def)

lemma acquire_stop:
  "locked (locks (hart s) lk) \<Longrightarrow>
     \<exists>s'. acquire lk s = Stop (if held lk (hart s) then Panic ''acquire'' else Spin lk) s'"
  by (simp add: acquire_def push_off_run lock_op_defs Let_def
      kbind_def kthen_def kret_def kstop_def held_def pushed_def)

lemma release_run:
  "held lk (hart s) \<Longrightarrow> masked (hart s) \<Longrightarrow> release lk s = Ok () (s\<lparr>hart := rel lk (hart s)\<rparr>)"
  by (simp add: release_def lock_op_defs Let_def
      kbind_def kthen_def kret_def held_def masked_def cur_def pop_off_run rel_def popped_def)

lemma release_stop:
  "\<not> held lk (hart s) \<Longrightarrow> release lk s = Stop (Panic ''release'') s"
  by (simp add: release_def lock_op_defs kbind_def kret_def kstop_def held_def)

lemma wp_acquire [wp_eqs]:
  "wp (acquire lk) Q s \<longleftrightarrow>
     \<not> locked (locks (hart s) lk) \<and> Q () (s\<lparr>hart := acq lk (hart s)\<rparr>)"
  using acquire_run acquire_stop
  by (cases "locked (locks (hart s) lk)") (fastforce simp: wp_def)+

lemma wp_release [wp_eqs]:
  "wp (release lk) Q s \<longleftrightarrow>
     held lk (hart s) \<and> masked (hart s) \<and> Q () (s\<lparr>hart := rel lk (hart s)\<rparr>)"
proof (cases "held lk (hart s)")
  case True
  show ?thesis
  proof (cases "masked (hart s)")
    case False
    have "\<exists>e s'. release lk s = Stop e s'"
      using True False
      by (auto simp: release_def lock_op_defs Let_def
          kbind_def kthen_def kret_def held_def masked_def cur_def pop_off_def mycpu_def
          intr_get_def kstop_def)
    with False show ?thesis by (auto simp: wp_def)
  qed (simp add: True release_run wp_def)
qed (simp add: release_stop wp_def)

subsection \<open>The algebra of net effects\<close>

lemma tp_effects [simp]:
  "tp (pushed h) = tp h" "tp (popped h) = tp h" "tp (acq lk h) = tp h" "tp (rel lk h) = tp h"
  "tp (scrub h) = tp h"
  by (simp_all add: hart_defs)

lemma cpu_proc_effects [simp]:
  "cpu_proc (cpus (pushed h) i) = cpu_proc (cpus h i)"
  "cpu_proc (cpus (popped h) i) = cpu_proc (cpus h i)"
  "cpu_proc (cpus (acq lk h) i) = cpu_proc (cpus h i)"
  "cpu_proc (cpus (rel lk h) i) = cpu_proc (cpus h i)"
  "cpu_proc (cpus (scrub h) i) = cpu_proc (cpus h i)"
  by (simp_all add: hart_defs)

lemma locks_effects [simp]:
  "locks (pushed h) = locks h" "locks (popped h) = locks h" "locks (scrub h) = locks h"
  by (simp_all add: hart_defs)

lemma locked_acq [simp]:
  "locked (locks (acq lk h) l) \<longleftrightarrow> l = lk \<or> locked (locks h l)"
  "locked (locks (rel lk h) l) \<longleftrightarrow> l \<noteq> lk \<and> locked (locks h l)"
  by (simp_all add: hart_defs)

lemma lock_free_not_locked [simp]: "lock_free lk h \<Longrightarrow> \<not> locked (locks h lk)"
  by (simp add: lock_free_def)

lemma lock_free_effects [simp]:
  "lock_free l (acq lk h) \<longleftrightarrow> l \<noteq> lk \<and> lock_free l h"
  "lock_free l (rel lk h) \<longleftrightarrow> l = lk \<or> lock_free l h"
  "lock_free l (scrub h) \<longleftrightarrow> lock_free l h"
  "lock_free l (pushed h) \<longleftrightarrow> lock_free l h"
  by (auto simp: hart_defs)

lemma held_effects [simp]:
  "held l (acq lk h) \<longleftrightarrow> l = lk \<or> held l h"
  "held l (rel lk h) \<longleftrightarrow> l \<noteq> lk \<and> held l h"
  "held l (scrub h) \<longleftrightarrow> held l h"
  "held l (pushed h) \<longleftrightarrow> held l h"
  by (auto simp: hart_defs)

lemma hart_ok_effects [simp]:
  "hart_ok h \<Longrightarrow> hart_ok (acq lk h)"
  "hart_ok h \<Longrightarrow> hart_ok (pushed h)"
  "hart_ok (scrub h) \<longleftrightarrow> hart_ok h"
  by (auto simp: hart_defs)

lemma masked_effects [simp]:
  "hart_ok h \<Longrightarrow> masked (acq lk h)"
  "hart_ok h \<Longrightarrow> masked (pushed h)"
  "masked (scrub h) \<longleftrightarrow> masked h"
  by (auto simp: hart_defs)

lemma masked_hart_ok: "masked h \<Longrightarrow> hart_ok h"
  by (simp add: hart_defs)

lemma hart_ok_rel [simp]: "masked h \<Longrightarrow> hart_ok (rel lk h)"
  by (auto simp: hart_defs)

lemma noff_effects [simp]:
  "noff (cur (acq lk h)) = noff (cur h) + 1" "noff (cur (rel lk h)) = noff (cur h) - 1"
  "noff (cur (scrub h)) = noff (cur h)"
  by (simp_all add: hart_defs)

lemma sie_scrub [simp]: "sie (scrub h) = sie h"
  by (simp add: hart_defs)

lemma popped_pushed [simp]: "hart_ok h \<Longrightarrow> popped (pushed h) = scrub h"
  by (cases "noff (cur h) = 0") (auto simp: hart_defs intro!: harts.equality cpu.equality ext split: if_splits)

lemma rel_acq [simp]: "lock_free lk h \<Longrightarrow> hart_ok h \<Longrightarrow> rel lk (acq lk h) = scrub h"
  by (cases "noff (cur h) = 0")
    (auto simp: hart_defs intro!: harts.equality cpu.equality spinlock.equality ext split: if_splits)

lemma scrub_scrub [simp]: "scrub (scrub h) = scrub h"
  by (simp add: hart_defs)

lemma scrub_masked: "masked h \<Longrightarrow> scrub h = h"
  by (simp add: hart_defs fun_upd_idem)

lemma scrub_acq [simp]: "hart_ok h \<Longrightarrow> scrub (acq lk h) = acq lk h"
  by (rule scrub_masked) simp

lemma acq_scrub [simp]: "acq lk (scrub h) = acq lk h"
  by (simp add: hart_defs)

text \<open>Releasing the outer lock first leaves the inner one held, as \<^verbatim>\<open>sleep\<close> does.\<close>

lemma rel_acq_acq:
  "l \<noteq> k \<Longrightarrow> lock_free l h \<Longrightarrow> hart_ok h \<Longrightarrow> rel l (acq k (acq l h)) = acq k h"
  by (cases "noff (cur h) = 0")
    (auto simp: hart_defs intro!: harts.equality cpu.equality spinlock.equality ext split: if_splits)

section \<open>Interleaving harts\<close>

text \<open>
  Where a hart stands with respect to one lock: outside, past the entry checks of
  \<^verbatim>\<open>acquire\<close> and spinning, past the successful swap, in its critical section, past the
  owner reset of \<^verbatim>\<open>release\<close>, and past the release of the lock word.
\<close>

datatype spin_pc = Outside | Trying | Got | Critical | Leaving | Unlocked

text \<open>\<open>on_hart i m\<close> runs \<open>m\<close> on hart \<open>i\<close>.\<close>

definition on_hart :: "nat \<Rightarrow> (machine, 'a) kern \<Rightarrow> (machine, 'a) kern" where
  "on_hart i m = (\<lambda>s. m (s\<lparr>hart := (hart s)\<lparr>tp := i\<rparr>\<rparr>))"

inductive lock_step :: "lockid \<Rightarrow> machine \<times> (nat \<Rightarrow> spin_pc) \<Rightarrow> machine \<times> (nat \<Rightarrow> spin_pc) \<Rightarrow> bool"
  for lk where
  enter: "pc i = Outside \<Longrightarrow> on_hart i (kthen push_off (holding lk)) s = Ok False s' \<Longrightarrow>
     lock_step lk (s, pc) (s', pc(i := Trying))"
| spin: "pc i = Trying \<Longrightarrow> on_hart i (test_and_set lk) s = Ok True s' \<Longrightarrow>
     lock_step lk (s, pc) (s', pc)"
| win: "pc i = Trying \<Longrightarrow> on_hart i (test_and_set lk) s = Ok False s' \<Longrightarrow>
     lock_step lk (s, pc) (s', pc(i := Got))"
| own: "pc i = Got \<Longrightarrow> on_hart i (set_owner lk) s = Ok () s' \<Longrightarrow>
     lock_step lk (s, pc) (s', pc(i := Critical))"
| leave: "pc i = Critical \<Longrightarrow> on_hart i (holding lk) s = Ok True s' \<Longrightarrow>
     on_hart i (clear_owner lk) s = Ok () s'' \<Longrightarrow> lock_step lk (s, pc) (s'', pc(i := Leaving))"
| unlock: "pc i = Leaving \<Longrightarrow> on_hart i (lock_release lk) s = Ok () s' \<Longrightarrow>
     lock_step lk (s, pc) (s', pc(i := Unlocked))"
| restore: "pc i = Unlocked \<Longrightarrow> on_hart i pop_off s = Ok () s' \<Longrightarrow>
     lock_step lk (s, pc) (s', pc(i := Outside))"

inductive lock_reach :: "lockid \<Rightarrow> machine \<Rightarrow> machine \<times> (nat \<Rightarrow> spin_pc) \<Rightarrow> bool"
  for lk s0 where
  start: "initlock lk nm s0 = Ok () s \<Longrightarrow> lock_reach lk s0 (s, \<lambda>_. Outside)"
| step: "lock_reach lk s0 c \<Longrightarrow> lock_step lk c c' \<Longrightarrow> lock_reach lk s0 c'"

definition inside :: "spin_pc \<Rightarrow> bool" where
  "inside p \<longleftrightarrow> p = Got \<or> p = Critical \<or> p = Leaving"

text \<open>
  The lock word is set exactly when some hart is inside, that hart is unique, and the
  owner field names a hart exactly while it is in its critical section.
\<close>

definition pc_inv :: "bool \<Rightarrow> nat option \<Rightarrow> (nat \<Rightarrow> spin_pc) \<Rightarrow> bool" where
  "pc_inv taken owner pc \<longleftrightarrow>
     (taken \<longleftrightarrow> (\<exists>i. inside (pc i)))
     \<and> (\<forall>i j. inside (pc i) \<longrightarrow> inside (pc j) \<longrightarrow> i = j)
     \<and> (\<forall>i. owner = Some i \<longleftrightarrow> pc i = Critical)"

definition lock_inv :: "lockid \<Rightarrow> machine \<times> (nat \<Rightarrow> spin_pc) \<Rightarrow> bool" where
  "lock_inv lk c \<longleftrightarrow>
     pc_inv (locked (locks (hart (fst c)) lk)) (lock_cpu (locks (hart (fst c)) lk)) (snd c)"

lemma inside_simps [simp]:
  "\<not> inside Outside" "\<not> inside Trying" "inside Got" "inside Critical" "inside Leaving"
  "\<not> inside Unlocked"
  by (simp_all add: inside_def)

lemma pc_inv_outside:
  assumes "pc_inv taken owner pc" "\<not> inside (pc i)" "\<not> inside p"
  shows "pc_inv taken owner (pc(i := p))"
proof -
  have "inside ((pc(i := p)) j) = inside (pc j)" for j using assms(2,3) by simp
  moreover have "((pc(i := p)) j = Critical) = (pc j = Critical)" for j
    using assms(2,3) by auto
  ultimately show ?thesis using assms(1) by (simp add: pc_inv_def)
qed

lemma pc_inv_win:
  assumes "pc_inv False owner pc"
  shows "pc_inv True owner (pc(i := Got))"
proof -
  have "\<not> inside (pc j)" for j using assms by (auto simp: pc_inv_def)
  moreover have "pc j \<noteq> Critical" for j using calculation[of j] by auto
  ultimately show ?thesis using assms by (auto simp: pc_inv_def)
qed

lemma pc_inv_inside:
  assumes "pc_inv taken owner pc" "inside (pc i)" "inside p"
  shows "pc_inv taken (if p = Critical then Some i else None) (pc(i := p))"
proof -
  have uniq: "\<And>j k. inside (pc j) \<Longrightarrow> inside (pc k) \<Longrightarrow> j = k"
    using assms(1) by (simp add: pc_inv_def)
  have "pc j \<noteq> Critical" if "j \<noteq> i" for j
    using uniq[of j i] assms(2) that by auto
  then have crit: "((pc(i := p)) j = Critical) = (j = i \<and> p = Critical)" for j by simp
  have ins: "inside ((pc(i := p)) j) = inside (pc j)" for j using assms(2,3) by simp
  show ?thesis
    unfolding pc_inv_def ins crit using assms(1) by (auto simp: pc_inv_def)
qed

lemma pc_inv_unlock:
  assumes "pc_inv taken owner pc" "pc i = Leaving"
  shows "pc_inv False owner (pc(i := Unlocked))"
proof -
  have uniq: "\<And>j k. inside (pc j) \<Longrightarrow> inside (pc k) \<Longrightarrow> j = k"
    using assms(1) by (simp add: pc_inv_def)
  have ins: "\<not> inside ((pc(i := Unlocked)) j)" for j
    using uniq[of j i] assms(2) by auto
  have old: "pc j \<noteq> Critical" for j using uniq[of j i] assms(2) by auto
  have crit: "(pc(i := Unlocked)) j \<noteq> Critical" for j using old by simp
  have own: "owner \<noteq> Some j" for j using assms(1) old by (simp add: pc_inv_def)
  show ?thesis
    unfolding pc_inv_def using ins crit own by blast
qed

lemmas interleave_defs = on_hart_def lock_op_defs Let_def kbind_def kthen_def kret_def
  push_off_run pushed_def

lemma lock_inv_start: "initlock lk nm s0 = Ok () s \<Longrightarrow> lock_inv lk (s, \<lambda>_. Outside)"
  by (auto simp: initlock_def interleave_defs lock_inv_def pc_inv_def)

lemma lock_inv_step:
  assumes "lock_step lk c c'" "lock_inv lk c"
  shows "lock_inv lk c'"
  using assms
proof (induction rule: lock_step.induct)
  case (enter pc i s s')
  then have "locks (hart s') lk = locks (hart s) lk" by (auto simp: interleave_defs)
  with enter show ?case by (simp add: lock_inv_def pc_inv_outside)
next
  case (spin pc i s s')
  then have "locked (locks (hart s) lk)"
    "locks (hart s') lk = (locks (hart s) lk)\<lparr>locked := True\<rparr>" by (auto simp: interleave_defs)
  with spin show ?case by (simp add: lock_inv_def)
next
  case (win pc i s s')
  then have "\<not> locked (locks (hart s) lk)"
    "locks (hart s') lk = (locks (hart s) lk)\<lparr>locked := True\<rparr>" by (auto simp: interleave_defs)
  with win show ?case by (simp add: lock_inv_def pc_inv_win)
next
  case (own pc i s s')
  then have "locks (hart s') lk = (locks (hart s) lk)\<lparr>lock_cpu := Some i\<rparr>"
    by (auto simp: interleave_defs)
  with own pc_inv_inside[of _ _ pc i Critical] show ?case by (simp add: lock_inv_def)
next
  case (leave pc i s s' s'')
  then have "locks (hart s'') lk = (locks (hart s) lk)\<lparr>lock_cpu := None\<rparr>"
    by (auto simp: interleave_defs)
  with leave pc_inv_inside[of _ _ pc i Leaving] show ?case by (simp add: lock_inv_def)
next
  case (unlock pc i s s')
  then have "locks (hart s') lk = (locks (hart s) lk)\<lparr>locked := False\<rparr>"
    by (auto simp: interleave_defs)
  with unlock show ?case by (simp add: lock_inv_def pc_inv_unlock)
next
  case (restore pc i s s')
  then have "masked (hart (s\<lparr>hart := (hart s)\<lparr>tp := i\<rparr>\<rparr>))"
    using pop_off_stop[of "s\<lparr>hart := (hart s)\<lparr>tp := i\<rparr>\<rparr>"] by (force simp: on_hart_def)
  with restore have "locks (hart s') lk = locks (hart s) lk"
    by (auto simp: on_hart_def pop_off_run)
  with restore show ?case by (simp add: lock_inv_def pc_inv_outside)
qed

lemma lock_reach_inv: "lock_reach lk s0 c \<Longrightarrow> lock_inv lk c"
  by (induction rule: lock_reach.induct) (auto intro: lock_inv_start lock_inv_step)



end
