(* ===== verification/Printf.thy ===== *)
theory Printf
  imports Spinlock
begin

text \<open>
  Formatted console output: \<^verbatim>\<open>kernel/printf.c\<close>, the output half of \<^verbatim>\<open>kernel/console.c\<close>
  (\<^verbatim>\<open>consputc\<close>) and of \<^verbatim>\<open>kernel/uart.c\<close> (\<^verbatim>\<open>uartputc_sync\<close>). The UART is the list of bytes
  written to its transmit register; the wait for the register to be empty is the device's,
  and it always ends. \<open>printf_out\<close> is the sequence of \<^verbatim>\<open>consputc\<close> calls a format produces. The
  lemmas give the net effect of a call of \<^verbatim>\<open>printf\<close> from kernel code, show that the number
  conversion never leaves its 20-byte buffer, and read the printed digits back.
\<close>

section \<open>State\<close>

record console_out =
  uart_out :: string
  panicking :: bool
  panicked :: bool

record out_machine = machine +
  con :: console_out

section \<open>Characters\<close>

definition BACKSPACE :: int where "BACKSPACE = 0x100"

definition uartputc_sync :: "int \<Rightarrow> ('z out_machine_scheme, unit) kern" where
  "uartputc_sync c =
     kbind (kget (\<lambda>s. panicking (con s))) (\<lambda>pk.
     kthen (kwhen (\<not> pk) push_off) (
     kbind (kget (\<lambda>s. panicked (con s))) (\<lambda>pd.
     if pd then kstop Frozen else
     kthen (kmod (\<lambda>s. s\<lparr>con := (con s)\<lparr>uart_out := uart_out (con s) @ [char_of c]\<rparr>\<rparr>))
           (kwhen (\<not> pk) pop_off))))"

definition consputc :: "int \<Rightarrow> ('z out_machine_scheme, unit) kern" where
  "consputc c =
     (if c = BACKSPACE
      then kseq [uartputc_sync 8, uartputc_sync 32, uartputc_sync 8]
      else uartputc_sync c)"

section \<open>Numbers\<close>

definition digits :: string where "digits = ''0123456789abcdef''"

text \<open>
  The digit loop of \<^verbatim>\<open>printint\<close>: the content of \<^verbatim>\<open>buf\<close>, least significant digit first. Every
  call has base 10 or 16; on a base below 2 the C loop would not end, and the model stops it.
\<close>

function digit_loop :: "u64 \<Rightarrow> u64 \<Rightarrow> string" where
  "digit_loop x base =
     digits ! unat (x mod base) #
     (if x div base = 0 \<or> base \<le> 1 then [] else digit_loop (x div base) base)"
  by pat_completeness auto
termination
proof (relation "measure (\<lambda>(x, base). unat x)", simp, clarsimp)
  fix x base :: u64
  assume "x div base \<noteq> 0" "\<not> base \<le> 1"
  then have "unat x \<noteq> 0" "1 < unat base"
    by (auto simp: word_le_nat_alt unat_eq_zero)
  then show "unat (x div base) < unat x" by (simp add: unat_div)
qed

declare digit_loop.simps [simp del]

text \<open>The buffer of \<^verbatim>\<open>printint\<close> when it is printed, last element first.\<close>

definition printint_buf :: "u64 \<Rightarrow> u64 \<Rightarrow> bool \<Rightarrow> string" where
  "printint_buf xx base sign =
     (let neg = sign \<and> sint xx < 0; x = (if neg then - xx else xx) in
      digit_loop x base @ (if neg then ''-'' else ''''))"

definition printint :: "u64 \<Rightarrow> u64 \<Rightarrow> bool \<Rightarrow> int list" where
  "printint xx base sign = map of_char (rev (printint_buf xx base sign))"

definition printptr :: "u64 \<Rightarrow> int list" where
  "printptr x =
     map of_char (''0x'' @ map (\<lambda>i. digits ! unat (drop_bit 60 (push_bit (4 * i) x))) [0..<16])"

section \<open>Formats\<close>

text \<open>
  A variable argument: a 64-bit integer slot or a string pointer. \<^verbatim>\<open>va_arg\<close> reads the low
  half for a 32-bit type. Reading past the last argument is undefined in C; the model
  yields zero there.
\<close>

datatype vararg = VaI u64 | VaS "string option"

definition va_u64 :: "vararg list \<Rightarrow> u64" where
  "va_u64 args = (case args of VaI v # _ \<Rightarrow> v | _ \<Rightarrow> 0)"

definition va_int :: "vararg list \<Rightarrow> u64" where
  "va_int args = scast (ucast (va_u64 args) :: u32)"

definition va_u32 :: "vararg list \<Rightarrow> u64" where
  "va_u32 args = ucast (ucast (va_u64 args) :: u32)"

definition va_str :: "vararg list \<Rightarrow> string" where
  "va_str args = (case args of VaS (Some t) # _ \<Rightarrow> t | _ \<Rightarrow> ''(null)'')"

definition char_at :: "string \<Rightarrow> nat \<Rightarrow> char" where
  "char_at fmt i = (if i < length fmt then fmt ! i else CHR 0x00)"

function printf_out :: "string \<Rightarrow> vararg list \<Rightarrow> int list" where
  "printf_out [] args = []"
| "printf_out (cx # rest) args =
     (if cx \<noteq> CHR ''%'' then of_char cx # printf_out rest args
      else
      let c0 = char_at rest 0; c1 = char_at rest 1; c2 = char_at rest 2 in
      if c0 = CHR ''d'' then printint (va_int args) 10 True @ printf_out (drop 1 rest) (tl args)
      else if c0 = CHR ''l'' \<and> c1 = CHR ''d''
      then printint (va_u64 args) 10 True @ printf_out (drop 2 rest) (tl args)
      else if c0 = CHR ''l'' \<and> c1 = CHR ''l'' \<and> c2 = CHR ''d''
      then printint (va_u64 args) 10 True @ printf_out (drop 3 rest) (tl args)
      else if c0 = CHR ''u'' then printint (va_u32 args) 10 False @ printf_out (drop 1 rest) (tl args)
      else if c0 = CHR ''l'' \<and> c1 = CHR ''u''
      then printint (va_u64 args) 10 False @ printf_out (drop 2 rest) (tl args)
      else if c0 = CHR ''l'' \<and> c1 = CHR ''l'' \<and> c2 = CHR ''u''
      then printint (va_u64 args) 10 False @ printf_out (drop 3 rest) (tl args)
      else if c0 = CHR ''x'' then printint (va_u32 args) 16 False @ printf_out (drop 1 rest) (tl args)
      else if c0 = CHR ''l'' \<and> c1 = CHR ''x''
      then printint (va_u64 args) 16 False @ printf_out (drop 2 rest) (tl args)
      else if c0 = CHR ''l'' \<and> c1 = CHR ''l'' \<and> c2 = CHR ''x''
      then printint (va_u64 args) 16 False @ printf_out (drop 3 rest) (tl args)
      else if c0 = CHR ''p'' then printptr (va_u64 args) @ printf_out (drop 1 rest) (tl args)
      else if c0 = CHR ''c'' then sint (ucast (va_u64 args) :: u32) # printf_out (drop 1 rest) (tl args)
      else if c0 = CHR ''s'' then map of_char (va_str args) @ printf_out (drop 1 rest) (tl args)
      else if c0 = CHR ''%'' then of_char (CHR ''%'') # printf_out (drop 1 rest) args
      else if rest = [] then []
      else of_char (CHR ''%'') # of_char c0 # printf_out (drop 1 rest) args)"
  by pat_completeness auto
termination
  by (relation "measure (\<lambda>(fmt, args). length fmt)") auto

definition printf :: "string \<Rightarrow> vararg list \<Rightarrow> ('z out_machine_scheme, unit) kern" where
  "printf fmt args =
     kbind (kget (\<lambda>s. panicking (con s))) (\<lambda>pk0.
     kthen (kwhen (\<not> pk0) (acquire Lpr)) (
     kthen (kfor (printf_out fmt args) consputc) (
     kbind (kget (\<lambda>s. panicking (con s))) (\<lambda>pk1.
     kwhen (\<not> pk1) (release Lpr)))))"

definition panic :: "string \<Rightarrow> ('z out_machine_scheme, unit) kern" where
  "panic msg =
     kthen (kmod (\<lambda>s. s\<lparr>con := (con s)\<lparr>panicking := True\<rparr>\<rparr>)) (
     kthen (printf ''panic: '' []) (
     kthen (printf (''%s'' @ [CHR 0x0A]) [VaS (Some msg)]) (
     kthen (kmod (\<lambda>s. s\<lparr>con := (con s)\<lparr>panicked := True\<rparr>\<rparr>))
           (kpanic msg))))"

definition printfinit :: "('z out_machine_scheme, unit) kern" where
  "printfinit = initlock Lpr ''pr''"

text \<open>A console that has printed nothing.\<close>

definition con0 :: console_out where
  "con0 = \<lparr>uart_out = [], panicking = False, panicked = False\<rparr>"

section \<open>Net effect of printf\<close>

definition putc_bytes :: "int \<Rightarrow> string" where
  "putc_bytes c = map char_of (if c = BACKSPACE then [8, 32, 8] else [c])"

definition printed :: "string \<Rightarrow> vararg list \<Rightarrow> string" where
  "printed fmt args = concat (map putc_bytes (printf_out fmt args))"

definition outs :: "string \<Rightarrow> console_out \<Rightarrow> console_out" where
  "outs t c = c\<lparr>uart_out := uart_out c @ t\<rparr>"

lemma outs_simps [simp]:
  "panicking (outs t c) = panicking c" "panicked (outs t c) = panicked c"
  "uart_out (outs t c) = uart_out c @ t" "outs t (outs u c) = outs (u @ t) c" "outs [] c = c"
  by (simp_all add: outs_def)

definition can_print :: "'z out_machine_scheme \<Rightarrow> bool" where
  "can_print s \<longleftrightarrow> \<not> panicking (con s) \<and> \<not> panicked (con s)"

lemma uartputc_sync_run:
  "can_print s \<Longrightarrow> hart_ok (hart s) \<Longrightarrow>
     uartputc_sync c s = Ok () (s\<lparr>hart := scrub (hart s), con := outs [char_of c] (con s)\<rparr>)"
  by (simp add: uartputc_sync_def can_print_def kbind_def kthen_def push_off_run pop_off_run
      outs_def)

lemma consputc_run:
  "can_print s \<Longrightarrow> hart_ok (hart s) \<Longrightarrow>
     consputc c s = Ok () (s\<lparr>hart := scrub (hart s), con := outs (putc_bytes c) (con s)\<rparr>)"
  by (simp add: consputc_def putc_bytes_def uartputc_sync_run can_print_def kthen_def kbind_def
      kret_def)

lemma consputc_for_run:
  "can_print s \<Longrightarrow> masked (hart s) \<Longrightarrow>
     kfor cs consputc s = Ok () (s\<lparr>con := outs (concat (map putc_bytes cs)) (con s)\<rparr>)"
proof (induction cs arbitrary: s)
  case Nil
  then show ?case by (simp add: kret_def)
next
  case (Cons c cs)
  then show ?case
    by (simp add: run_kthen_Ok[OF consputc_run] masked_hart_ok scrub_masked can_print_def)
qed

lemma printf_run:
  assumes "can_print s" "hart_ok (hart s)" "lock_free Lpr (hart s)"
  shows "printf fmt args s =
    Ok () (s\<lparr>hart := scrub (hart s), con := outs (printed fmt args) (con s)\<rparr>)"
  using assms
  by (simp add: printf_def printed_def can_print_def kbind_def kthen_def acquire_run
      consputc_for_run release_run)

lemma wp_printf [wp_eqs]:
  "can_print s \<Longrightarrow> hart_ok (hart s) \<Longrightarrow> lock_free Lpr (hart s) \<Longrightarrow>
   wp (printf fmt args) Q s =
     Q () (s\<lparr>hart := scrub (hart s), con := outs (printed fmt args) (con s)\<rparr>)"
  by (simp add: printf_run wp_def)

section \<open>The number conversion\<close>

text \<open>Reading digits back: the value of a digit, of a buffer, and of a printed signed number.\<close>

fun index_of :: "'a list \<Rightarrow> 'a \<Rightarrow> nat" where
  "index_of [] c = 0"
| "index_of (d # ds) c = (if d = c then 0 else Suc (index_of ds c))"

definition digit_val :: "char \<Rightarrow> nat" where "digit_val c = index_of digits c"

definition buf_val :: "nat \<Rightarrow> string \<Rightarrow> nat" where
  "buf_val b ds = foldr (\<lambda>c v. digit_val c + b * v) ds 0"

definition read_int :: "string \<Rightarrow> int" where
  "read_int t =
     (if t \<noteq> [] \<and> hd t = CHR ''-'' then - int (buf_val 10 (rev (tl t)))
      else int (buf_val 10 (rev t)))"

lemma length_digits [simp]: "length digits = 16" by (simp add: digits_def)

lemma digit_val_digits: "d < 16 \<Longrightarrow> digit_val (digits ! d) = d"
proof -
  have "\<forall>d \<in> {..<16}. digit_val (digits ! d) = d" by code_simp
  then show "d < 16 \<Longrightarrow> digit_val (digits ! d) = d" by simp
qed

lemma digits_no_minus: "d < 16 \<Longrightarrow> digits ! d \<noteq> CHR ''-''"
proof -
  have "\<forall>d \<in> {..<16}. digits ! d \<noteq> CHR ''-''" by code_simp
  then show "d < 16 \<Longrightarrow> digits ! d \<noteq> CHR ''-''" by simp
qed

lemma mod_base_less:
  fixes x base :: u64
  assumes "1 < base" "base \<le> 16"
  shows "unat (x mod base) < 16"
proof -
  have "1 < unat base" "unat base \<le> 16"
    using assms by (simp_all add: word_less_nat_alt word_le_nat_alt)
  then have "unat x mod unat base < 16"
    by (meson less_le_trans mod_less_divisor less_trans zero_less_one)
  then show ?thesis by (simp add: unat_mod)
qed

lemma digit_loop_val:
  assumes "1 < base" "base \<le> 16"
  shows "buf_val (unat base) (digit_loop x base) = unat x"
  using assms
proof (induction x base rule: digit_loop.induct)
  case (1 x base)
  have d: "digit_val (digits ! unat (x mod base)) = unat x mod unat base"
    using digit_val_digits[OF mod_base_less[OF "1.prems"]] by (simp add: unat_mod)
  show ?case
  proof (cases "x div base = 0")
    case True
    then have "unat x div unat base = 0" by (metis unat_div unat_0)
    then show ?thesis
      using d div_mult_mod_eq[of "unat x" "unat base"] True
      by (simp add: digit_loop.simps[of x base] buf_val_def)
  next
    case False
    then have "buf_val (unat base) (digit_loop (x div base) base) = unat x div unat base"
      using "1.IH" "1.prems" by (simp add: unat_div)
    then show ?thesis
      using d False not_le[THEN iffD2, OF "1.prems"(1)] mod_mult_div_eq[of "unat x" "unat base"]
      by (simp add: digit_loop.simps[of x base] buf_val_def)
  qed
qed

lemma digit_loop_length:
  "1 < base \<Longrightarrow> unat x < unat base ^ n \<Longrightarrow> 0 < n \<Longrightarrow> length (digit_loop x base) \<le> n"
proof (induction n arbitrary: x)
  case (Suc n)
  have b: "1 < unat base" using Suc.prems by (simp add: word_less_nat_alt)
  have "unat (x div base) < unat base ^ n"
    using Suc.prems b by (simp add: unat_div less_mult_imp_div_less mult.commute)
  moreover have "n = 0 \<Longrightarrow> x div base = 0"
    using calculation by (simp add: unat_eq_zero)
  ultimately show ?case
    using Suc by (cases "n = 0") (auto simp: digit_loop.simps[of x base])
qed simp

lemma digit_loop_chars:
  "1 < base \<Longrightarrow> base \<le> 16 \<Longrightarrow> c \<in> set (digit_loop x base) \<Longrightarrow> c \<noteq> CHR ''-''"
proof (induction x base rule: digit_loop.induct)
  case (1 x base)
  have "c = digits ! unat (x mod base) \<or>
      \<not> (x div base = 0 \<or> base \<le> 1) \<and> c \<in> set (digit_loop (x div base) base)"
    using "1.prems"(3) by (subst (asm) digit_loop.simps) (auto split: if_splits)
  then show ?case
    using "1.IH"[OF _ "1.prems"(1,2)] digits_no_minus[OF mod_base_less[OF "1.prems"(1,2)], of x]
    by (elim disjE) simp_all
qed

lemma digit_loop_not_Nil [simp]: "digit_loop x base \<noteq> []"
  by (subst digit_loop.simps) simp

lemma uint_minus_neg:
  fixes x :: u64
  assumes "sint x < 0"
  shows "uint (- x) = - sint x"
proof -
  have s: "- (2 ^ 63) \<le> sint x" using sint_greater_eq[of x] by simp
  have "- x = word_of_int (- sint x)" by simp
  then have "uint (- x) = (- sint x) mod 2 ^ 64" by (simp only: uint_word_of_int) simp
  also have "\<dots> = - sint x" using assms s by (intro mod_pos_pos_trivial) simp_all
  finally show ?thesis .
qed

lemma uint_nonneg:
  fixes x :: u64
  assumes "\<not> sint x < 0"
  shows "uint x = sint x"
proof -
  have "uint x = uint (word_of_int (sint x) :: u64)" by simp
  also have "\<dots> = sint x mod 2 ^ 64" by (simp only: uint_word_of_int) simp
  also have "\<dots> = sint x" using assms sint_less[of x] by (intro mod_pos_pos_trivial) simp_all
  finally show ?thesis .
qed

lemma printint_chars: "map char_of (printint xx base sign) = rev (printint_buf xx base sign)"
  by (simp add: printint_def comp_def)

text \<open>
  C30: \<^verbatim>\<open>printint\<close> stores at most 20 characters in its 20-byte buffer, sign included, for
  the two bases \<^verbatim>\<open>printf\<close> calls it with and every 64-bit value.
\<close>

theorem printint_fits:
  assumes "base = 10 \<or> base = 16"
  shows "length (printint_buf xx base sign) \<le> 20"
proof (cases "sign \<and> sint xx < 0")
  case True
  have "unat (- xx) < 10 ^ 19"
    using uint_minus_neg[of xx] True sint_greater_eq[of xx] by (simp add: unat_eq_nat_uint)
  moreover have "(10 :: nat) ^ 19 \<le> unat base ^ 19" using assms by auto
  ultimately have "length (digit_loop (- xx) base) \<le> 19"
    using assms by (intro digit_loop_length) auto
  then show ?thesis using True by (simp add: printint_buf_def)
next
  case False
  have "unat xx < 10 ^ 20" by (rule less_trans[OF unsigned_less]) simp
  moreover have "(10 :: nat) ^ 20 \<le> unat base ^ 20" using assms by auto
  ultimately have "length (digit_loop xx base) \<le> 20"
    using assms by (intro digit_loop_length) auto
  then show ?thesis using False by (auto simp: printint_buf_def)
qed

theorem printint_fits_witness: "length (printint_buf (2 ^ 63) 10 True) \<le> 20"
  using printint_fits[of 10 "2 ^ 63" True] by simp

text \<open>
  C29: what \<^verbatim>\<open>%d\<close> prints reads back as the signed value of the argument, the
  most negative one included.
\<close>

theorem printint_read_back:
  "read_int (map char_of (printint xx 10 True)) = sint xx"
proof (cases "sint xx < 0")
  case True
  then have "map char_of (printint xx 10 True) = CHR ''-'' # rev (digit_loop (- xx) 10)"
    by (simp add: printint_chars printint_buf_def)
  then show ?thesis
    using digit_loop_val[of 10 "- xx"] uint_minus_neg[OF True] by (simp add: read_int_def)
next
  case False
  then have "map char_of (printint xx 10 True) = rev (digit_loop xx 10)"
    by (simp add: printint_chars printint_buf_def)
  moreover have "hd (rev (digit_loop xx 10)) \<noteq> CHR ''-''"
    by (rule digit_loop_chars[of 10 _ xx]) (simp_all add: hd_rev)
  ultimately show ?thesis
    using digit_loop_val[of 10 xx] uint_nonneg[OF False] by (simp add: read_int_def)
qed

end
