(* ===== verification/Kstring.thy ===== *)
theory Kstring
  imports Prelude
begin

text \<open>
  The memory and string routines of \<^verbatim>\<open>kernel/string.c\<close>. \<^verbatim>\<open>memset\<close> and \<^verbatim>\<open>memmove\<close> act on
  byte-addressed memory, the latter with the aliasing the code handles. The routines that
  only read take a pointer as the function from an offset to the byte there, which covers a
  pointer into memory and a pointer to a local array; the two string copies return the bytes
  they store at \<open>s[0]\<close>, \<open>s[1]\<close>, and so on. The lemmas give each loop a closed form: a filled range, a
  simultaneous copy, comparison up to the first NUL, padding and termination.
\<close>

type_synonym cptr = "nat \<Rightarrow> u8"

definition ptr :: "memory \<Rightarrow> u64 \<Rightarrow> cptr" where
  "ptr m a = (\<lambda>i. m (a + of_nat i))"

section \<open>Definitions\<close>

definition memset :: "u64 \<Rightarrow> u32 \<Rightarrow> u32 \<Rightarrow> memory \<Rightarrow> memory" where
  "memset dst c n m = fold (\<lambda>i m. m(dst + of_nat i := ucast c)) [0..<unat n] m"

primrec memcmp :: "cptr \<Rightarrow> cptr \<Rightarrow> nat \<Rightarrow> int" where
  "memcmp s1 s2 0 = 0"
| "memcmp s1 s2 (Suc n) =
     (if s1 0 \<noteq> s2 0 then uint (s1 0) - uint (s2 0)
      else memcmp (\<lambda>i. s1 (Suc i)) (\<lambda>i. s2 (Suc i)) n)"

text \<open>The two loops of \<^verbatim>\<open>memmove\<close>: downwards from the ends, upwards from the starts.\<close>

primrec copy_down :: "u64 \<Rightarrow> u64 \<Rightarrow> nat \<Rightarrow> memory \<Rightarrow> memory" where
  "copy_down d s 0 m = m"
| "copy_down d s (Suc n) m = copy_down (d - 1) (s - 1) n (m(d - 1 := m (s - 1)))"

primrec copy_up :: "u64 \<Rightarrow> u64 \<Rightarrow> nat \<Rightarrow> memory \<Rightarrow> memory" where
  "copy_up d s 0 m = m"
| "copy_up d s (Suc n) m = copy_up (d + 1) (s + 1) n (m(d := m s))"

definition memmove :: "u64 \<Rightarrow> u64 \<Rightarrow> u32 \<Rightarrow> memory \<Rightarrow> memory" where
  "memmove dst src n m =
     (if n = 0 then m
      else if src < dst \<and> src + ucast n > dst
      then copy_down (dst + ucast n) (src + ucast n) (unat n) m
      else copy_up dst src (unat n) m)"

definition memcpy :: "u64 \<Rightarrow> u64 \<Rightarrow> u32 \<Rightarrow> memory \<Rightarrow> memory" where
  "memcpy dst src n m = memmove dst src n m"

primrec strncmp :: "cptr \<Rightarrow> cptr \<Rightarrow> nat \<Rightarrow> int" where
  "strncmp p q 0 = 0"
| "strncmp p q (Suc n) =
     (if p 0 \<noteq> 0 \<and> p 0 = q 0 then strncmp (\<lambda>i. p (Suc i)) (\<lambda>i. q (Suc i)) n
      else uint (p 0) - uint (q 0))"

text \<open>\<^verbatim>\<open>strncpy\<close> copies up to and including a NUL, then stores NULs up to \<open>n\<close> bytes.\<close>

primrec strncpy_nat :: "cptr \<Rightarrow> nat \<Rightarrow> u8 list" where
  "strncpy_nat t 0 = []"
| "strncpy_nat t (Suc n) =
     (if t 0 \<noteq> 0 then t 0 # strncpy_nat (\<lambda>i. t (Suc i)) n else t 0 # replicate n 0)"

definition strncpy :: "cptr \<Rightarrow> int \<Rightarrow> u8 list" where
  "strncpy t n = strncpy_nat t (nat n)"

primrec safestrcpy_loop :: "cptr \<Rightarrow> nat \<Rightarrow> u8 list" where
  "safestrcpy_loop t 0 = [0]"
| "safestrcpy_loop t (Suc n) =
     (if t 0 \<noteq> 0 then t 0 # safestrcpy_loop (\<lambda>i. t (Suc i)) n else [t 0, 0])"

text \<open>
  After the loop has copied a NUL the final store writes a second NUL behind it; the loop
  stops one byte before \<open>n\<close>, so that this store stays inside the buffer.
\<close>

definition safestrcpy :: "cptr \<Rightarrow> int \<Rightarrow> u8 list" where
  "safestrcpy t n = (if n \<le> 0 then [] else safestrcpy_loop t (nat n - 1))"

text \<open>\<^verbatim>\<open>strlen\<close> does not return on memory without a NUL.\<close>

partial_function (option) strlen_from :: "cptr \<Rightarrow> nat \<Rightarrow> nat option" where
  "strlen_from s n = (if s n = 0 then Some n else strlen_from s (Suc n))"

definition strlen :: "cptr \<Rightarrow> nat option" where
  "strlen s = strlen_from s 0"

section \<open>Fills and copies\<close>

lemma fold_fill:
  "n \<le> 2 ^ 64 \<Longrightarrow>
   fold (\<lambda>i m. m(dst + of_nat i := c)) [0..<n] m
     = (\<lambda>a::u64. if unat (a - dst) < n then c else m a)"
proof (induction n)
  case 0
  then show ?case by simp
next
  case (Suc n)
  have eq: "a = dst + of_nat n \<longleftrightarrow> unat (a - dst) = n" for a :: u64
  proof -
    have "unat (of_nat n :: u64) = n" using Suc.prems by (simp add: unat_of_nat)
    then show ?thesis by (metis add.commute add_diff_cancel_right' diff_add_cancel word_unat_eq_iff)
  qed
  from Suc show ?case by (auto simp: fun_eq_iff eq less_Suc_eq)
qed

lemma memset_eq: "memset dst c n m a = (if a - dst < ucast n then ucast c else m a)"
proof -
  have "unat n \<le> 2 ^ 64" by (rule order.trans[OF less_imp_le[OF unat_u32_less]]) simp
  then have "memset dst c n m = (\<lambda>a. if unat (a - dst) < unat n then ucast c else m a)"
    unfolding memset_def by (rule fold_fill)
  then show ?thesis by (simp add: word_less_nat_alt )
qed

text \<open>Filling a page changes exactly the bytes of that page.\<close>

lemma memset_page:
  "p mod 4096 = 0 \<Longrightarrow> memset p c 4096 m a = (if pgno a = pgno p then ucast c else m a)"
  by (simp add: memset_eq in_page_iff)

text \<open>
  Copying is correct when no byte is read after it has been overwritten: upwards a source
  byte must not be a target of a lower index, downwards not one of a higher index.
\<close>

lemma copy_up_at:
  assumes "\<And>i j. j < i \<Longrightarrow> i < n \<Longrightarrow> s + of_nat i \<noteq> d + of_nat j" "n < 2 ^ 64" "k < 2 ^ 64"
  shows "copy_up d s n m (d + of_nat k) = (if k < n then m (s + of_nat k) else m (d + of_nat k))"
  using assms
proof (induction n arbitrary: d s m k)
  case 0
  then show ?case by simp
next
  case (Suc n)
  have sh: "s + 1 + of_nat i \<noteq> d + 1 + of_nat j" if "j < i" "i < n" for i j
    using Suc.prems(1)[of "Suc j" "Suc i"] that by (simp add: algebra_simps)
  have IH: "copy_up (d + 1) (s + 1) n (m(d := m s)) (d + 1 + of_nat k') =
     (if k' < n then (m(d := m s)) (s + 1 + of_nat k') else (m(d := m s)) (d + 1 + of_nat k'))"
    if "k' < 2 ^ 64" for k'
    by (rule Suc.IH) (use sh Suc.prems(2) that in auto)
  show ?case
  proof (cases k)
    case 0
    have d: "d = d + 1 + of_nat (2 ^ 64 - 1)" by simp
    have "copy_up (d + 1) (s + 1) n (m(d := m s)) d = m s"
      using IH[of "2 ^ 64 - 1"] Suc.prems(2) unfolding d[symmetric] by simp
    with 0 show ?thesis by simp
  next
    case (Suc k')
    have "(of_nat k :: u64) \<noteq> 0" 
      using of_nat_u64_eq_iff[of k 0] Suc Suc.prems(3) by simp
    moreover have "s + of_nat k \<noteq> d" if "k < Suc n" using Suc.prems(1)[of 0 k] that Suc by simp
    ultimately show ?thesis using IH[of k'] Suc Suc.prems(3) by (auto simp: add.assoc)
  qed
qed

lemma copy_down_at:
  assumes "\<And>i j. i < j \<Longrightarrow> j < n \<Longrightarrow> s + of_nat i \<noteq> d + of_nat j" "n < 2 ^ 64" "k < 2 ^ 64"
  shows "copy_down (d + of_nat n) (s + of_nat n) n m (d + of_nat k) =
    (if k < n then m (s + of_nat k) else m (d + of_nat k))"
  using assms
proof (induction n arbitrary: m)
  case 0
  then show ?case by simp
next
  case (Suc n)
  have IH: "copy_down (d + of_nat n) (s + of_nat n) n m' (d + of_nat k) =
     (if k < n then m' (s + of_nat k) else m' (d + of_nat k))" for m'
    by (rule Suc.IH) (use Suc.prems in auto)
  have one: "d + of_nat (Suc n) - 1 = d + of_nat n" "s + of_nat (Suc n) - 1 = s + of_nat n"
    by simp_all
  have last: "(of_nat k :: u64) = of_nat n \<longleftrightarrow> k = n"
    using Suc.prems by (intro of_nat_u64_eq_iff) auto
  have "s + of_nat k \<noteq> d + of_nat n" if "k < n" using Suc.prems(1)[of k n] that by simp
  then show ?case unfolding copy_down.simps one IH by (auto simp: last less_Suc_eq)
qed

text \<open>
  Whatever the overlap, \<^verbatim>\<open>memmove\<close> copies as if all bytes were read before any is written,
  for ranges that do not wrap around the address space.
\<close>

lemma memmove_eq:
  assumes "unat dst + unat n < 2 ^ 64" "unat src + unat n < 2 ^ 64"
  shows "memmove dst src n m a =
    (if unat (a - dst) < unat n then m (src + (a - dst)) else m a)"
proof -
  obtain k where k: "a = dst + of_nat k" "k < 2 ^ 64" "unat (a - dst) = k"
    by (rule word_offset_cases)
  have at: "unat (p + of_nat i) = unat p + i" if "i < unat n" "unat p + unat n < 2 ^ 64" for i and p :: u64
    using that by (subst unat_add_no_wrap) (simp_all add: unat_of_nat_u64)
  have us: "unat (src + ucast n) = unat src + unat n"
    using assms(2) by (subst unat_add_no_wrap) simp_all
  have n64: "unat n < 2 ^ 64" using assms by simp
  show ?thesis
  proof (cases "n \<noteq> 0 \<and> src < dst \<and> src + ucast n > dst")
    case False
    have up: "copy_up dst src (unat n) m a = (if k < unat n then m (src + of_nat k) else m a)"
      if le: "unat dst \<le> unat src \<or> unat src + unat n \<le> unat dst"
      unfolding k(1)
    proof (rule copy_up_at)
      fix i j assume "j < i" "i < unat n"
      then have "unat (src + of_nat i) \<noteq> unat (dst + of_nat j)"
        using le at[of i src] at[of j dst] assms by auto
      then show "src + of_nat i \<noteq> dst + of_nat j" by auto
    qed (use n64 k in auto)
    from False have "unat n = 0 \<or> unat dst \<le> unat src \<or> unat src + unat n \<le> unat dst"
      by (auto simp: word_less_nat_alt us unat_eq_zero)
    with False up k show ?thesis by (auto simp: memmove_def)
  next
    case True
    then have lt: "unat src < unat dst" by (simp add: word_less_nat_alt)
    have "copy_down (dst + of_nat (unat n)) (src + of_nat (unat n)) (unat n) m a =
      (if k < unat n then m (src + of_nat k) else m a)"
      unfolding k(1)
    proof (rule copy_down_at)
      fix i j assume "i < j" "j < unat n"
      then have "unat (src + of_nat i) \<noteq> unat (dst + of_nat j)"
        using lt at[of i src] at[of j dst] assms by auto
      then show "src + of_nat i \<noteq> dst + of_nat j" by auto
    qed (use n64 k in auto)
    with True k show ?thesis by (simp add: memmove_def)
  qed
qed

section \<open>Strings\<close>

text \<open>The bytes before the first NUL among the first \<open>n\<close>.\<close>

primrec cstr_upto :: "cptr \<Rightarrow> nat \<Rightarrow> u8 list" where
  "cstr_upto t 0 = []"
| "cstr_upto t (Suc n) = (if t 0 = 0 then [] else t 0 # cstr_upto (\<lambda>i. t (Suc i)) n)"

definition lptr :: "u8 list \<Rightarrow> cptr" where
  "lptr bs = (\<lambda>i. if i < length bs then bs ! i else 0)"

lemma lptr_Cons [simp]: "lptr (b # bs) 0 = b" "(\<lambda>i. lptr (b # bs) (Suc i)) = lptr bs"
  by (auto simp: lptr_def)

lemma lptr_Nil [simp]: "lptr [] i = 0"
  by (simp add: lptr_def)

lemma length_cstr_upto: "length (cstr_upto t n) \<le> n"
  by (induction n arbitrary: t) auto

lemma cstr_upto_nonzero: "0 \<notin> set (cstr_upto t n)"
  by (induction n arbitrary: t) auto

lemma strncmp_eq_0_iff: "strncmp p q n = 0 \<longleftrightarrow> cstr_upto p n = cstr_upto q n"
proof (induction n arbitrary: p q)
  case 0
  then show ?case by simp
next
  case (Suc n)
  have "uint (p 0) - uint (q 0) = 0 \<longleftrightarrow> p 0 = q 0" by (simp add: word_uint_eq_iff)
  with Suc show ?case by auto
qed

lemma memcmp_eq_0_iff: "memcmp p q n = 0 \<longleftrightarrow> (\<forall>i<n. p i = q i)"
proof (induction n arbitrary: p q)
  case 0
  then show ?case by simp
next
  case (Suc n)
  have "uint (p 0) - uint (q 0) = 0 \<longleftrightarrow> p 0 = q 0" by (simp add: word_uint_eq_iff)
  with Suc show ?case by (auto simp: less_Suc_eq_0_disj)
qed

lemma strncpy_nat_eq:
  "strncpy_nat t n = cstr_upto t n @ replicate (n - length (cstr_upto t n)) 0"
  by (induction n arbitrary: t) auto

lemma length_strncpy [simp]: "length (strncpy t n) = nat n"
  using length_cstr_upto[of t "nat n"] by (simp add: strncpy_def strncpy_nat_eq)

lemma cstr_upto_lptr_append_zeros:
  "0 \<notin> set xs \<Longrightarrow> length xs \<le> n \<Longrightarrow> cstr_upto (lptr (xs @ replicate k 0)) n = xs"
proof (induction xs arbitrary: n)
  case Nil
  have "lptr (replicate k 0) 0 = 0" by (simp add: lptr_def)
  then show ?case by (cases n) auto
next
  case (Cons x xs)
  then show ?case by (cases n) auto
qed

text \<open>A name copied into a fixed array by \<^verbatim>\<open>strncpy\<close> compares equal to the name.\<close>

lemma strncmp_strncpy: "strncmp t (lptr (strncpy t (int n))) n = 0"
  by (simp add: strncmp_eq_0_iff strncpy_def strncpy_nat_eq cstr_upto_lptr_append_zeros
      cstr_upto_nonzero length_cstr_upto)

text \<open>\<^verbatim>\<open>safestrcpy\<close> stays inside its buffer and leaves a NUL-terminated, possibly cut, copy.\<close>

lemma safestrcpy_loop_eq:
  "\<exists>k\<le>1. safestrcpy_loop t n = cstr_upto t n @ replicate k 0 @ [0]
     \<and> length (safestrcpy_loop t n) \<le> Suc n"
proof (induction n arbitrary: t)
  case 0
  then show ?case by (intro exI[of _ 0]) simp
next
  case (Suc n)
  show ?case
  proof (cases "t 0 = 0")
    case True
    then show ?thesis by (intro exI[of _ 1]) simp
  next
    case False
    with Suc[of "\<lambda>i. t (Suc i)"] show ?thesis by auto
  qed
qed

lemma safestrcpy_spec:
  assumes "0 < n"
  shows "length (safestrcpy t n) \<le> nat n"
    and "cstr_upto (lptr (safestrcpy t n)) (nat n) = cstr_upto t (nat n - 1)"
    and "safestrcpy t n \<noteq> []" and "last (safestrcpy t n) = 0"
proof -
  obtain k where k: "safestrcpy_loop t (nat n - 1) = cstr_upto t (nat n - 1) @ replicate k 0 @ [0]"
    "length (safestrcpy_loop t (nat n - 1)) \<le> Suc (nat n - 1)"
    using safestrcpy_loop_eq[of t "nat n - 1"] by blast
  have z: "replicate k 0 @ [0] = replicate (Suc k) (0::u8)" by (simp add: replicate_append_same)
  have le: "length (cstr_upto t (nat n - 1)) \<le> nat n"
    using length_cstr_upto[of t "nat n - 1"] by linarith
  show "length (safestrcpy t n) \<le> nat n" using assms k(2) by (simp add: safestrcpy_def)
  show "cstr_upto (lptr (safestrcpy t n)) (nat n) = cstr_upto t (nat n - 1)"
    using assms k(1) le cstr_upto_nonzero by (simp only: safestrcpy_def z not_le if_False)
      (simp add: cstr_upto_lptr_append_zeros del: replicate_Suc)
  show "safestrcpy t n \<noteq> []" and "last (safestrcpy t n) = 0"
    using assms k(1) by (simp_all add: safestrcpy_def)
qed

text \<open>\<^verbatim>\<open>strlen\<close> returns the position of the first NUL.\<close>

lemma strlen_from_Some:
  assumes "s k = 0" "\<And>i. n \<le> i \<Longrightarrow> i < k \<Longrightarrow> s i \<noteq> 0" "n \<le> k"
  shows "strlen_from s n = Some k"
  using assms
proof (induction "k - n" arbitrary: n)
  case 0
  then show ?case by (simp add: strlen_from.simps)
next
  case (Suc d)
  then have "s n \<noteq> 0" by simp
  with Suc show ?case by (subst strlen_from.simps) simp
qed

lemma strlen_Some: "s k = 0 \<Longrightarrow> (\<And>i. i < k \<Longrightarrow> s i \<noteq> 0) \<Longrightarrow> strlen s = Some k"
  by (simp add: strlen_def strlen_from_Some)

lemma strlen_lptr: "0 \<notin> set xs \<Longrightarrow> strlen (lptr xs) = Some (length xs)"
  by (rule strlen_Some) (auto simp: lptr_def in_set_conv_nth)

end
