(* ===== verification/Kalloc.thy ===== *)
theory Kalloc
  imports Printf Kstring
begin

text \<open>
  The physical page allocator, \<^verbatim>\<open>kernel/kalloc.c\<close>: the free list threaded through the free
  pages, the counter of free pages and the per-page reference counts this kernel adds. The
  linker symbol \<^verbatim>\<open>end\<close> is the field \<open>kend\<close>. The lemmas show that the list in memory is a list
  of distinct page-aligned addresses of the counter's length, that \<^verbatim>\<open>kalloc\<close> and \<^verbatim>\<open>kfree\<close>
  refine the push and pop of such a list, that \<^verbatim>\<open>kinit\<close> establishes it, and what each
  operation does on its error paths. The locale \<open>page_allocator\<close> is what the clients of the
  allocator rely on.
\<close>

section \<open>State\<close>

record kmem_state =
  freelist :: u64
  free_pages_count :: int

record mem_machine = out_machine +
  mem :: memory
  kmem :: kmem_state
  ref_counts :: "int \<Rightarrow> int"
  kend :: u64

section \<open>Operations\<close>

definition get_ref_index :: "u64 \<Rightarrow> int" where
  "get_ref_index pa = sint (ucast (pa div PGSIZE) :: u32)"

definition kref_inc :: "u64 \<Rightarrow> ('z mem_machine_scheme, unit) kern" where
  "kref_inc pa =
     kthen (acquire Lref) (
     kthen (kmod (\<lambda>s. let i = get_ref_index pa in
              s\<lparr>ref_counts := (ref_counts s)(i := ref_counts s i + 1)\<rparr>))
           (release Lref))"

definition kref_dec :: "u64 \<Rightarrow> ('z mem_machine_scheme, int) kern" where
  "kref_dec pa =
     kthen (acquire Lref) (
     kthen (kmod (\<lambda>s. let i = get_ref_index pa in
              s\<lparr>ref_counts := (ref_counts s)(i := ref_counts s i - 1)\<rparr>)) (
     kbind (kget (\<lambda>s. ref_counts s (get_ref_index pa))) (\<lambda>current_count.
     kthen (release Lref) (kret current_count))))"

definition kfree :: "u64 \<Rightarrow> ('z mem_machine_scheme, unit) kern" where
  "kfree pa =
     kbind (kget kend) (\<lambda>kernel_end.
     if pa mod PGSIZE \<noteq> 0 \<or> pa < kernel_end \<or> PHYSTOP \<le> pa then kpanic ''kfree'' else
     kbind (kref_dec pa) (\<lambda>count.
     if 0 < count then kret () else
     kthen (kmod (\<lambda>s. s\<lparr>mem := memset pa 1 (ucast PGSIZE) (mem s)\<rparr>)) (
     kthen (acquire Lkmem) (
     kthen (kmod (\<lambda>s. s\<lparr>mem := store64 pa (freelist (kmem s)) (mem s)\<rparr>)) (
     kthen (kmod (\<lambda>s. s\<lparr>kmem := (kmem s)\<lparr>freelist := pa\<rparr>\<rparr>)) (
     kthen (kmod (\<lambda>s. s\<lparr>kmem := (kmem s)\<lparr>free_pages_count := free_pages_count (kmem s) + 1\<rparr>\<rparr>))
           (release Lkmem)))))))"

text \<open>The message of \<^verbatim>\<open>kalloc\<close>; the \<^verbatim>\<open>int\<close> argument is a 64-bit slot.\<close>

definition memory_fmt :: string where
  "memory_fmt = ''Available memory: %d pages'' @ [CHR 0x0A]"

definition kalloc :: "('z mem_machine_scheme, u64) kern" where
  "kalloc =
     kthen (acquire Lkmem) (
     kbind (kget (\<lambda>s. freelist (kmem s))) (\<lambda>r.
     kthen (kwhen (r \<noteq> 0) (
       kthen (kmod (\<lambda>s. s\<lparr>kmem := (kmem s)\<lparr>freelist := load64 (mem s) r\<rparr>\<rparr>))
             (kmod (\<lambda>s. s\<lparr>kmem := (kmem s)\<lparr>free_pages_count := free_pages_count (kmem s) - 1\<rparr>\<rparr>)))) (
     kthen (release Lkmem) (
     kthen (kwhen (r \<noteq> 0) (kmod (\<lambda>s. s\<lparr>mem := memset r 5 (ucast PGSIZE) (mem s)\<rparr>))) (
     kthen (acquire Lref) (
     kthen (kmod (\<lambda>s. s\<lparr>ref_counts := (ref_counts s)(get_ref_index r := 1)\<rparr>)) (
     kthen (release Lref) (
     kbind (kget (\<lambda>s. free_pages_count (kmem s))) (\<lambda>n.
     kthen (printf memory_fmt [VaI (of_int n)])
           (kret r))))))))))"

text \<open>
  The addresses the loop of \<^verbatim>\<open>freerange\<close> visits. Stepping a pointer past the end of the
  address space is undefined in C; the model ends the loop there.
\<close>

function range_pages :: "u64 \<Rightarrow> u64 \<Rightarrow> u64 list" where
  "range_pages p pa_end =
     (if p + PGSIZE \<le> pa_end \<and> p < p + PGSIZE then p # range_pages (p + PGSIZE) pa_end else [])"
  by pat_completeness auto
termination
  by (relation "measure (\<lambda>(p, e). unat e - unat p)")
    (auto simp: word_less_nat_alt word_le_nat_alt)

declare range_pages.simps [simp del]

definition freerange :: "u64 \<Rightarrow> u64 \<Rightarrow> ('z mem_machine_scheme, unit) kern" where
  "freerange pa_start pa_end =
     kfor (range_pages (PGROUNDUP pa_start) pa_end) (\<lambda>p.
       kthen (acquire Lref) (
       kthen (kmod (\<lambda>s. s\<lparr>ref_counts := (ref_counts s)(get_ref_index p := 1)\<rparr>)) (
       kthen (release Lref)
             (kfree p))))"

definition kinit :: "('z mem_machine_scheme, unit) kern" where
  "kinit =
     kthen (initlock Lkmem ''kmem'') (
     kthen (initlock Lref ''ref_lock'') (
     kthen (kmod (\<lambda>s. s\<lparr>kmem := (kmem s)\<lparr>free_pages_count := 0\<rparr>\<rparr>)) (
     kbind (kget kend) (\<lambda>kernel_end. freerange kernel_end PHYSTOP))))"

section \<open>Net effects\<close>

definition good_page :: "'z mem_machine_scheme \<Rightarrow> u64 \<Rightarrow> bool" where
  "good_page s pa \<longleftrightarrow> pa mod 4096 = 0 \<and> kend s \<le> pa \<and> pa < PHYSTOP"

definition ref_of :: "'z mem_machine_scheme \<Rightarrow> u64 \<Rightarrow> int" where
  "ref_of s pa = ref_counts s (get_ref_index pa)"

text \<open>Locks free and console usable: what a caller outside the allocator grants it.\<close>

definition alloc_ready :: "'z mem_machine_scheme \<Rightarrow> bool" where
  "alloc_ready s \<longleftrightarrow> hart_ok (hart s) \<and> lock_free Lkmem (hart s) \<and> lock_free Lref (hart s)
     \<and> lock_free Lpr (hart s) \<and> can_print s"

definition alloc_msg :: "int \<Rightarrow> string" where
  "alloc_msg n = printed memory_fmt [VaI (of_int n)]"

definition popped_kmem :: "memory \<Rightarrow> kmem_state \<Rightarrow> kmem_state" where
  "popped_kmem m k = (if freelist k = 0 then k else
     k\<lparr>freelist := load64 m (freelist k), free_pages_count := free_pages_count k - 1\<rparr>)"

definition after_kalloc :: "'z mem_machine_scheme \<Rightarrow> 'z mem_machine_scheme" where
  "after_kalloc s = s\<lparr>hart := scrub (hart s),
     con := outs (alloc_msg (free_pages_count (popped_kmem (mem s) (kmem s)))) (con s),
     mem := (if freelist (kmem s) = 0 then mem s else memset (freelist (kmem s)) 5 4096 (mem s)),
     kmem := popped_kmem (mem s) (kmem s),
     ref_counts := (ref_counts s)(get_ref_index (freelist (kmem s)) := 1)\<rparr>"

definition after_kfree :: "u64 \<Rightarrow> 'z mem_machine_scheme \<Rightarrow> 'z mem_machine_scheme" where
  "after_kfree pa s =
     (let s1 = s\<lparr>hart := scrub (hart s),
                  ref_counts := (ref_counts s)(get_ref_index pa := ref_of s pa - 1)\<rparr> in
      if 1 < ref_of s pa then s1
      else s1\<lparr>mem := store64 pa (freelist (kmem s)) (memset pa 1 4096 (mem s)),
              kmem := (kmem s)\<lparr>freelist := pa, free_pages_count := free_pages_count (kmem s) + 1\<rparr>\<rparr>)"

lemma kalloc_run:
  assumes "alloc_ready s"
  shows "kalloc s = Ok (freelist (kmem s)) (after_kalloc s)"
  using assms
  by (simp add: kalloc_def alloc_ready_def kbind_def kthen_def kret_def acquire_run release_run
      printf_run can_print_def after_kalloc_def popped_kmem_def alloc_msg_def PGSIZE_def)

lemma kref_dec_run:
  assumes "hart_ok (hart s)" "lock_free Lref (hart s)"
  shows "kref_dec pa s = Ok (ref_of s pa - 1)
    (s\<lparr>hart := scrub (hart s), ref_counts := (ref_counts s)(get_ref_index pa := ref_of s pa - 1)\<rparr>)"
  using assms
  by (simp add: kref_dec_def kbind_def kthen_def kret_def acquire_run release_run ref_of_def Let_def)

lemma kfree_run:
  assumes "hart_ok (hart s)" "lock_free Lref (hart s)" "lock_free Lkmem (hart s)" "good_page s pa"
  shows "kfree pa s = Ok () (after_kfree pa s)"
proof -
  have "\<not> (pa mod PGSIZE \<noteq> 0 \<or> pa < kend s \<or> PHYSTOP \<le> pa)"
    using assms(4) by (auto simp: good_page_def PGSIZE_def)
  then show ?thesis
    using assms(1-3)
    by (simp add: kfree_def kref_dec_run[OF assms(1,2)] kthen_def kbind_def kret_def acquire_run
        release_run after_kfree_def Let_def PGSIZE_def)
qed

lemma kfree_bad: "\<not> good_page s pa \<Longrightarrow> kfree pa s = Stop (Panic ''kfree'') s"
proof -
  assume "\<not> good_page s pa"
  then have "pa mod PGSIZE \<noteq> 0 \<or> pa < kend s \<or> PHYSTOP \<le> pa"
    unfolding good_page_def PGSIZE_def by (meson not_le)
  then show ?thesis by (simp add: kfree_def kbind_def kstop_def)
qed

section \<open>The free list in memory\<close>

fun free_list :: "memory \<Rightarrow> u64 \<Rightarrow> u64 list \<Rightarrow> bool" where
  "free_list m p [] \<longleftrightarrow> p = 0"
| "free_list m p (a # as) \<longleftrightarrow> p = a \<and> a \<noteq> 0 \<and> free_list m (load64 m a) as"

text \<open>
  The invariant of the allocator for a given content of the free list: the list in memory,
  distinct pages of the managed range, the counter, and no owner of a free page.
\<close>

definition kmem_inv :: "'z mem_machine_scheme \<Rightarrow> u64 list \<Rightarrow> bool" where
  "kmem_inv s fl \<longleftrightarrow>
     free_list (mem s) (freelist (kmem s)) fl \<and> distinct fl
     \<and> (\<forall>a\<in>set fl. good_page s a \<and> ref_of s a \<le> 0)
     \<and> free_pages_count (kmem s) = int (length fl)
     \<and> 0 < kend s"

lemma good_page_aligned: "good_page s a \<Longrightarrow> a mod 4096 = 0"
  by (simp add: good_page_def)

lemma get_ref_index_pgno:
  assumes "pa < PHYSTOP"
  shows "get_ref_index pa = int (pgno pa)"
proof -
  have "unat pa < 0x88000000" using assms by (simp add: PHYSTOP_val word_less_nat_alt)
  then have b: "unat pa div 4096 < 0x80000000" by simp
  then have "unat (ucast (pa div 4096) :: u32) = unat pa div 4096"
    by (simp add: unsigned_ucast_eq take_bit_eq_mod unat_div)
  then have "uint (ucast (pa div 4096) :: u32) = int (pgno pa)"
    by (simp only: uint_nat pgno_def)
  then show ?thesis
    using b by (simp add: get_ref_index_def PGSIZE_def sint_uint pgno_def signed_take_bit_int_eq_self)
qed

lemma ref_index_inj:
  assumes "good_page s a" "good_page s b"
  shows "get_ref_index a = get_ref_index b \<longleftrightarrow> a = b"
  using assms pgno_inj[OF assms[THEN good_page_aligned]]
  by (auto simp: good_page_def get_ref_index_pgno)

lemma page_neq: "a mod 4096 = 0 \<Longrightarrow> b mod 4096 = 0 \<Longrightarrow> a \<noteq> b \<Longrightarrow> pgno a \<noteq> pgno b"
  using pgno_inj by metis

lemma load64_page_cong:
  assumes "\<And>x. pgno x = pgno a \<Longrightarrow> m' x = m x" "a mod 4096 = 0"
  shows "load64 m' a = load64 m a"
  unfolding load64_def
  by (intro arg_cong[where f = le_word] mem_read_cong assms(1) pgno_add_offset[OF assms(2)])
     (simp add: unat_of_nat)

lemma store64_page:
  assumes "p mod 4096 = 0" "pgno x \<noteq> pgno p"
  shows "store64 p v m x = m x"
proof (rule store64_apply)
  have "\<not> x - p < 4096" using in_page_iff[OF assms(1)] assms(2) by blast
  then show "8 \<le> unat (x - p)" by (simp add: word_less_nat_alt)
qed

lemma free_list_cong:
  assumes "\<And>a x. a \<in> set fl \<Longrightarrow> pgno x = pgno a \<Longrightarrow> m' x = m x"
    and "\<forall>a\<in>set fl. a mod 4096 = 0"
  shows "free_list m' p fl = free_list m p fl"
  using assms
proof (induction fl arbitrary: p)
  case (Cons a fl)
  have "load64 m' a = load64 m a" using Cons.prems by (intro load64_page_cong) auto
  then show ?case using Cons by auto
qed simp

lemma free_list_head: "free_list m p fl \<Longrightarrow> (p = 0 \<longleftrightarrow> fl = []) \<and> (p \<noteq> 0 \<longrightarrow> p = hd fl)"
  by (cases fl) auto

text \<open>Pushing and popping the list in memory.\<close>

lemma free_list_push:
  assumes "free_list m p fl" "a mod 4096 = 0" "a \<noteq> 0" "a \<notin> set fl" "\<forall>b\<in>set fl. b mod 4096 = 0"
  shows "free_list (store64 a p (memset a 1 4096 m)) a (a # fl)"
proof -
  have "pgno b \<noteq> pgno a" if "b \<in> set fl" for b
    by (rule page_neq) (use assms that in auto)
  then have "free_list (store64 a p (memset a 1 4096 m)) p fl = free_list m p fl"
    using assms by (intro free_list_cong) (auto simp: store64_page memset_page)
  then show ?thesis using assms by simp
qed

lemma free_list_pop:
  assumes "free_list m p (a # fl)" "a mod 4096 = 0" "a \<notin> set fl" "\<forall>b\<in>set fl. b mod 4096 = 0"
  shows "free_list (memset a 5 4096 m) (load64 m a) fl"
proof -
  have "pgno b \<noteq> pgno a" if "b \<in> set fl" for b
    by (rule page_neq) (use assms that in auto)
  then have "free_list (memset a 5 4096 m) (load64 m a) fl = free_list m (load64 m a) fl"
    using assms by (intro free_list_cong) (auto simp: memset_page)
  then show ?thesis using assms by simp
qed

lemma kmem_inv_aligned: "kmem_inv s fl \<Longrightarrow> \<forall>b\<in>set fl. b mod 4096 = 0"
  by (auto simp: kmem_inv_def dest: good_page_aligned)

lemma good_page_after [simp]:
  "good_page (after_kalloc s) a = good_page s a" "good_page (after_kfree p s) a = good_page s a"
  by (simp_all add: good_page_def after_kalloc_def after_kfree_def Let_def)

lemma kend_after [simp]: "kend (after_kalloc s) = kend s" "kend (after_kfree p s) = kend s"
  by (simp_all add: after_kalloc_def after_kfree_def Let_def)

lemma good_page_nonzero: "good_page s a \<Longrightarrow> 0 < kend s \<Longrightarrow> a \<noteq> 0"
  by (auto simp: good_page_def)

lemma ref_of_after_kalloc:
  "ref_of (after_kalloc s) a =
     (if get_ref_index a = get_ref_index (freelist (kmem s)) then 1 else ref_of s a)"
  by (simp add: ref_of_def after_kalloc_def)

lemma ref_of_after_kfree:
  "ref_of (after_kfree p s) a = (if get_ref_index a = get_ref_index p then ref_of s p - 1 else ref_of s a)"
  by (simp add: ref_of_def after_kfree_def Let_def)

lemma count_after:
  "freelist (kmem s) \<noteq> 0 \<Longrightarrow>
     free_pages_count (kmem (after_kalloc s)) = free_pages_count (kmem s) - 1"
  "ref_of s a \<le> 1 \<Longrightarrow> free_pages_count (kmem (after_kfree a s)) = free_pages_count (kmem s) + 1"
  "1 < ref_of s a \<Longrightarrow> kmem (after_kfree a s) = kmem s"
  "1 < ref_of s a \<Longrightarrow> mem (after_kfree a s) = mem s"
  by (simp_all add: after_kalloc_def after_kfree_def popped_kmem_def Let_def)

lemma after_kalloc_inv:
  assumes "kmem_inv s (a # fl)"
  shows "kmem_inv (after_kalloc s) fl" "freelist (kmem s) = a" "ref_of (after_kalloc s) a = 1"
proof -
  show hd: "freelist (kmem s) = a" using assms by (simp add: kmem_inv_def)
  show "ref_of (after_kalloc s) a = 1" by (simp add: ref_of_after_kalloc hd)
  have nz: "a \<noteq> 0" and ga: "good_page s a" using assms by (auto simp: kmem_inv_def)
  have "free_list (mem (after_kalloc s)) (freelist (kmem (after_kalloc s))) fl"
    using free_list_pop[of "mem s" a a fl] assms kmem_inv_aligned[OF assms] nz hd
    by (simp add: after_kalloc_def popped_kmem_def kmem_inv_def)
  moreover have "ref_of (after_kalloc s) b \<le> 0" if "b \<in> set fl" for b
  proof -
    have "b \<noteq> a" "good_page s b" using assms that by (auto simp: kmem_inv_def)
    then show ?thesis
      using assms that ga hd by (auto simp: ref_of_after_kalloc ref_index_inj kmem_inv_def)
  qed
  ultimately show "kmem_inv (after_kalloc s) fl"
    using assms nz hd by (simp add: kmem_inv_def count_after)
qed

lemma after_kfree_inv:
  assumes "kmem_inv s fl" "good_page s a" "ref_of s a = 1"
  shows "kmem_inv (after_kfree a s) (a # fl)"
proof -
  have nz: "a \<noteq> 0" using assms good_page_nonzero by (auto simp: kmem_inv_def)
  have new: "a \<notin> set fl" using assms by (auto simp: kmem_inv_def)
  have "free_list (mem (after_kfree a s)) (freelist (kmem (after_kfree a s))) (a # fl)"
    using free_list_push[of "mem s" "freelist (kmem s)" fl a] assms kmem_inv_aligned[OF assms(1)] nz new
    by (simp add: after_kfree_def Let_def kmem_inv_def good_page_aligned)
  moreover have "ref_of (after_kfree a s) b \<le> 0" if "b \<in> set fl" for b
    using assms that new by (auto simp: ref_of_after_kfree ref_index_inj kmem_inv_def)
  ultimately show ?thesis
    using assms new by (simp add: kmem_inv_def count_after ref_of_after_kfree)
qed

text \<open>A page with another owner stays allocated.\<close>

lemma after_kfree_shared:
  assumes "kmem_inv s fl" "good_page s a" "1 < ref_of s a"
  shows "kmem_inv (after_kfree a s) fl" "mem (after_kfree a s) = mem s"
proof -
  have new: "a \<notin> set fl" using assms by (auto simp: kmem_inv_def)
  have "ref_of (after_kfree a s) b \<le> 0" if "b \<in> set fl" for b
    using assms that new by (auto simp: ref_of_after_kfree ref_index_inj kmem_inv_def)
  then show "kmem_inv (after_kfree a s) fl" "mem (after_kfree a s) = mem s"
    using assms by (simp_all add: kmem_inv_def count_after)
qed

lemma alloc_ready_after:
  "alloc_ready s \<Longrightarrow> alloc_ready (after_kalloc s)" "alloc_ready s \<Longrightarrow> alloc_ready (after_kfree a s)"
  by (simp_all add: alloc_ready_def after_kalloc_def after_kfree_def Let_def can_print_def)

section \<open>Initialisation\<close>

lemma next_page:
  assumes "(p::u64) mod 4096 = 0" "p \<le> e" "e \<le> PHYSTOP"
  shows "unat (p + 4096) = unat p + 4096" "(p + 4096) mod 4096 = 0"
    "(p + 4096 \<le> e \<and> p < p + 4096) \<longleftrightarrow> unat p + 4096 \<le> unat e"
proof -
  have "unat p \<le> 0x88000000" using assms(2,3) by (simp add: PHYSTOP_val word_le_nat_alt)
  then show n: "unat (p + 4096) = unat p + 4096" by (simp add: unat_word_ariths)
  then show "(p + 4096) mod 4096 = 0" using assms(1) by (simp add: aligned_unat)
  show "(p + 4096 \<le> e \<and> p < p + 4096) \<longleftrightarrow> unat p + 4096 \<le> unat e"
    by (simp add: word_le_nat_alt word_less_nat_alt n)
qed

lemma range_pages_props:
  assumes "p mod 4096 = 0" "p \<le> e" "e \<le> PHYSTOP"
  shows "(\<forall>a\<in>set (range_pages p e). a mod 4096 = 0 \<and> p \<le> a \<and> a < e) \<and> distinct (range_pages p e)
    \<and> length (range_pages p e) = (unat e - unat p) div 4096"
  using assms
proof (induction p e rule: range_pages.induct)
  case (1 p e)
  note np = next_page[OF "1.prems"]
  show ?case
  proof (cases "unat p + 4096 \<le> unat e")
    case True
    then have r: "range_pages p e = p # range_pages (p + 4096) e"
      using np by (subst range_pages.simps) (simp add: PGSIZE_def)
    have lt: "p < p + 4096" "p < e" using True np by (simp_all add: word_less_nat_alt)
    have ih: "(\<forall>a\<in>set (range_pages (p + 4096) e). a mod 4096 = 0 \<and> p + 4096 \<le> a \<and> a < e)
      \<and> distinct (range_pages (p + 4096) e)
      \<and> length (range_pages (p + 4096) e) = (unat e - unat (p + 4096)) div 4096"
      using "1.IH" True np "1.prems" by (simp add: PGSIZE_def)
    have "Suc ((unat e - (unat p + 4096)) div 4096) = (unat e - unat p) div 4096"
      using True by (simp add: le_div_geq)
    moreover have "p \<notin> set (range_pages (p + 4096) e)" using ih lt(1) by (meson not_le)
    moreover have "p \<le> a" if "p + 4096 \<le> a" for a using lt(1) that by (rule order.trans[OF less_imp_le])
    ultimately show ?thesis using ih r lt(2) "1.prems"(1) np(1) by simp
  next
    case False
    then have "range_pages p e = []"
      using np by (subst range_pages.simps) (simp add: PGSIZE_def)
    then show ?thesis using False "1.prems" by (simp add: word_le_nat_alt)
  qed
qed

text \<open>One round of the loop of \<^verbatim>\<open>freerange\<close> pushes its page.\<close>

definition free_ready :: "'z mem_machine_scheme \<Rightarrow> bool" where
  "free_ready s \<longleftrightarrow> hart_ok (hart s) \<and> lock_free Lkmem (hart s) \<and> lock_free Lref (hart s)"

lemma free_ready_after [simp]: "free_ready s \<Longrightarrow> free_ready (after_kfree a s)"
  by (simp add: free_ready_def after_kfree_def Let_def)

lemma freerange_step:
  assumes "free_ready s" "kmem_inv s fl" "good_page s p" "p \<notin> set fl" "kend s = e"
  shows "wp (kthen (acquire Lref) (
       kthen (kmod (\<lambda>s. s\<lparr>ref_counts := (ref_counts s)(get_ref_index p := 1)\<rparr>)) (
       kthen (release Lref) (kfree p))))
     (\<lambda>_ s'. free_ready s' \<and> kmem_inv s' (p # fl) \<and> kend s' = e) s"
proof -
  define t where "t = s\<lparr>ref_counts := (ref_counts s)(get_ref_index p := 1), hart := scrub (hart s)\<rparr>"
  have refs: "ref_of t b = (if b = p then 1 else ref_of s b)" if "good_page s b" for b
    using that assms(3) by (simp add: t_def ref_of_def ref_index_inj)
  have t: "free_ready t" "good_page t p" "ref_of t p = 1" "kend t = e"
    using assms refs[OF assms(3)] by (simp_all add: t_def free_ready_def good_page_def)
  have "kmem_inv t fl"
    using assms refs by (auto simp: kmem_inv_def t_def good_page_def)
  then have "kmem_inv (after_kfree p t) (p # fl)" using t by (intro after_kfree_inv)
  moreover have "kfree p t = Ok () (after_kfree p t)"
    using t by (intro kfree_run) (simp_all add: free_ready_def)
  ultimately have "wp (kfree p) (\<lambda>_ s'. free_ready s' \<and> kmem_inv s' (p # fl) \<and> kend s' = e) t"
    using t by (simp add: wp_run)
  then show ?thesis
    using assms(1) by (simp add: wp_eqs free_ready_def t_def)
qed

definition managed_pages :: "u64 \<Rightarrow> u64 list" where
  "managed_pages kernel_end = rev (range_pages (PGROUNDUP kernel_end) PHYSTOP)"

lemma PGROUNDUP_below:
  assumes "a \<le> PHYSTOP"
  shows "PGROUNDUP a \<le> PHYSTOP" "a \<le> PGROUNDUP a"
    "unat (PGROUNDUP a) = (unat a + 4095) div 4096 * 4096"
proof -
  have "unat a \<le> 0x88000000" using assms by (simp add: PHYSTOP_val word_le_nat_alt)
  then show "PGROUNDUP a \<le> PHYSTOP" "a \<le> PGROUNDUP a"
    "unat (PGROUNDUP a) = (unat a + 4095) div 4096 * 4096"
    by (simp_all add: word_le_nat_alt unat_PGROUNDUP PHYSTOP_val)
qed

lemma wp_freerange:
  assumes "free_ready s" "kmem_inv s []" "kend s \<le> PHYSTOP"
  shows "wp (freerange (kend s) PHYSTOP)
    (\<lambda>_ s'. free_ready s' \<and> kmem_inv s' (managed_pages (kend s)) \<and> kend s' = kend s) s"
  unfolding freerange_def
proof (rule wp_kfor_inv[where I = "\<lambda>ps t. free_ready t \<and> kmem_inv t (rev ps) \<and> kend t = kend s"])
  fix ps p t
  assume i: "free_ready t \<and> kmem_inv t (rev ps) \<and> kend t = kend s"
    and ex: "\<exists>rest. range_pages (PGROUNDUP (kend s)) PHYSTOP = ps @ p # rest"
  note rp = range_pages_props[OF PGROUNDUP_aligned PGROUNDUP_below(1)[OF assms(3)] order.refl]
  have "distinct (ps @ p # rest)" if "range_pages (PGROUNDUP (kend s)) PHYSTOP = ps @ p # rest" for rest
    using rp that by metis
  then have "p \<notin> set (rev ps)" using ex by auto
  moreover have "p \<in> set (range_pages (PGROUNDUP (kend s)) PHYSTOP)" using ex by auto
  then have "good_page t p"
    using rp i PGROUNDUP_below(2)[OF assms(3)] by (auto simp: good_page_def)
  ultimately show "wp (kthen (acquire Lref) (
       kthen (kmod (\<lambda>s. s\<lparr>ref_counts := (ref_counts s)(get_ref_index p := 1)\<rparr>)) (
       kthen (release Lref) (kfree p))))
     (\<lambda>_ t. free_ready t \<and> kmem_inv t (rev (ps @ [p])) \<and> kend t = kend s) t"
    using freerange_step[of t "rev ps" p "kend s"] i by simp
qed (use assms in \<open>simp_all add: managed_pages_def\<close>)

section \<open>The allocator as its clients see it\<close>

text \<open>
  The contract of a page allocator. \<open>pool\<close> is the list of pages it may hand out, \<open>owned\<close> a page
  with exactly one owner, \<open>bytes\<close> the content of memory.
\<close>

locale page_allocator =
  fixes alloc :: "('s, u64) kern"
    and free :: "u64 \<Rightarrow> ('s, unit) kern"
    and ready :: "'s \<Rightarrow> bool"
    and pool :: "'s \<Rightarrow> u64 list \<Rightarrow> bool"
    and owned :: "'s \<Rightarrow> u64 \<Rightarrow> bool"
    and bytes :: "'s \<Rightarrow> memory"
  assumes alloc_page: "ready s \<Longrightarrow> pool s (a # fl) \<Longrightarrow>
      wp alloc (\<lambda>r s'. r = a \<and> ready s' \<and> pool s' fl \<and> owned s' a
        \<and> (\<forall>b. owned s b \<longrightarrow> owned s' b) \<and> (\<forall>x. pgno x \<noteq> pgno a \<longrightarrow> bytes s' x = bytes s x)) s"
    and alloc_empty: "ready s \<Longrightarrow> pool s [] \<Longrightarrow>
      wp alloc (\<lambda>r s'. r = 0 \<and> ready s' \<and> pool s' [] \<and> (\<forall>b. owned s b \<longrightarrow> owned s' b)
        \<and> bytes s' = bytes s) s"
    and free_page: "ready s \<Longrightarrow> pool s fl \<Longrightarrow> owned s a \<Longrightarrow>
      wp (free a) (\<lambda>_ s'. ready s' \<and> pool s' (a # fl) \<and> (\<forall>b. owned s b \<and> b \<noteq> a \<longrightarrow> owned s' b)
        \<and> (\<forall>x. pgno x \<noteq> pgno a \<longrightarrow> bytes s' x = bytes s x)) s"
    and pool_not_owned: "pool s fl \<Longrightarrow> a \<in> set fl \<Longrightarrow> \<not> owned s a"
    and pool_null: "pool s fl \<Longrightarrow> 0 \<notin> set fl"
begin

text \<open>Taking \<open>n\<close> pages, as \<^verbatim>\<open>uvmalloc\<close> and \<^verbatim>\<open>proc_mapstacks\<close> do.\<close>

primrec take_pages :: "nat \<Rightarrow> ('s, u64 list) kern" where
  "take_pages 0 = kret []"
| "take_pages (Suc n) = kbind alloc (\<lambda>a. kbind (take_pages n) (\<lambda>as. kret (a # as)))"

lemma take_pages_ok:
  "ready s \<Longrightarrow> pool s fl \<Longrightarrow> n \<le> length fl \<Longrightarrow>
   wp (take_pages n) (\<lambda>as s'. as = take n fl \<and> ready s' \<and> pool s' (drop n fl)
     \<and> (\<forall>a\<in>set as. owned s' a) \<and> (\<forall>b. owned s b \<longrightarrow> owned s' b)) s"
proof (induction n arbitrary: s fl)
  case (Suc n)
  then obtain a gl where fl: "fl = a # gl" by (cases fl) auto
  show ?case
    unfolding take_pages.simps wp_kbind
    by (rule wp_mono[OF alloc_page[OF Suc.prems(1) Suc.prems(2)[unfolded fl]]])
      (use Suc in \<open>auto simp: fl intro: wp_mono[OF Suc.IH]\<close>)
qed simp

text \<open>Giving every taken page back restores the pool, last page first.\<close>

lemma free_all_ok:
  "ready s \<Longrightarrow> pool s fl \<Longrightarrow> \<forall>a\<in>set as. owned s a \<Longrightarrow> distinct as \<Longrightarrow>
   wp (kfor as free) (\<lambda>_ s'. ready s' \<and> pool s' (rev as @ fl)) s"
proof (induction "as" arbitrary: s fl)
  case (Cons a "as")
  show ?case
    unfolding kfor.simps wp_kthen
    by (rule wp_mono[OF free_page[OF Cons.prems(1,2)]])
      (use Cons.prems in \<open>auto intro!: Cons.IH\<close>)
qed simp

lemma take_then_free:
  assumes "ready s" "pool s fl" "distinct fl" "n \<le> length fl"
  shows "wp (kbind (take_pages n) (\<lambda>as. kfor as free))
    (\<lambda>_ s'. ready s' \<and> pool s' (rev (take n fl) @ drop n fl)) s"
  unfolding wp_kbind
  by (rule wp_mono[OF take_pages_ok[OF assms(1,2,4)]])
    (use assms in \<open>auto intro: free_all_ok\<close>)

lemma alloc_failure: "ready s \<Longrightarrow> pool s fl \<Longrightarrow> wp alloc (\<lambda>r s'. (r = 0) = (fl = [])) s"
  using alloc_page alloc_empty pool_null
  by (cases fl) (fastforce intro: wp_mono)+

end

definition owned_page :: "'z mem_machine_scheme \<Rightarrow> u64 \<Rightarrow> bool" where
  "owned_page s a \<longleftrightarrow> good_page s a \<and> ref_of s a = 1"

lemma ref_index_0:
  assumes "good_page s a" "0 < kend s"
  shows "get_ref_index a \<noteq> get_ref_index 0"
proof -
  have "pgno a \<noteq> pgno 0" by (rule page_neq) (use assms good_page_aligned good_page_nonzero in auto)
  then show ?thesis using assms(1) by (simp add: good_page_def get_ref_index_pgno PHYSTOP_val)
qed

lemma kmem_inv_empty:
  assumes "kmem_inv s []"
  shows "kmem_inv (after_kalloc s) []" "mem (after_kalloc s) = mem s"
  using assms by (simp_all add: kmem_inv_def after_kalloc_def popped_kmem_def)

lemma owned_after_kalloc:
  assumes "kmem_inv s fl" "owned_page s b"
  shows "owned_page (after_kalloc s) b"
  using assms ref_index_0[of s b] free_list_head[of "mem s" "freelist (kmem s)" fl]
  by (auto simp: owned_page_def ref_of_after_kalloc kmem_inv_def)

lemma mem_after_kalloc:
  assumes "kmem_inv s (a # fl)" "pgno x \<noteq> pgno a"
  shows "mem (after_kalloc s) x = mem s x"
proof -
  have "good_page s a" "freelist (kmem s) = a" using assms by (auto simp: kmem_inv_def)
  then show ?thesis using assms(2) by (simp add: after_kalloc_def memset_page good_page_aligned)
qed

lemma mem_after_kfree:
  assumes "good_page s a" "pgno x \<noteq> pgno a"
  shows "mem (after_kfree a s) x = mem s x"
  using assms by (simp add: after_kfree_def Let_def memset_page store64_page good_page_aligned)

interpretation phys: page_allocator kalloc kfree alloc_ready kmem_inv owned_page mem
proof
  fix s :: "'z mem_machine_scheme" and a fl
  assume s: "alloc_ready s" "kmem_inv s (a # fl)"
  note k = after_kalloc_inv[OF s(2)]
  have "good_page s a" using s(2) by (simp add: kmem_inv_def)
  then show "wp kalloc (\<lambda>r s'. r = a \<and> alloc_ready s' \<and> kmem_inv s' fl \<and> owned_page s' a
        \<and> (\<forall>b. owned_page s b \<longrightarrow> owned_page s' b)
        \<and> (\<forall>x. pgno x \<noteq> pgno a \<longrightarrow> mem s' x = mem s x)) s"
    using k s owned_after_kalloc[OF s(2)] mem_after_kalloc[OF s(2)]
    by (simp add: wp_run[OF kalloc_run] alloc_ready_after owned_page_def)
next
  fix s :: "'z mem_machine_scheme"
  assume s: "alloc_ready s" "kmem_inv s []"
  then have "freelist (kmem s) = 0" by (simp add: kmem_inv_def)
  then show "wp kalloc (\<lambda>r s'. r = 0 \<and> alloc_ready s' \<and> kmem_inv s' []
        \<and> (\<forall>b. owned_page s b \<longrightarrow> owned_page s' b) \<and> mem s' = mem s) s"
    using s kmem_inv_empty[OF s(2)] owned_after_kalloc[OF s(2)]
    by (simp add: wp_run[OF kalloc_run] alloc_ready_after)
next
  fix s :: "'z mem_machine_scheme" and fl a
  assume s: "alloc_ready s" "kmem_inv s fl" "owned_page s a"
  then have r: "kfree a s = Ok () (after_kfree a s)"
    by (intro kfree_run) (simp_all add: alloc_ready_def owned_page_def)
  have g: "good_page s a" "ref_of s a = 1" using s(3) by (simp_all add: owned_page_def)
  show "wp (kfree a) (\<lambda>_ s'. alloc_ready s' \<and> kmem_inv s' (a # fl)
        \<and> (\<forall>b. owned_page s b \<and> b \<noteq> a \<longrightarrow> owned_page s' b)
        \<and> (\<forall>x. pgno x \<noteq> pgno a \<longrightarrow> mem s' x = mem s x)) s"
    using s g after_kfree_inv[OF s(2) g] mem_after_kfree[OF g(1)]
    by (auto simp: wp_run[where m = "kfree a", OF r] alloc_ready_after owned_page_def ref_of_after_kfree ref_index_inj)
qed (auto simp: kmem_inv_def owned_page_def dest: good_page_nonzero)

section \<open>Properties\<close>

text \<open>
  C22: \<^verbatim>\<open>kalloc\<close> refines the pop of a list of free pages. On a non-empty list it returns the
  first page, filled with 5 and with one owner, takes it off the list and off the counter,
  leaves every other byte of memory alone, and reports the new counter on the console. All
  locks are free again.
\<close>

theorem kalloc_pops:
  assumes "alloc_ready s" "kmem_inv s (a # fl)"
  shows "\<exists>s'. kalloc s = Ok a s' \<and> kmem_inv s' fl \<and> ref_of s' a = 1 \<and> alloc_ready s'
    \<and> (\<forall>x. mem s' x = (if pgno x = pgno a then 5 else mem s x))
    \<and> uart_out (con s') = uart_out (con s) @ alloc_msg (int (length fl))"
proof -
  have a: "freelist (kmem s) = a" "a \<noteq> 0" "good_page s a" "free_pages_count (kmem s) = 1 + int (length fl)"
    using assms(2) by (auto simp: kmem_inv_def)
  then show ?thesis
    using kalloc_run[OF assms(1)] after_kalloc_inv[OF assms(2)] alloc_ready_after(1)[OF assms(1)]
    by (intro exI[of _ "after_kalloc s"])
      (simp add: after_kalloc_def popped_kmem_def memset_page good_page_aligned)
qed

text \<open>
  C35: with no free page \<^verbatim>\<open>kalloc\<close> returns the null pointer and leaves memory, list and counter as
  they were; it still sets the reference count of page 0, because the assignment is outside
  the guarded statement.
\<close>

theorem kalloc_exhausted:
  assumes "alloc_ready s" "kmem_inv s []"
  shows "\<exists>s'. kalloc s = Ok 0 s' \<and> kmem_inv s' [] \<and> mem s' = mem s \<and> ref_counts s' 0 = 1
    \<and> (\<forall>i. i \<noteq> 0 \<longrightarrow> ref_counts s' i = ref_counts s i)"
proof -
  have z: "freelist (kmem s) = 0" "get_ref_index 0 = 0"
    using assms(2) by (simp_all add: kmem_inv_def get_ref_index_def)
  then show ?thesis
    using kalloc_run[OF assms(1)] kmem_inv_empty[OF assms(2)]
    by (intro exI[of _ "after_kalloc s"]) (simp add: after_kalloc_def)
qed

text \<open>
  C23: \<^verbatim>\<open>kfree\<close> of a page with one owner refines the push on the free list: the page heads the
  list, the counter grows by one, the bytes of every other page are unchanged.
\<close>

theorem kfree_pushes:
  assumes "alloc_ready s" "kmem_inv s fl" "good_page s a" "ref_of s a = 1"
  shows "\<exists>s'. kfree a s = Ok () s' \<and> kmem_inv s' (a # fl) \<and> alloc_ready s'
    \<and> (\<forall>x. pgno x \<noteq> pgno a \<longrightarrow> mem s' x = mem s x) \<and> con s' = con s"
proof -
  have "kfree a s = Ok () (after_kfree a s)"
    using assms by (intro kfree_run) (simp_all add: alloc_ready_def)
  then show ?thesis
    using after_kfree_inv[OF assms(2-4)] mem_after_kfree[OF assms(3)] alloc_ready_after(2)[OF assms(1)]
    by (intro exI[of _ "after_kfree a s"]) (auto simp: after_kfree_def Let_def)
qed



text \<open>
  C24: \<^verbatim>\<open>kinit\<close> puts every whole page between the end of the kernel and the end of physical
  memory on the free list, once, and the counter then is the number of those pages.
\<close>

theorem kinit_establishes:
  assumes "hart_ok (hart s)" "freelist (kmem s) = 0" "0 < kend s" "kend s \<le> PHYSTOP"
  shows "wp kinit (\<lambda>_ s'. kmem_inv s' (managed_pages (kend s))
      \<and> free_pages_count (kmem s')
          = int ((unat PHYSTOP - (unat (kend s) + 4095) div 4096 * 4096) div 4096)) s"
proof -
  have len: "length (managed_pages (kend s))
      = (unat PHYSTOP - (unat (kend s) + 4095) div 4096 * 4096) div 4096"
    using range_pages_props[OF PGROUNDUP_aligned PGROUNDUP_below(1)[OF assms(4)] order.refl]
      PGROUNDUP_below(3)[OF assms(4)] by (simp add: managed_pages_def)
  define h where "h = (hart s)\<lparr>locks := (locks (hart s))(
      Lkmem := (locks (hart s) Lkmem)\<lparr>lock_name := ''kmem'', locked := False, lock_cpu := None\<rparr>,
      Lref := (locks (hart s) Lref)\<lparr>lock_name := ''ref_lock'', locked := False, lock_cpu := None\<rparr>)\<rparr>"
  define u where "u = s\<lparr>hart := h, kmem := (kmem s)\<lparr>free_pages_count := 0\<rparr>\<rparr>"
  have "wp kinit Q s = wp (freerange (kend u) PHYSTOP) Q u" for Q
    by (simp add: kinit_def initlock_def set_lock_def Let_def u_def h_def)
  moreover have u: "free_ready u" "kmem_inv u []" "kend u = kend s"
    using assms by (simp_all add: u_def h_def free_ready_def kmem_inv_def hart_defs)
  have "wp (freerange (kend u) PHYSTOP)
      (\<lambda>_ s'. free_ready s' \<and> kmem_inv s' (managed_pages (kend u)) \<and> kend s' = kend u) u"
    by (rule wp_freerange) (use u assms in simp_all)
  ultimately show ?thesis
    unfolding len[symmetric] by (auto simp: u(3) kmem_inv_def elim!: wp_mono)
qed

section \<open>Witnesses\<close>

text \<open>A machine with one page above the kernel: free, allocated once, or shared.\<close>

definition one_page :: "u64 \<Rightarrow> int \<Rightarrow> int \<Rightarrow> mem_machine" where
  "one_page fl n rc = \<lparr>hart = hart0, con = con0, mem = (\<lambda>_. 0),
     kmem = \<lparr>freelist = fl, free_pages_count = n\<rparr>, ref_counts = (\<lambda>i. if i = 0x87FFF then rc else 0),
     kend = 0x87FFF000\<rparr>"

lemma le_word_zeros: "\<forall>b\<in>set bs. b = 0 \<Longrightarrow> le_word bs = 0"
  by (induction bs) auto

lemma load64_zero [simp]: "load64 (\<lambda>_. 0) a = 0"
  by (simp add: load64_def mem_read_def le_word_zeros)

lemma one_page_simps:
  "alloc_ready (one_page fl n rc)" "good_page (one_page fl n rc) 0x87FFF000"
  "ref_of (one_page fl n rc) 0x87FFF000 = rc" "kend (one_page fl n rc) = 0x87FFF000"
  "kmem_inv (one_page 0x87FFF000 1 0) [0x87FFF000]" "kmem_inv (one_page 0 0 rc) []"
  by (simp_all add: one_page_def alloc_ready_def can_print_def con0_def good_page_def PHYSTOP_val
      ref_of_def get_ref_index_pgno pgno_def kmem_inv_def)

theorem kalloc_pops_witness: "\<exists>s'. kalloc (one_page 0x87FFF000 1 0) = Ok 0x87FFF000 s' \<and> kmem_inv s' []"
  using kalloc_pops[OF one_page_simps(1,5)] by blast

theorem kalloc_exhausted_witness: "\<exists>s'. kalloc (one_page 0 0 0) = Ok 0 s' \<and> ref_counts s' 0 = 1"
  using kalloc_exhausted[OF one_page_simps(1,6)] by blast

theorem kfree_pushes_witness:
  "\<exists>s'. kfree 0x87FFF000 (one_page 0 0 1) = Ok () s' \<and> kmem_inv s' [0x87FFF000]"
  using kfree_pushes[OF one_page_simps(1,6,2,3)] by blast



theorem kinit_establishes_witness:
  "wp kinit (\<lambda>_ s'. free_pages_count (kmem s') = 1) (one_page 0 0 0)"
  by (rule wp_mono[OF kinit_establishes])
    (simp_all add: one_page_simps, simp_all add: one_page_def PHYSTOP_val)

end
