(* ===== verification/Pagetable.thy ===== *)
theory Pagetable
  imports Kalloc
begin

text \<open>
  Sv39 page tables: the part of \<^verbatim>\<open>kernel/vm.c\<close> that builds, walks and frees them. A page
  table is a page of 512 64-bit entries in memory; a pointer to an entry is its address, and
  the null pointer is 0. The three levels are those of the hardware, so \<open>walk\<close> recurses on the
  level and \<open>freewalk\<close> takes the number of levels below it.
\<close>

section \<open>Entries\<close>

definition PTE_V :: u64 where "PTE_V = 1"
definition PTE_R :: u64 where "PTE_R = 2"
definition PTE_W :: u64 where "PTE_W = 4"
definition PTE_X :: u64 where "PTE_X = 8"
definition PTE_U :: u64 where "PTE_U = 16"

lemmas pte_bits = PTE_V_def PTE_R_def PTE_W_def PTE_X_def PTE_U_def

definition PA2PTE :: "u64 \<Rightarrow> u64" where "PA2PTE pa = push_bit 10 (drop_bit 12 pa)"
definition PTE2PA :: "u64 \<Rightarrow> u64" where "PTE2PA pte = push_bit 12 (drop_bit 10 pte)"
definition PTE_FLAGS :: "u64 \<Rightarrow> u64" where "PTE_FLAGS pte = pte AND 0x3FF"

definition PX :: "nat \<Rightarrow> u64 \<Rightarrow> u64" where
  "PX level va = drop_bit (PGSHIFT + 9 * level) va AND 0x1FF"

definition pte_addr :: "u64 \<Rightarrow> nat \<Rightarrow> u64 \<Rightarrow> u64" where
  "pte_addr pagetable level va = pagetable + 8 * PX level va"

section \<open>Operations\<close>

text \<open>A load and a store of a 64-bit word, and the fill of a page.\<close>

definition kload :: "u64 \<Rightarrow> ('z mem_machine_scheme, u64) kern" where
  "kload a = kget (\<lambda>s. load64 (mem s) a)"

definition kstore :: "u64 \<Rightarrow> u64 \<Rightarrow> ('z mem_machine_scheme, unit) kern" where
  "kstore a v = kmod (\<lambda>s. s\<lparr>mem := store64 a v (mem s)\<rparr>)"

definition zero_page :: "u64 \<Rightarrow> ('z mem_machine_scheme, unit) kern" where
  "zero_page pa = kmod (\<lambda>s. s\<lparr>mem := memset pa 0 (ucast PGSIZE) (mem s)\<rparr>)"

primrec walk_from :: "nat \<Rightarrow> u64 \<Rightarrow> u64 \<Rightarrow> bool \<Rightarrow> ('z mem_machine_scheme, u64) kern" where
  "walk_from 0 pagetable va alloc = kret (pte_addr pagetable 0 va)"
| "walk_from (Suc l) pagetable va alloc =
     (let pte = pte_addr pagetable (Suc l) va in
      kbind (kload pte) (\<lambda>v.
      if v AND PTE_V \<noteq> 0 then walk_from l (PTE2PA v) va alloc
      else if \<not> alloc then kret 0
      else
      kbind kalloc (\<lambda>pg.
      if pg = 0 then kret 0
      else
      kthen (zero_page pg) (
      kthen (kstore pte (PA2PTE pg OR PTE_V))
            (walk_from l pg va alloc)))))"

definition walk :: "u64 \<Rightarrow> u64 \<Rightarrow> bool \<Rightarrow> ('z mem_machine_scheme, u64) kern" where
  "walk pagetable va alloc =
     (if MAXVA \<le> va then kpanic ''walk'' else walk_from 2 pagetable va alloc)"

definition walkaddr :: "u64 \<Rightarrow> u64 \<Rightarrow> ('z mem_machine_scheme, u64) kern" where
  "walkaddr pagetable va =
     (if MAXVA \<le> va then kret 0 else
      kbind (walk pagetable va False) (\<lambda>pte.
      if pte = 0 then kret 0 else
      kbind (kload pte) (\<lambda>v.
      if v AND PTE_V = 0 then kret 0
      else if v AND PTE_U = 0 then kret 0
      else kret (PTE2PA v))))"

definition ismapped :: "u64 \<Rightarrow> u64 \<Rightarrow> ('z mem_machine_scheme, bool) kern" where
  "ismapped pagetable va =
     kbind (walk pagetable va False) (\<lambda>pte.
     if pte = 0 then kret False else
     kbind (kload pte) (\<lambda>v. kret (v AND PTE_V \<noteq> 0)))"

text \<open>
  The loop of \<^verbatim>\<open>mappages\<close>: for an aligned non-zero size it reaches \<^verbatim>\<open>a == last\<close> in round
  \<^verbatim>\<open>size/PGSIZE\<close>, the number of rounds \<open>n\<close>.
\<close>

primrec mappages_loop :: "nat \<Rightarrow> u64 \<Rightarrow> u64 \<Rightarrow> u64 \<Rightarrow> u64 \<Rightarrow> ('z mem_machine_scheme, int) kern" where
  "mappages_loop 0 pagetable a pa perm = kret 0"
| "mappages_loop (Suc n) pagetable a pa perm =
     kbind (walk pagetable a True) (\<lambda>pte.
     if pte = 0 then kret (- 1) else
     kbind (kload pte) (\<lambda>v.
     if v AND PTE_V \<noteq> 0 then kpanic ''mappages: remap'' else
     kthen (kstore pte (PA2PTE pa OR perm OR PTE_V))
           (mappages_loop n pagetable (a + PGSIZE) (pa + PGSIZE) perm)))"

definition mappages :: "u64 \<Rightarrow> u64 \<Rightarrow> u64 \<Rightarrow> u64 \<Rightarrow> u64 \<Rightarrow> ('z mem_machine_scheme, int) kern" where
  "mappages pagetable va sz pa perm =
     (if va mod PGSIZE \<noteq> 0 then kpanic ''mappages: va not aligned''
      else if sz mod PGSIZE \<noteq> 0 then kpanic ''mappages: size not aligned''
      else if sz = 0 then kpanic ''mappages: size''
      else mappages_loop (unat (sz div PGSIZE)) pagetable va pa perm)"

definition uvmcreate :: "('z mem_machine_scheme, u64) kern" where
  "uvmcreate =
     kbind kalloc (\<lambda>pagetable.
     if pagetable = 0 then kret 0 else
     kthen (zero_page pagetable) (kret pagetable))"

text \<open>
  The page addresses from \<open>a\<close> up to a bound. A loop that steps past the end of the address
  space has left the range of \<^verbatim>\<open>walk\<close> long before; the model ends it there.
\<close>

function pages_below :: "u64 \<Rightarrow> u64 \<Rightarrow> u64 list" where
  "pages_below a e = (if a < e \<and> a < a + PGSIZE then a # pages_below (a + PGSIZE) e else [])"
  by pat_completeness auto
termination
  by (relation "measure (\<lambda>(a, e). unat e - unat a)") (auto simp: word_less_nat_alt)

declare pages_below.simps [simp del]

definition unmap_page :: "u64 \<Rightarrow> bool \<Rightarrow> u64 \<Rightarrow> ('z mem_machine_scheme, unit) kern" where
  "unmap_page pagetable do_free a =
     kbind (walk pagetable a False) (\<lambda>pte.
     if pte = 0 then kret () else
     kbind (kload pte) (\<lambda>v.
     if v AND PTE_V = 0 then kret () else
     kthen (kwhen do_free (kfree (PTE2PA v)))
           (kstore pte 0)))"

definition uvmunmap :: "u64 \<Rightarrow> u64 \<Rightarrow> u64 \<Rightarrow> bool \<Rightarrow> ('z mem_machine_scheme, unit) kern" where
  "uvmunmap pagetable va npages do_free =
     (if va mod PGSIZE \<noteq> 0 then kpanic ''uvmunmap: not aligned''
      else kfor (pages_below va (va + npages * PGSIZE)) (unmap_page pagetable do_free))"

text \<open>The page count is an \<^verbatim>\<open>int\<close> that is widened again for the call.\<close>

definition uvmdealloc :: "u64 \<Rightarrow> u64 \<Rightarrow> u64 \<Rightarrow> ('z mem_machine_scheme, u64) kern" where
  "uvmdealloc pagetable oldsz newsz =
     (if oldsz \<le> newsz then kret oldsz
      else
      kthen (kwhen (PGROUNDUP newsz < PGROUNDUP oldsz) (
              let npages = ucast ((PGROUNDUP oldsz - PGROUNDUP newsz) div PGSIZE) :: u32 in
              uvmunmap pagetable (PGROUNDUP newsz) (scast npages) True))
            (kret newsz))"

primrec uvmalloc_loop ::
  "u64 list \<Rightarrow> u64 \<Rightarrow> u64 \<Rightarrow> u64 \<Rightarrow> u64 \<Rightarrow> ('z mem_machine_scheme, u64) kern" where
  "uvmalloc_loop [] pagetable oldsz newsz xperm = kret newsz"
| "uvmalloc_loop (a # as) pagetable oldsz newsz xperm =
     kbind kalloc (\<lambda>pg.
     if pg = 0 then kthen (uvmdealloc pagetable a oldsz) (kret 0) else
     kthen (zero_page pg) (
     kbind (mappages pagetable a PGSIZE pg (PTE_R OR PTE_U OR xperm)) (\<lambda>r.
     if r \<noteq> 0 then kthen (kfree pg) (kthen (uvmdealloc pagetable a oldsz) (kret 0))
     else uvmalloc_loop as pagetable oldsz newsz xperm)))"

definition uvmalloc :: "u64 \<Rightarrow> u64 \<Rightarrow> u64 \<Rightarrow> u64 \<Rightarrow> ('z mem_machine_scheme, u64) kern" where
  "uvmalloc pagetable oldsz newsz xperm =
     (if newsz < oldsz then kret oldsz
      else uvmalloc_loop (pages_below (PGROUNDUP oldsz) newsz) pagetable (PGROUNDUP oldsz) newsz xperm)"

text \<open>
  \<open>freewalk d\<close> frees a table with at most \<open>d\<close> levels; the hardware has three. A chain of tables
  longer than that would make the C function recurse further.
\<close>

primrec freewalk :: "nat \<Rightarrow> u64 \<Rightarrow> ('z mem_machine_scheme, unit) kern" where
  "freewalk 0 pagetable = kstop Frozen"
| "freewalk (Suc d) pagetable =
     kthen (kfor [0..<512] (\<lambda>i.
       let a = pagetable + 8 * of_nat i in
       kbind (kload a) (\<lambda>pte.
       if pte AND PTE_V \<noteq> 0 \<and> pte AND (PTE_R OR PTE_W OR PTE_X) = 0
       then kthen (freewalk d (PTE2PA pte)) (kstore a 0)
       else if pte AND PTE_V \<noteq> 0 then kpanic ''freewalk: leaf''
       else kret ())))
     (kfree pagetable)"

definition uvmfree :: "u64 \<Rightarrow> u64 \<Rightarrow> ('z mem_machine_scheme, unit) kern" where
  "uvmfree pagetable sz =
     kthen (kwhen (0 < sz) (uvmunmap pagetable 0 (PGROUNDUP sz div PGSIZE) True))
           (freewalk 3 pagetable)"

primrec uvmcopy_loop :: "u64 list \<Rightarrow> u64 \<Rightarrow> u64 \<Rightarrow> ('z mem_machine_scheme, int) kern" where
  "uvmcopy_loop [] old new = kret 0"
| "uvmcopy_loop (i # is) old new =
     kbind (walk old i False) (\<lambda>pte.
     if pte = 0 then uvmcopy_loop is old new else
     kbind (kload pte) (\<lambda>v.
     if v AND PTE_V = 0 then uvmcopy_loop is old new else
     kbind kalloc (\<lambda>pg.
     if pg = 0 then kthen (uvmunmap new 0 (i div PGSIZE) True) (kret (- 1)) else
     kthen (kmod (\<lambda>s. s\<lparr>mem := memmove pg (PTE2PA v) (ucast PGSIZE) (mem s)\<rparr>)) (
     kbind (mappages new i PGSIZE pg (PTE_FLAGS v)) (\<lambda>r.
     if r \<noteq> 0 then kthen (kfree pg) (kthen (uvmunmap new 0 (i div PGSIZE) True) (kret (- 1)))
     else uvmcopy_loop is old new)))))"

definition uvmcopy :: "u64 \<Rightarrow> u64 \<Rightarrow> u64 \<Rightarrow> ('z mem_machine_scheme, int) kern" where
  "uvmcopy old new sz = uvmcopy_loop (pages_below 0 sz) old new"

definition uvmclear :: "u64 \<Rightarrow> u64 \<Rightarrow> ('z mem_machine_scheme, unit) kern" where
  "uvmclear pagetable va =
     kbind (walk pagetable va False) (\<lambda>pte.
     if pte = 0 then kpanic ''uvmclear'' else
     kbind (kload pte) (\<lambda>v. kstore pte (v AND NOT PTE_U)))"

definition kvmmap :: "u64 \<Rightarrow> u64 \<Rightarrow> u64 \<Rightarrow> u64 \<Rightarrow> u64 \<Rightarrow> ('z mem_machine_scheme, unit) kern" where
  "kvmmap kpgtbl va pa sz perm =
     kbind (mappages kpgtbl va sz pa perm) (\<lambda>r. if r \<noteq> 0 then kpanic ''kvmmap'' else kret ())"

section \<open>Bits of entries and addresses\<close>

lemma aligned_bit: "(pa::u64) mod 4096 = 0 \<longleftrightarrow> (\<forall>n<12. \<not> bit pa n)"
proof -
  have "pa mod 4096 = take_bit 12 pa" by (simp add: take_bit_eq_mod)
  then show ?thesis by (auto simp: bit_eq_iff bit_simps)
qed

lemma bit_above:
  assumes "unat (w::u64) < 2 ^ k" "k \<le> n"
  shows "\<not> bit w n"
proof -
  have "bit w n = bit (unat w) n" by (auto simp: bit_simps dest: bit_imp_le_length)
  also have "take_bit k (unat w) = unat w" using assms(1) by (simp add: take_bit_nat_eq_self)
  then have "bit (unat w) n = (n < k \<and> bit (unat w) n)" by (metis bit_take_bit_iff)
  finally show ?thesis using assms(2) by simp
qed

lemma flags_bit: "(f::u64) < 1024 \<Longrightarrow> 10 \<le> n \<Longrightarrow> \<not> bit f n"
  using bit_above[of f 10 n] by (simp add: word_less_nat_alt)

lemma PTE2PA_PA2PTE [simp]:
  assumes "pa mod 4096 = 0" "f < 1024"
  shows "PTE2PA (PA2PTE pa OR f) = pa"
proof (rule bit_word_eqI)
  fix n assume "n < LENGTH(64)"
  then show "bit (PTE2PA (PA2PTE pa OR f)) n = bit pa n"
    using assms
    by (cases "n < 12") (auto simp: PTE2PA_def PA2PTE_def aligned_bit flags_bit bit_simps)
qed

lemma PTE2PA_aligned [simp]: "PTE2PA v mod 4096 = 0"
  by (simp add: aligned_bit PTE2PA_def bit_simps)

lemma pte_valid_bit: "v AND PTE_V \<noteq> 0 \<longleftrightarrow> bit v 0"
  by (simp add: PTE_V_def and_one_eq bit_0 odd_iff_mod_2_eq_one)

lemma pte_invalid_bit: "v AND PTE_V = 0 \<longleftrightarrow> \<not> bit v 0"
  using pte_valid_bit by blast

lemma PTE_V_set [simp]: "bit (x OR PTE_V) 0" "bit (PTE_V OR x) 0"
  by (simp_all add: PTE_V_def bit_simps)

lemma PX_less: "unat (PX l va) < 512"
proof -
  have "PX l va = take_bit 9 (drop_bit (PGSHIFT + 9 * l) va)"
    by (simp add: PX_def take_bit_eq_mask mask_eq_exp_minus_1)
  then show ?thesis by (simp add: take_bit_eq_mod unat_mod)
qed

lemma unat_8_PX: "unat (8 * PX l va) = 8 * unat (PX l va)"
  using PX_less[of l va] by (simp add: unat_word_ariths)

lemma pte_addr_page:
  "pt mod 4096 = 0 \<Longrightarrow> pgno (pte_addr pt l va) = pgno pt"
  unfolding pte_addr_def using PX_less[of l va] by (intro pgno_add_offset) (simp_all add: unat_8_PX)

lemma pte_addr_inj:
  assumes "pt mod 4096 = 0" "pt' mod 4096 = 0" "pte_addr pt l va = pte_addr pt' l' va'"
  shows "pt = pt' \<and> PX l va = PX l' va'"
proof -
  have "pt = pt'"
    using pgno_inj[OF assms(1,2)] assms(3) pte_addr_page[OF assms(1)] pte_addr_page[OF assms(2)] by metis
  moreover from this have "unat (8 * PX l va) = unat (8 * PX l' va')"
    using assms(3) by (simp add: pte_addr_def)
  ultimately show ?thesis by (simp add: unat_8_PX word_unat_eq_iff)
qed

lemma pte_addr_aligned:
  assumes "pt mod 4096 = 0"
  shows "pte_addr pt l va mod 8 = 0"
proof -
  have "unat (pte_addr pt l va) = unat pt + 8 * unat (PX l va)"
    unfolding pte_addr_def using assms PX_less[of l va]
    by (subst unat_add_offset) (simp_all add: unat_8_PX)
  moreover have "unat pt mod 4096 mod 8 = unat pt mod 8" by (rule mod_mod_cancel) simp
  then have "unat pt mod 8 = 0" using assms by (simp add: aligned_unat)
  ultimately have "unat (pte_addr pt l va) mod 8 = 0" by simp
  then show ?thesis by (simp add: word_unat_eq_iff unat_mod)
qed

text \<open>Two page addresses below \<open>MAXVA\<close> with the same three indices are the same page.\<close>

lemma bit_PX: "bit (PX l va) n \<longleftrightarrow> n < 9 \<and> bit va (12 + 9 * l + n)"
proof -
  have "PX l va = take_bit 9 (drop_bit (12 + 9 * l) va)"
    by (simp add: PX_def PGSHIFT_def take_bit_eq_mask mask_eq_exp_minus_1)
  then show ?thesis by (simp add: bit_simps)
qed

lemma PX_vpn:
  assumes "va < MAXVA" "vb < MAXVA" "\<And>l. l \<le> 2 \<Longrightarrow> PX l va = PX l vb"
  shows "pgno va = pgno vb"
proof -
  have lt: "unat va < 2 ^ 38" "unat vb < 2 ^ 38" using assms(1,2) by (simp_all add: MAXVA_val word_less_nat_alt)
  have "drop_bit 12 va = drop_bit 12 vb"
  proof (rule bit_word_eqI)
    fix n
    show "bit (drop_bit 12 va) n = bit (drop_bit 12 vb) n"
    proof (cases "n < 27")
      case True
      then have "PX (n div 9) va = PX (n div 9) vb" using assms(3) by simp
      then have "bit va (12 + 9 * (n div 9) + n mod 9) = bit vb (12 + 9 * (n div 9) + n mod 9)"
        by (metis bit_PX mod_less_divisor zero_less_numeral)
      then show ?thesis by (simp add: bit_drop_bit_eq add.assoc)
    next
      case False
      then show ?thesis using bit_above[OF lt(1), of "12 + n"] bit_above[OF lt(2), of "12 + n"]
        by (simp add: bit_drop_bit_eq)
    qed
  qed
  then have "unat (drop_bit 12 va) = unat (drop_bit 12 vb)" by simp
  then show ?thesis by (simp add: pgno_def drop_bit_eq_div unat_div)
qed

section \<open>What a table maps\<close>

text \<open>
  The entry a table of \<open>l + 1\<close> levels holds for an address, and where it is stored. These are the
  abstract view the operations are specified against.
\<close>

primrec look :: "memory \<Rightarrow> nat \<Rightarrow> u64 \<Rightarrow> u64 \<Rightarrow> u64 option" where
  "look m 0 pt va = (let v = load64 m (pte_addr pt 0 va) in if bit v 0 then Some v else None)"
| "look m (Suc l) pt va =
     (let v = load64 m (pte_addr pt (Suc l) va) in if bit v 0 then look m l (PTE2PA v) va else None)"

primrec pte_of :: "memory \<Rightarrow> nat \<Rightarrow> u64 \<Rightarrow> u64 \<Rightarrow> u64 option" where
  "pte_of m 0 pt va = Some (pte_addr pt 0 va)"
| "pte_of m (Suc l) pt va =
     (let v = load64 m (pte_addr pt (Suc l) va) in if bit v 0 then pte_of m l (PTE2PA v) va else None)"

abbreviation lookup :: "memory \<Rightarrow> u64 \<Rightarrow> u64 \<Rightarrow> u64 option" where
  "lookup m root va \<equiv> look m 2 root va"

lemma look_pte_of:
  "look m l pt va = (case pte_of m l pt va of None \<Rightarrow> None
     | Some a \<Rightarrow> let v = load64 m a in if bit v 0 then Some v else None)"
  by (induction l arbitrary: pt) (simp_all add: Let_def)

text \<open>
  A well-formed table: a set of page-table pages with their levels, such that every valid entry
  of an inner page leads to a page of the next level and no two entries lead to the same page.
\<close>

definition pt_wf :: "memory \<Rightarrow> (u64 \<Rightarrow> nat) \<Rightarrow> u64 set \<Rightarrow> u64 \<Rightarrow> bool" where
  "pt_wf m lev T root \<longleftrightarrow>
     root \<in> T \<and> lev root = 2
     \<and> (\<forall>p\<in>T. p mod 4096 = 0 \<and> p \<noteq> 0)
     \<and> (\<forall>p\<in>T. \<forall>l va. lev p = Suc l \<longrightarrow> bit (load64 m (pte_addr p (Suc l) va)) 0 \<longrightarrow>
          PTE2PA (load64 m (pte_addr p (Suc l) va)) \<in> T
          \<and> lev (PTE2PA (load64 m (pte_addr p (Suc l) va))) = l)
     \<and> (\<forall>p\<in>T. \<forall>q\<in>T. \<forall>l va vb. lev p = Suc l \<longrightarrow> lev q = Suc l \<longrightarrow>
          bit (load64 m (pte_addr p (Suc l) va)) 0 \<longrightarrow> bit (load64 m (pte_addr q (Suc l) vb)) 0 \<longrightarrow>
          PTE2PA (load64 m (pte_addr p (Suc l) va)) = PTE2PA (load64 m (pte_addr q (Suc l) vb)) \<longrightarrow>
          p = q \<and> PX (Suc l) va = PX (Suc l) vb)"

lemma pt_wf_root: "pt_wf m lev T root \<Longrightarrow> root \<in> T \<and> lev root = 2"
  by (simp add: pt_wf_def)

lemma pt_wf_page: "pt_wf m lev T root \<Longrightarrow> p \<in> T \<Longrightarrow> p mod 4096 = 0 \<and> p \<noteq> 0"
  by (simp add: pt_wf_def)

lemma pt_wf_child:
  "pt_wf m lev T root \<Longrightarrow> p \<in> T \<Longrightarrow> lev p = Suc l \<Longrightarrow> v = load64 m (pte_addr p (Suc l) va) \<Longrightarrow> bit v 0 \<Longrightarrow>
   PTE2PA v \<in> T \<and> lev (PTE2PA v) = l"
  by (simp add: pt_wf_def)

lemma pt_wf_inj:
  "pt_wf m lev T root \<Longrightarrow> p \<in> T \<Longrightarrow> q \<in> T \<Longrightarrow> lev p = Suc l \<Longrightarrow> lev q = Suc l \<Longrightarrow>
   v = load64 m (pte_addr p (Suc l) va) \<Longrightarrow> w = load64 m (pte_addr q (Suc l) vb) \<Longrightarrow>
   bit v 0 \<Longrightarrow> bit w 0 \<Longrightarrow> PTE2PA v = PTE2PA w \<Longrightarrow> p = q \<and> PX (Suc l) va = PX (Suc l) vb"
  unfolding pt_wf_def by blast

lemma pte_of_leaf:
  assumes "pt_wf m lev T root"
  shows "p \<in> T \<Longrightarrow> lev p = l \<Longrightarrow> pte_of m l p va = Some a \<Longrightarrow> \<exists>q\<in>T. lev q = 0 \<and> a = pte_addr q 0 va"
proof (induction l arbitrary: p)
  case (Suc l)
  then show ?case
    using pt_wf_child[OF assms Suc.prems(1,2) refl] by (auto simp: Let_def split: if_splits)
qed auto

lemma pte_of_unique:
  assumes "pt_wf m lev T root"
  shows "p \<in> T \<Longrightarrow> q \<in> T \<Longrightarrow> lev p = l \<Longrightarrow> lev q = l \<Longrightarrow> pte_of m l p va = Some a \<Longrightarrow>
    pte_of m l q vb = Some a \<Longrightarrow> p = q \<and> (\<forall>k\<le>l. PX k va = PX k vb)"
proof (induction l arbitrary: p q)
  case 0
  then have "pte_addr p 0 va = pte_addr q 0 vb" by simp
  then show ?case
    using pte_addr_inj[of p q 0 va 0 vb] pt_wf_page[OF assms 0(1)] pt_wf_page[OF assms 0(2)] by simp
next
  case (Suc l)
  define v w where "v = load64 m (pte_addr p (Suc l) va)" and "w = load64 m (pte_addr q (Suc l) vb)"
  have b: "bit v 0" "bit w 0" "pte_of m l (PTE2PA v) va = Some a" "pte_of m l (PTE2PA w) vb = Some a"
    using Suc.prems by (auto simp: v_def w_def Let_def split: if_splits)
  note cv = pt_wf_child[OF assms Suc.prems(1,3) v_def b(1)]
    and cw = pt_wf_child[OF assms Suc.prems(2,4) w_def b(2)]
  have "PTE2PA v = PTE2PA w \<and> (\<forall>k\<le>l. PX k va = PX k vb)"
    using Suc.IH cv cw b by blast
  moreover from this have "p = q \<and> PX (Suc l) va = PX (Suc l) vb"
    using pt_wf_inj[OF assms Suc.prems(1,2,3,4) v_def w_def b(1,2)] by blast
  ultimately show ?case by (auto simp: le_Suc_eq)
qed

lemma pgno_PX:
  assumes "pgno va = pgno vb"
  shows "PX l va = PX l vb"
proof -
  have "unat (drop_bit 12 va) = unat (drop_bit 12 vb)"
    using assms by (simp add: pgno_def drop_bit_eq_div unat_div)
  then have "drop_bit 12 va = drop_bit 12 vb" by (simp add: word_unat_eq_iff)
  then have "drop_bit (9 * l) (drop_bit 12 va) = drop_bit (9 * l) (drop_bit 12 vb)" by simp
  then show ?thesis by (simp add: PX_def PGSHIFT_def add.commute)
qed

lemma same_page_look:
  assumes "pgno va = pgno vb"
  shows "look m l p va = look m l p vb" "pte_of m l p va = pte_of m l p vb"
  using pgno_PX[OF assms] by (induction l arbitrary: p) (simp_all add: pte_addr_def Let_def)

text \<open>A change of memory outside the pages of a table does not touch it.\<close>

lemma load_pte_cong:
  assumes "\<And>x. pgno x = pgno pt \<Longrightarrow> m' x = m x" "pt mod 4096 = 0"
  shows "load64 m' (pte_addr pt l va) = load64 m (pte_addr pt l va)"
proof -
  have u: "unat (pte_addr pt l va) = unat pt + 8 * unat (PX l va)"
    unfolding pte_addr_def using assms(2) PX_less[of l va]
    by (subst unat_add_offset) (simp_all add: unat_8_PX)
  have "pgno (pte_addr pt l va + of_nat i) = pgno pt" if "i < 8" for i
  proof -
    have "pte_addr pt l va + of_nat i = pt + (8 * PX l va + of_nat i)" by (simp add: pte_addr_def)
    moreover have "unat (8 * PX l va + of_nat i) < 4096"
      using PX_less[of l va] that
      by (subst unat_add_no_wrap) (simp_all add: unat_8_PX unat_of_nat)
    ultimately show ?thesis using pgno_add_offset[OF assms(2)] by metis
  qed
  then show ?thesis
    unfolding load64_def by (intro arg_cong[where f = le_word] mem_read_cong assms(1)) auto
qed

definition same_on :: "u64 set \<Rightarrow> memory \<Rightarrow> memory \<Rightarrow> bool" where
  "same_on T m m' \<longleftrightarrow> (\<forall>x. pgno x \<in> pgno ` T \<longrightarrow> m' x = m x)"

lemma same_onD: "same_on T m m' \<Longrightarrow> p \<in> T \<Longrightarrow> pgno x = pgno p \<Longrightarrow> m' x = m x"
  by (auto simp: same_on_def)

lemma load_same:
  "same_on T m m' \<Longrightarrow> pt_wf m lev T root \<Longrightarrow> p \<in> T \<Longrightarrow>
   load64 m' (pte_addr p l va) = load64 m (pte_addr p l va)"
  by (rule load_pte_cong) (simp_all add: same_onD pt_wf_page)

lemma pt_wfI:
  assumes "root \<in> T" "lev root = 2" "\<And>p. p \<in> T \<Longrightarrow> p mod 4096 = 0 \<and> p \<noteq> 0"
    and "\<And>p l va. p \<in> T \<Longrightarrow> lev p = Suc l \<Longrightarrow> bit (load64 m (pte_addr p (Suc l) va)) 0 \<Longrightarrow>
      PTE2PA (load64 m (pte_addr p (Suc l) va)) \<in> T \<and> lev (PTE2PA (load64 m (pte_addr p (Suc l) va))) = l"
    and "\<And>p q l va vb. p \<in> T \<Longrightarrow> q \<in> T \<Longrightarrow> lev p = Suc l \<Longrightarrow> lev q = Suc l \<Longrightarrow>
      bit (load64 m (pte_addr p (Suc l) va)) 0 \<Longrightarrow> bit (load64 m (pte_addr q (Suc l) vb)) 0 \<Longrightarrow>
      PTE2PA (load64 m (pte_addr p (Suc l) va)) = PTE2PA (load64 m (pte_addr q (Suc l) vb)) \<Longrightarrow>
      p = q \<and> PX (Suc l) va = PX (Suc l) vb"
  shows "pt_wf m lev T root"
  unfolding pt_wf_def using assms by blast

lemma pt_wf_loads:
  assumes wf: "pt_wf m lev T root"
    and eq: "\<And>p l va. p \<in> T \<Longrightarrow> lev p = Suc l \<Longrightarrow>
      load64 m' (pte_addr p (Suc l) va) = load64 m (pte_addr p (Suc l) va)"
  shows "pt_wf m' lev T root"
proof (rule pt_wfI)
  fix p l va
  assume "p \<in> T" "lev p = Suc l" "bit (load64 m' (pte_addr p (Suc l) va)) 0"
  then show "PTE2PA (load64 m' (pte_addr p (Suc l) va)) \<in> T
      \<and> lev (PTE2PA (load64 m' (pte_addr p (Suc l) va))) = l"
    using pt_wf_child[OF wf _ _ refl] by (simp add: eq)
next
  fix p q l va vb
  assume "p \<in> T" "q \<in> T" "lev p = Suc l" "lev q = Suc l"
    "bit (load64 m' (pte_addr p (Suc l) va)) 0" "bit (load64 m' (pte_addr q (Suc l) vb)) 0"
    "PTE2PA (load64 m' (pte_addr p (Suc l) va)) = PTE2PA (load64 m' (pte_addr q (Suc l) vb))"
  then show "p = q \<and> PX (Suc l) va = PX (Suc l) vb"
    using pt_wf_inj[OF wf, of p q l _ va _ vb] by (simp add: eq)
qed (use pt_wf_root[OF wf] pt_wf_page[OF wf] in auto)

lemma pt_wf_cong:
  assumes "pt_wf m lev T root" "same_on T m m'"
  shows "pt_wf m' lev T root"
  by (rule pt_wf_loads[OF assms(1)]) (rule load_same[OF assms(2,1)])

lemma look_cong:
  assumes "pt_wf m lev T root" "same_on T m m'"
  shows "p \<in> T \<Longrightarrow> lev p = l \<Longrightarrow> look m' l p va = look m l p va \<and> pte_of m' l p va = pte_of m l p va"
proof (induction l arbitrary: p)
  case 0
  then show ?case using load_same[OF assms(2,1)] by simp
next
  case (Suc l)
  have e: "load64 m' (pte_addr p (Suc l) va) = load64 m (pte_addr p (Suc l) va)"
    using load_same[OF assms(2,1)] Suc.prems(1) by simp
  show ?case
    using Suc.IH pt_wf_child[OF assms(1) Suc.prems refl] by (auto simp: e Let_def)
qed

text \<open>A store into a leaf entry: the shape of the table stays, one page is mapped anew.\<close>

lemma load_inner_store:
  assumes "p mod 4096 = 0" "q mod 4096 = 0" "p \<noteq> q"
  shows "load64 (store64 (pte_addr q k vb) v m) (pte_addr p l va) = load64 m (pte_addr p l va)"
proof (rule load64_store64_other)
  show "pte_addr q k vb \<noteq> pte_addr p l va" using pte_addr_inj assms by metis
qed (use assms pte_addr_aligned in auto)

lemma leaf_store_wf:
  assumes "pt_wf m lev T root" "q \<in> T" "lev q = 0"
  shows "pt_wf (store64 (pte_addr q 0 vb) v m) lev T root"
proof (rule pt_wf_loads[OF assms(1)])
  fix p l va
  assume p: "p \<in> T" "lev p = Suc l"
  show "load64 (store64 (pte_addr q 0 vb) v m) (pte_addr p (Suc l) va) = load64 m (pte_addr p (Suc l) va)"
  proof (rule load_inner_store)
    show "p \<noteq> q" using p assms(3) by auto
  qed (use p assms pt_wf_page in auto)
qed

lemma leaf_store_pte_of:
  assumes "pt_wf m lev T root" "q \<in> T" "lev q = 0"
  shows "p \<in> T \<Longrightarrow> lev p = l \<Longrightarrow>
    pte_of (store64 (pte_addr q 0 vb) v m) l p va = pte_of m l p va"
proof (induction l arbitrary: p)
  case (Suc l)
  have "load64 (store64 (pte_addr q 0 vb) v m) (pte_addr p (Suc l) va) = load64 m (pte_addr p (Suc l) va)"
  proof (rule load_inner_store)
    show "p \<noteq> q" using Suc.prems assms(3) by auto
  qed (use Suc.prems assms pt_wf_page in auto)
  then show ?case
    using Suc.IH pt_wf_child[OF assms(1) Suc.prems refl] by (auto simp: Let_def)
qed simp

lemma lookup_leaf_store:
  assumes wf: "pt_wf m lev T root" and a: "pte_of m 2 root va = Some a"
    and va: "va < MAXVA" "vb < MAXVA"
  shows "lookup (store64 a v m) root vb =
    (if pgno vb = pgno va then (if bit v 0 then Some v else None) else lookup m root vb)"
proof -
  have root: "root \<in> T" "lev root = 2" using pt_wf_root[OF wf] by simp_all
  obtain q where q: "q \<in> T" "lev q = 0" "a = pte_addr q 0 va" using pte_of_leaf[OF wf root a] by blast
  have p: "pte_of (store64 a v m) 2 root vb = pte_of m 2 root vb"
    using leaf_store_pte_of[OF wf q(1,2) root] q(3) by simp
  show ?thesis
  proof (cases "pgno vb = pgno va")
    case True
    then show ?thesis using p a same_page_look(2)[OF True] by (simp add: look_pte_of)
  next
    case False
    show ?thesis
    proof (cases "pte_of m 2 root vb")
      case None
      then show ?thesis using p False by (simp add: look_pte_of)
    next
      case (Some b)
      then have "a \<noteq> b" using pte_of_unique[OF wf root(1) root(1) root(2) root(2) a] PX_vpn[OF va(2,1)] False by metis
      moreover obtain q' where q': "q' \<in> T" "b = pte_addr q' 0 vb" using pte_of_leaf[OF wf root Some] by blast
      ultimately have "load64 (store64 a v m) b = load64 m b"
        using q pt_wf_page[OF wf] pte_addr_aligned by (intro load64_store64_other) auto
      then show ?thesis using p Some False by (simp add: look_pte_of)
    qed
  qed
qed

text \<open>Hanging an empty page under an invalid inner entry leaves every mapping as it was.\<close>

definition with_child :: "u64 \<Rightarrow> u64 \<Rightarrow> memory \<Rightarrow> memory" where
  "with_child e pg m = store64 e (PA2PTE pg OR PTE_V) (memset pg 0 4096 m)"

lemma child_pte [simp]: "pg mod 4096 = 0 \<Longrightarrow> PTE2PA (PA2PTE pg OR PTE_V) = pg"
  by (rule PTE2PA_PA2PTE) (simp_all add: PTE_V_def)

definition fresh_child ::
  "memory \<Rightarrow> (u64 \<Rightarrow> nat) \<Rightarrow> u64 set \<Rightarrow> u64 \<Rightarrow> u64 \<Rightarrow> nat \<Rightarrow> u64 \<Rightarrow> u64 \<Rightarrow> bool" where
  "fresh_child m lev T root p l va pg \<longleftrightarrow>
     pt_wf m lev T root \<and> p \<in> T \<and> lev p = Suc l \<and> \<not> bit (load64 m (pte_addr p (Suc l) va)) 0
     \<and> pg \<notin> T \<and> pg mod 4096 = 0 \<and> pg \<noteq> 0"

abbreviation grown :: "u64 \<Rightarrow> nat \<Rightarrow> u64 \<Rightarrow> u64 \<Rightarrow> memory \<Rightarrow> memory" where
  "grown p l va pg m \<equiv> with_child (pte_addr p (Suc l) va) pg m"

lemma fresh_childD:
  assumes "fresh_child m lev T root p l va pg"
  shows "pt_wf m lev T root" "p \<in> T" "lev p = Suc l" "\<not> bit (load64 m (pte_addr p (Suc l) va)) 0"
    "pg \<notin> T" "pg mod 4096 = 0" "pg \<noteq> 0" "p mod 4096 = 0"
  using assms pt_wf_page[of m lev T root p] unfolding fresh_child_def by simp_all

lemma fresh_child_pages:
  assumes "fresh_child m lev T root p l va pg" "q \<in> T"
  shows "q mod 4096 = 0" "q \<noteq> 0" "pgno q \<noteq> pgno pg" "q \<noteq> pg"
proof -
  note fc = fresh_childD[OF assms(1)]
  show q: "q mod 4096 = 0" "q \<noteq> 0" using pt_wf_page[OF fc(1) assms(2)] by simp_all
  show n: "q \<noteq> pg" using fc(5) assms(2) by auto
  show "pgno q \<noteq> pgno pg" by (rule page_neq[OF q(1) fc(6) n])
qed

lemma load_grown_other:
  assumes fc: "fresh_child m lev T root p l va pg" and q: "q \<in> T"
    and ne: "\<not> (q = p \<and> PX k vb = PX (Suc l) va)"
  shows "load64 (grown p l va pg m) (pte_addr q k vb) = load64 m (pte_addr q k vb)"
proof -
  note al = fresh_childD(8)[OF fc] fresh_child_pages(1)[OF fc q]
  have "pte_addr p (Suc l) va \<noteq> pte_addr q k vb"
    using pte_addr_inj[OF al, of "Suc l" va k vb] ne by auto
  then have "load64 (grown p l va pg m) (pte_addr q k vb) = load64 (memset pg 0 4096 m) (pte_addr q k vb)"
    unfolding with_child_def by (intro load64_store64_other pte_addr_aligned al)
  also have "\<dots> = load64 m (pte_addr q k vb)"
  proof (rule load_pte_cong)
    show "memset pg 0 4096 m x = m x" if "pgno x = pgno q" for x
      using that fresh_child_pages(3)[OF fc q] fresh_childD(6)[OF fc] by (simp add: memset_page)
  qed (rule al)
  finally show ?thesis .
qed

lemma load_grown_new:
  "PX k vb = PX (Suc l) va \<Longrightarrow> load64 (grown p l va pg m) (pte_addr p k vb) = PA2PTE pg OR PTE_V"
  by (simp add: with_child_def pte_addr_def)

lemma load_grown_empty:
  assumes fc: "fresh_child m lev T root p l va pg"
  shows "load64 (grown p l va pg m) (pte_addr pg k vb) = 0"
proof -
  note d = fresh_childD[OF fc]
  have "load64 (grown p l va pg m) (pte_addr pg k vb) = load64 (memset pg 0 4096 m) (pte_addr pg k vb)"
    unfolding with_child_def
    by (rule load_inner_store[OF d(6,8)]) (use fresh_child_pages(4)[OF fc d(2)] in simp)
  also have "\<dots> = load64 (\<lambda>_. 0) (pte_addr pg k vb)"
    by (rule load_pte_cong) (simp_all add: memset_page d(6))
  finally show ?thesis by simp
qed

lemma look_grown_child:
  "fresh_child m lev T root p l va pg \<Longrightarrow> look (grown p l va pg m) k pg vb = None"
  by (cases k) (simp_all add: load_grown_empty)

lemma look_grown:
  assumes fc: "fresh_child m lev T root p l va pg"
  shows "q \<in> T \<Longrightarrow> lev q = k \<Longrightarrow> look (grown p l va pg m) k q vb = look m k q vb"
proof (induction k arbitrary: q)
  case 0
  then have "q \<noteq> p" using fresh_childD(3)[OF fc] by auto
  then show ?case using load_grown_other[OF fc 0(1), of 0 vb] by simp
next
  case (Suc k)
  note d = fresh_childD[OF fc]
  show ?case
  proof (cases "q = p \<and> PX (Suc k) vb = PX (Suc l) va")
    case True
    then have "\<not> bit (load64 m (pte_addr q (Suc k) vb)) 0" using d(4) by (simp add: pte_addr_def)
    moreover have "load64 (grown p l va pg m) (pte_addr q (Suc k) vb) = PA2PTE pg OR PTE_V"
      using True load_grown_new[of "Suc k" vb l va p pg m] by blast
    ultimately show ?thesis using d(6) by (simp add: Let_def look_grown_child[OF fc])
  next
    case False
    then show ?thesis
      using Suc.IH pt_wf_child[OF d(1) Suc.prems refl] load_grown_other[OF fc Suc.prems(1) False]
      by (simp add: Let_def)
  qed
qed

lemma pt_wf_grown:
  assumes fc: "fresh_child m lev T root p l va pg"
  shows "pt_wf (grown p l va pg m) (lev(pg := l)) (insert pg T) root"
proof (rule pt_wfI)
  note d = fresh_childD[OF fc] and r = pt_wf_root[OF fresh_childD(1)[OF fc]]
  let ?m = "grown p l va pg m" and ?lev = "lev(pg := l)"
  show "root \<in> insert pg T" "?lev root = 2" using r d(5) by auto
  show "q mod 4096 = 0 \<and> q \<noteq> 0" if "q \<in> insert pg T" for q
    using that fresh_child_pages[OF fc] d by auto
  have entry: "q \<in> T \<and> lev q = Suc k \<and>
      (if q = p \<and> PX (Suc k) vb = PX (Suc l) va then k = l \<and> PTE2PA (load64 ?m (pte_addr q (Suc k) vb)) = pg
       else load64 ?m (pte_addr q (Suc k) vb) = load64 m (pte_addr q (Suc k) vb)
         \<and> PTE2PA (load64 m (pte_addr q (Suc k) vb)) \<in> T \<and> lev (PTE2PA (load64 m (pte_addr q (Suc k) vb))) = k)"
    if q: "q \<in> insert pg T" "?lev q = Suc k" "bit (load64 ?m (pte_addr q (Suc k) vb)) 0" for q k vb
  proof -
    have T: "q \<in> T" using q load_grown_empty[OF fc, of "Suc k" vb] by (auto split: if_splits)
    then have lv: "lev q = Suc k" using q(2) d(5) by (auto split: if_splits)
    show ?thesis
    proof (cases "q = p \<and> PX (Suc k) vb = PX (Suc l) va")
      case True
      then show ?thesis using T lv d(3,6) load_grown_new[of "Suc k" vb l va p pg m] by auto
    next
      case False
      note e = load_grown_other[OF fc T False]
      then show ?thesis using T lv False pt_wf_child[OF d(1) T lv refl] q(3) by auto
    qed
  qed
  show "PTE2PA (load64 ?m (pte_addr q (Suc k) vb)) \<in> insert pg T
      \<and> ?lev (PTE2PA (load64 ?m (pte_addr q (Suc k) vb))) = k"
    if q: "q \<in> insert pg T" "?lev q = Suc k" "bit (load64 ?m (pte_addr q (Suc k) vb)) 0" for q k vb
    using entry[OF q] d(5) by (auto split: if_splits)
  show "q = q' \<and> PX (Suc k) vb = PX (Suc k) vc"
    if "q \<in> insert pg T" "q' \<in> insert pg T" "?lev q = Suc k" "?lev q' = Suc k"
      "bit (load64 ?m (pte_addr q (Suc k) vb)) 0" "bit (load64 ?m (pte_addr q' (Suc k) vc)) 0"
      "PTE2PA (load64 ?m (pte_addr q (Suc k) vb)) = PTE2PA (load64 ?m (pte_addr q' (Suc k) vc))"
    for q q' k vb vc
    using entry[OF that(1,3,5)] entry[OF that(2,4,6)] that(5-7) d(5)
      pt_wf_inj[OF d(1) _ _ _ _ refl refl, of q q' k vb vc]
    by (auto split: if_splits)
qed

end
