(* ===== verification/Proc_State.thy ===== *)
theory Proc_State
  imports Pagetable
begin

text \<open>
  The process table: \<^verbatim>\<open>struct proc\<close> and \<^verbatim>\<open>struct trapframe\<close> of \<^verbatim>\<open>kernel/proc.h\<close>, the globals of
  \<^verbatim>\<open>kernel/proc.c\<close>, and \<^verbatim>\<open>myproc\<close>. A process is its index in the table. A trapframe is a page of
  memory; its fields are 64-bit words at the offsets the structure gives. Open files and the
  current directory are indices of the file table and of the inode table.
\<close>

datatype procstate = UNUSED | USED | SLEEPING | RUNNABLE | RUNNING | ZOMBIE

record proc =
  p_state :: procstate
  p_chan :: chan
  p_killed :: int
  p_xstate :: int
  p_pid :: int
  p_priority :: int
  p_parent :: "nat option"
  p_kstack :: u64
  p_sz :: u64
  p_pagetable :: u64
  p_trapframe :: u64
  p_context :: ctxt
  p_ofile :: "nat \<Rightarrow> nat option"
  p_cwd :: "nat option"
  p_name :: "u8 list"

text \<open>
  The globals of \<^verbatim>\<open>proc.c\<close>, \<^verbatim>\<open>vm.c\<close> and \<^verbatim>\<open>trap.c\<close>. \<^verbatim>\<open>etext\<close>, \<^verbatim>\<open>trampoline\<close> and the offset of
  \<^verbatim>\<open>userret\<close> in it are set by the linker, as are the addresses of the functions that are stored in
  registers and in trapframes. \<open>satp\<close>, \<open>stvec\<close>, \<open>sepc\<close>, \<open>sstatus_spp\<close>, \<open>sstatus_spie\<close>, \<open>scause\<close> and
  \<open>stval\<close> are the supervisor registers of the running hart.
\<close>

record proc_machine = mem_machine +
  procs :: "nat \<Rightarrow> proc"
  nextpid :: int
  initproc :: "nat option"
  kernel_pagetable :: u64
  ticks :: u32
  fork_first :: bool
  etext :: u64
  trampoline :: u64
  fn_forkret :: u64
  fn_usertrap :: u64
  fn_kernelvec :: u64
  off_uservec :: u64
  off_userret :: u64
  satp :: u64
  stvec :: u64
  sepc :: u64
  sstatus_spp :: bool
  sstatus_spie :: bool
  scause :: u64
  stval :: u64

section \<open>Access\<close>

definition get_proc :: "nat \<Rightarrow> ('z proc_machine_scheme, proc) kern" where
  "get_proc p = kget (\<lambda>s. procs s p)"

definition set_proc :: "nat \<Rightarrow> (proc \<Rightarrow> proc) \<Rightarrow> ('z proc_machine_scheme, unit) kern" where
  "set_proc p f = kmod (\<lambda>s. s\<lparr>procs := (procs s)(p := f (procs s p))\<rparr>)"

definition myproc :: "('z machine_scheme, nat option) kern" where
  "myproc =
     kthen push_off (
     kbind mycpu (\<lambda>c.
     kthen pop_off (kret (cpu_proc c))))"

text \<open>
  Code that uses the result of \<^verbatim>\<open>myproc()\<close> without a test: with no current process the access to
  address 0 traps into the kernel, which panics.
\<close>

definition this_proc :: "('z machine_scheme, nat) kern" where
  "this_proc = kbind myproc (\<lambda>p. case p of None \<Rightarrow> kpanic ''kerneltrap'' | Some i \<Rightarrow> kret i)"

text \<open>Offsets of the fields of \<^verbatim>\<open>struct trapframe\<close>.\<close>

definition tf_kernel_satp :: u64 where "tf_kernel_satp = 0"
definition tf_kernel_sp :: u64 where "tf_kernel_sp = 8"
definition tf_kernel_trap :: u64 where "tf_kernel_trap = 16"
definition tf_epc :: u64 where "tf_epc = 24"
definition tf_kernel_hartid :: u64 where "tf_kernel_hartid = 32"
definition tf_sp :: u64 where "tf_sp = 48"
definition tf_a0 :: u64 where "tf_a0 = 112"
definition tf_a1 :: u64 where "tf_a1 = 120"
definition tf_a2 :: u64 where "tf_a2 = 128"
definition tf_a3 :: u64 where "tf_a3 = 136"
definition tf_a4 :: u64 where "tf_a4 = 144"
definition tf_a5 :: u64 where "tf_a5 = 152"
definition tf_a7 :: u64 where "tf_a7 = 168"

definition tf_get :: "nat \<Rightarrow> u64 \<Rightarrow> ('z proc_machine_scheme, u64) kern" where
  "tf_get p f = kget (\<lambda>s. load64 (mem s) (p_trapframe (procs s p) + f))"

definition tf_set :: "nat \<Rightarrow> u64 \<Rightarrow> u64 \<Rightarrow> ('z proc_machine_scheme, unit) kern" where
  "tf_set p f v = kmod (\<lambda>s. s\<lparr>mem := store64 (p_trapframe (procs s p) + f) v (mem s)\<rparr>)"

section \<open>Lemmas\<close>

lemma wp_get_proc [simp, wp_eqs]: "wp (get_proc p) Q s = Q (procs s p) s"
  by (simp add: get_proc_def)

lemma wp_set_proc [simp, wp_eqs]:
  "wp (set_proc p f) Q s = Q () (s\<lparr>procs := (procs s)(p := f (procs s p))\<rparr>)"
  by (simp add: set_proc_def)

lemma myproc_run:
  "hart_ok (hart s) \<Longrightarrow> myproc s = Ok (cpu_proc (cur (hart s))) (s\<lparr>hart := scrub (hart s)\<rparr>)"
  by (simp add: myproc_def mycpu_def kbind_def kthen_def kret_def push_off_run pop_off_run cur_def)

lemma this_proc_run:
  "hart_ok (hart s) \<Longrightarrow> cpu_proc (cur (hart s)) = Some p \<Longrightarrow>
   this_proc s = Ok p (s\<lparr>hart := scrub (hart s)\<rparr>)"
  by (simp add: this_proc_def kbind_def kret_def myproc_run)

lemma wp_this_proc:
  "hart_ok (hart s) \<Longrightarrow> cpu_proc (cur (hart s)) = Some p \<Longrightarrow>
   wp this_proc Q s = Q p (s\<lparr>hart := scrub (hart s)\<rparr>)"
  by (simp add: wp_def this_proc_run)

text \<open>A process table with every slot unused.\<close>

definition proc0 :: proc where
  "proc0 = \<lparr>p_state = UNUSED, p_chan = ChNone, p_killed = 0, p_xstate = 0, p_pid = 0, p_priority = 0,
     p_parent = None, p_kstack = 0, p_sz = 0, p_pagetable = 0, p_trapframe = 0, p_context = ctxt0,
     p_ofile = (\<lambda>_. None), p_cwd = None, p_name = []\<rparr>"

end
