(* ===== verification/Sched.thy ===== *)
theory Sched
  imports Proc_State
begin

text \<open>
  Scheduling and sleeping: the scheduler with its priority rule, \<^verbatim>\<open>sched\<close>, \<^verbatim>\<open>yield\<close>, \<^verbatim>\<open>sleep\<close>, \<^verbatim>\<open>wakeup\<close>,
  \<^verbatim>\<open>kkill\<close>, \<^verbatim>\<open>setkilled\<close> and \<^verbatim>\<open>killed\<close> of \<^verbatim>\<open>kernel/proc.c\<close>. \<^verbatim>\<open>swtch\<close> is assembly: a thread that reaches it
  stops with \<open>Switched\<close>, and what it does when it is switched to again is the definition whose name
  ends in \<open>_resume\<close>. The scheduler loop is split at its own \<^verbatim>\<open>swtch\<close> into the round that picks a
  process and the return from it. The lemmas show that the process picked is the first one of the
  highest priority and holds exactly its lock, what that means for the others, and that a wakeup
  reaches every sleeper of its channel.
\<close>

section \<open>The scheduler\<close>

primrec select_loop :: "nat list \<Rightarrow> nat option \<Rightarrow> ('z proc_machine_scheme, nat option) kern" where
  "select_loop [] high_p = kret high_p"
| "select_loop (p # ps) high_p =
     kthen (acquire (Lproc p)) (
     kbind (get_proc p) (\<lambda>pr.
     kbind (kget (\<lambda>s. map_option (\<lambda>h. p_priority (procs s h)) high_p)) (\<lambda>hp.
     if p_state pr = RUNNABLE \<and> (case hp of None \<Rightarrow> True | Some h \<Rightarrow> h < p_priority pr)
     then kthen (case high_p of None \<Rightarrow> kret () | Some h \<Rightarrow> release (Lproc h))
                (select_loop ps (Some p))
     else kthen (release (Lproc p)) (select_loop ps high_p))))"

definition vip_fmt :: string where
  "vip_fmt = ''SCHEDULER: VIP Process PID %d (Priority %d) is running'' @ [CHR 0x0A]"

definition scheduler_enter :: "('z proc_machine_scheme, unit) kern" where
  "scheduler_enter = set_mycpu (\<lambda>c. c\<lparr>cpu_proc := None\<rparr>)"

text \<open>One round up to \<^verbatim>\<open>swtch\<close>, or to \<^verbatim>\<open>wfi\<close> when nothing is runnable: the process switched to.\<close>

definition scheduler_round :: "('z proc_machine_scheme, nat option) kern" where
  "scheduler_round =
     kthen intr_on (
     kbind (select_loop [0..<NPROC] None) (\<lambda>high_p.
     case high_p of
       Some p \<Rightarrow>
         kthen (set_proc p (\<lambda>q. q\<lparr>p_state := RUNNING\<rparr>)) (
         kthen (set_mycpu (\<lambda>c. c\<lparr>cpu_proc := Some p\<rparr>)) (
         kbind (get_proc p) (\<lambda>pr.
         kthen (kwhen (5 < p_priority pr)
                  (printf vip_fmt [VaI (of_int (p_pid pr)), VaI (of_int (p_priority pr))]))
               (kret (Some p)))))
     | None \<Rightarrow> kthen intr_on (kret None)))"

text \<open>The process has switched back.\<close>

definition scheduler_return :: "nat \<Rightarrow> ('z proc_machine_scheme, unit) kern" where
  "scheduler_return p =
     kthen (set_mycpu (\<lambda>c. c\<lparr>cpu_proc := None\<rparr>)) (release (Lproc p))"

section \<open>Giving up the CPU\<close>

definition sched :: "('z proc_machine_scheme, unit) kern" where
  "sched =
     kbind this_proc (\<lambda>p.
     kbind (holding (Lproc p)) (\<lambda>h.
     if \<not> h then kpanic ''sched p->lock'' else
     kbind mycpu (\<lambda>c.
     if noff c \<noteq> 1 then kpanic ''sched locks'' else
     kbind (get_proc p) (\<lambda>pr.
     if p_state pr = RUNNING then kpanic ''sched RUNNING'' else
     kbind intr_get (\<lambda>on.
     if on then kpanic ''sched interruptible'' else
     kstop Switched)))))"

definition sched_resume :: "bool \<Rightarrow> ('z proc_machine_scheme, unit) kern" where
  "sched_resume saved = set_mycpu (\<lambda>c. c\<lparr>intena := saved\<rparr>)"

definition yield :: "('z proc_machine_scheme, unit) kern" where
  "yield =
     kbind this_proc (\<lambda>p.
     kthen (acquire (Lproc p)) (
     kthen (set_proc p (\<lambda>q. q\<lparr>p_state := RUNNABLE\<rparr>))
           sched))"

definition yield_resume :: "nat \<Rightarrow> bool \<Rightarrow> ('z proc_machine_scheme, unit) kern" where
  "yield_resume p saved = kthen (sched_resume saved) (release (Lproc p))"

definition sleep :: "chan \<Rightarrow> lockid \<Rightarrow> ('z proc_machine_scheme, unit) kern" where
  "sleep ch lk =
     kbind this_proc (\<lambda>p.
     kthen (acquire (Lproc p)) (
     kthen (release lk) (
     kthen (set_proc p (\<lambda>q. q\<lparr>p_chan := ch\<rparr>)) (
     kthen (set_proc p (\<lambda>q. q\<lparr>p_state := SLEEPING\<rparr>))
           sched))))"

definition sleep_resume :: "nat \<Rightarrow> lockid \<Rightarrow> bool \<Rightarrow> ('z proc_machine_scheme, unit) kern" where
  "sleep_resume p lk saved =
     kthen (sched_resume saved) (
     kthen (set_proc p (\<lambda>q. q\<lparr>p_chan := ChNone\<rparr>)) (
     kthen (release (Lproc p))
           (acquire lk)))"

section \<open>Waking and killing\<close>

definition wake_one :: "chan \<Rightarrow> nat \<Rightarrow> ('z proc_machine_scheme, unit) kern" where
  "wake_one ch p =
     kbind myproc (\<lambda>me.
     kwhen (me \<noteq> Some p) (
       kthen (acquire (Lproc p)) (
       kbind (get_proc p) (\<lambda>pr.
       kthen (kwhen (p_state pr = SLEEPING \<and> p_chan pr = ch)
                (set_proc p (\<lambda>q. q\<lparr>p_state := RUNNABLE\<rparr>)))
             (release (Lproc p))))))"

definition wakeup :: "chan \<Rightarrow> ('z proc_machine_scheme, unit) kern" where
  "wakeup ch = kfor [0..<NPROC] (wake_one ch)"

primrec kkill_loop :: "nat list \<Rightarrow> int \<Rightarrow> ('z proc_machine_scheme, int) kern" where
  "kkill_loop [] pid = kret (- 1)"
| "kkill_loop (p # ps) pid =
     kthen (acquire (Lproc p)) (
     kbind (get_proc p) (\<lambda>pr.
     if p_pid pr = pid
     then kthen (set_proc p (\<lambda>q. q\<lparr>p_killed := 1\<rparr>)) (
          kthen (kwhen (p_state pr = SLEEPING) (set_proc p (\<lambda>q. q\<lparr>p_state := RUNNABLE\<rparr>))) (
          kthen (release (Lproc p)) (kret 0)))
     else kthen (release (Lproc p)) (kkill_loop ps pid)))"

definition kkill :: "int \<Rightarrow> ('z proc_machine_scheme, int) kern" where
  "kkill pid = kkill_loop [0..<NPROC] pid"

definition setkilled :: "nat \<Rightarrow> ('z proc_machine_scheme, unit) kern" where
  "setkilled p =
     kthen (acquire (Lproc p)) (
     kthen (set_proc p (\<lambda>q. q\<lparr>p_killed := 1\<rparr>))
           (release (Lproc p)))"

definition killed :: "nat \<Rightarrow> ('z proc_machine_scheme, int) kern" where
  "killed p =
     kthen (acquire (Lproc p)) (
     kbind (get_proc p) (\<lambda>pr.
     kthen (release (Lproc p)) (kret (p_killed pr))))"

text \<open>
  \<^verbatim>\<open>procdump\<close> prints a line for each used slot without taking locks; the table of state names has an
  entry for every state. Process names are printed up to their NUL.
\<close>

definition state_name :: "procstate \<Rightarrow> string" where
  "state_name st = (case st of UNUSED \<Rightarrow> ''unused'' | USED \<Rightarrow> ''used'' | SLEEPING \<Rightarrow> ''sleep ''
     | RUNNABLE \<Rightarrow> ''runble'' | RUNNING \<Rightarrow> ''run   '' | ZOMBIE \<Rightarrow> ''zombie'')"

definition cstring :: "u8 list \<Rightarrow> string" where
  "cstring bs = map (\<lambda>b. char_of (unat b)) (takeWhile (\<lambda>b. b \<noteq> 0) bs)"

definition procdump :: "('z proc_machine_scheme, unit) kern" where
  "procdump =
     kthen (printf [CHR 0x0A] []) (
     kfor [0..<NPROC] (\<lambda>p.
       kbind (get_proc p) (\<lambda>pr.
       kwhen (p_state pr \<noteq> UNUSED) (
         kthen (printf ''%d %s %s'' [VaI (of_int (p_pid pr)), VaS (Some (state_name (p_state pr))),
                  VaS (Some (cstring (p_name pr)))])
               (printf [CHR 0x0A] [])))))"

section \<open>The process the scheduler picks\<close>

text \<open>The rule on its own: a later process replaces the champion only with a strictly higher priority.\<close>

definition beats :: "(nat \<Rightarrow> proc) \<Rightarrow> nat \<Rightarrow> nat option \<Rightarrow> bool" where
  "beats P p h \<longleftrightarrow> p_state (P p) = RUNNABLE \<and> (case h of None \<Rightarrow> True | Some i \<Rightarrow> p_priority (P i) < p_priority (P p))"

primrec champion :: "(nat \<Rightarrow> proc) \<Rightarrow> nat list \<Rightarrow> nat option \<Rightarrow> nat option" where
  "champion P [] h = h"
| "champion P (p # ps) h = champion P ps (if beats P p h then Some p else h)"

text \<open>The harts with only the champion's lock taken.\<close>

definition champion_hart :: "nat option \<Rightarrow> harts \<Rightarrow> harts" where
  "champion_hart c h = (case c of None \<Rightarrow> scrub h | Some i \<Rightarrow> acq (Lproc i) h)"

lemma acq_of_scrub: "scrub g = k \<Longrightarrow> acq lk g = acq lk k"
  using acq_scrub by metis

lemma champion_step:
  assumes h: "hart_ok h" "lock_free (Lproc p) h" "\<And>i. c = Some i \<Longrightarrow> lock_free (Lproc i) h \<and> i \<noteq> p"
    and s: "scrub (hart s) = champion_hart c h"
  shows "\<exists>g. scrub g = champion_hart (if beats (procs s) p c then Some p else c) h
    \<and> select_loop (p # ps) c s = select_loop ps (if beats (procs s) p c then Some p else c) (s\<lparr>hart := g\<rparr>)"
proof -
  define a where "a = acq (Lproc p) (hart s)"
  have free: "lock_free (Lproc p) (champion_hart c h)"
    using h by (auto simp: champion_hart_def split: option.splits)
  then have nl: "\<not> locked (locks (hart s) (Lproc p))"
    by (metis s lock_free_effects(3) lock_free_not_locked)
  have a: "a = acq (Lproc p) (champion_hart c h)" unfolding a_def by (rule acq_of_scrub[OF s])
  have ok: "hart_ok (champion_hart c h)" using h(1) by (auto simp: champion_hart_def split: option.splits)
  show ?thesis
  proof (cases "beats (procs s) p c")
    case True
    show ?thesis
    proof (cases c)
      case None
      then show ?thesis
        using True nl a h(1)
        by (intro exI[of _ a])
          (simp add: kthen_def kbind_def acquire_run get_proc_def beats_def kret_def champion_hart_def a_def)
    next
      case (Some i)
      have i: "lock_free (Lproc i) h" "i \<noteq> p" using h(3)[OF Some] by auto
      have held: "held (Lproc i) a" "masked a" using a Some h(1) by (auto simp: champion_hart_def)
      have "rel (Lproc i) a = acq (Lproc p) h" using a Some i h(1) by (simp add: champion_hart_def rel_acq_acq)
      then show ?thesis
        using True nl Some held h(1)
        by (intro exI[of _ "rel (Lproc i) a"])
          (simp add: kthen_def kbind_def acquire_run release_run get_proc_def beats_def champion_hart_def a_def)
    qed
  next
    case False
    have held: "held (Lproc p) a" "masked a" using a ok by auto
    have "rel (Lproc p) a = scrub (champion_hart c h)" using a free ok by simp
    then have "scrub (rel (Lproc p) a) = champion_hart c h" using s by simp (metis scrub_scrub)
    then show ?thesis
      using False nl held
      by (intro exI[of _ "rel (Lproc p) a"])
        (auto simp: kthen_def kbind_def acquire_run release_run get_proc_def beats_def a_def split: option.splits)
  qed
qed

lemma select_loop_run:
  "hart_ok h \<Longrightarrow> \<forall>p\<in>set ps. lock_free (Lproc p) h \<Longrightarrow> distinct ps \<Longrightarrow>
   (\<And>i. c = Some i \<Longrightarrow> lock_free (Lproc i) h \<and> i \<notin> set ps) \<Longrightarrow> scrub (hart s) = champion_hart c h \<Longrightarrow>
   \<exists>g. scrub g = champion_hart (champion (procs s) ps c) h
     \<and> select_loop ps c s = Ok (champion (procs s) ps c) (s\<lparr>hart := g\<rparr>)"
proof (induction ps arbitrary: c s)
  case Nil
  then show ?case by (auto simp: kret_def intro: exI[of _ "hart s"])
next
  case (Cons p ps)
  let ?c = "if beats (procs s) p c then Some p else c"
  obtain g where g: "scrub g = champion_hart ?c h"
    "select_loop (p # ps) c s = select_loop ps ?c (s\<lparr>hart := g\<rparr>)"
    using champion_step[OF Cons.prems(1), of p c s ps] Cons.prems(2,4,5) by auto
  have "\<exists>g'. scrub g' = champion_hart (champion (procs (s\<lparr>hart := g\<rparr>)) ps ?c) h
     \<and> select_loop ps ?c (s\<lparr>hart := g\<rparr>) = Ok (champion (procs (s\<lparr>hart := g\<rparr>)) ps ?c) (s\<lparr>hart := g\<rparr>\<lparr>hart := g'\<rparr>)"
    by (rule Cons.IH) (use Cons.prems g(1) in \<open>auto split: if_splits\<close>)
  then show ?case using g(2) by simp
qed

text \<open>The champion is a runnable process of the highest priority, the first in the table among equals.\<close>

definition first_best :: "(nat \<Rightarrow> proc) \<Rightarrow> nat \<Rightarrow> nat \<Rightarrow> bool" where
  "first_best P n i \<longleftrightarrow> i < n \<and> p_state (P i) = RUNNABLE
     \<and> (\<forall>j<n. p_state (P j) = RUNNABLE \<longrightarrow> p_priority (P j) \<le> p_priority (P i))
     \<and> (\<forall>j<i. p_state (P j) = RUNNABLE \<longrightarrow> p_priority (P j) < p_priority (P i))"

lemma champion_append: "champion P (xs @ ys) h = champion P ys (champion P xs h)"
  by (induction xs arbitrary: h) simp_all

lemma champion_spec:
  "case champion P [0..<n] None of None \<Rightarrow> \<forall>j<n. p_state (P j) \<noteq> RUNNABLE | Some i \<Rightarrow> first_best P n i"
proof (induction n)
  case (Suc n)
  then show ?case
    by (fastforce simp: champion_append beats_def first_best_def less_Suc_eq split: option.splits if_splits)
qed simp

lemma first_best_unique: "first_best P n i \<Longrightarrow> first_best P n j \<Longrightarrow> i = j"
  by (meson first_best_def linorder_neqE_nat not_le)

text \<open>The current process of a hart, set and read.\<close>

definition on_proc :: "nat option \<Rightarrow> harts \<Rightarrow> harts" where
  "on_proc p h = h\<lparr>cpus := (cpus h)(tp h := (cur h)\<lparr>cpu_proc := p\<rparr>)\<rparr>"

lemma set_cpu_proc_run: "set_mycpu (\<lambda>c. c\<lparr>cpu_proc := p\<rparr>) s = Ok () (s\<lparr>hart := on_proc p (hart s)\<rparr>)"
  by (simp add: set_mycpu_def on_proc_def cur_def Let_def)

lemma on_proc_simps [simp]:
  "tp (on_proc p h) = tp h" "sie (on_proc p h) = sie h" "locks (on_proc p h) = locks h"
  "cpu_proc (cur (on_proc p h)) = p" "noff (cur (on_proc p h)) = noff (cur h)"
  "lock_free l (on_proc p h) = lock_free l h" "held l (on_proc p h) = held l h"
  "masked (on_proc p h) = masked h" "hart_ok (on_proc p h) = hart_ok h"
  by (simp_all add: on_proc_def hart_defs)

lemma intr_on_run:
  "intr_on s = Ok () (s\<lparr>hart := (hart s)\<lparr>sie := (sie (hart s))(tp (hart s) := True)\<rparr>\<rparr>)"
  by (simp add: intr_on_def Let_def)

text \<open>What a caller of the scheduler round grants: no lock of the table is held and no interrupt is off.\<close>

definition sched_ready :: "'z proc_machine_scheme \<Rightarrow> bool" where
  "sched_ready s \<longleftrightarrow> noff (cur (hart s)) = 0 \<and> (\<forall>p<NPROC. lock_free (Lproc p) (hart s))
     \<and> lock_free Lpr (hart s) \<and> can_print s"

definition sched_hart :: "harts \<Rightarrow> harts" where
  "sched_hart h = h\<lparr>sie := (sie h)(tp h := True)\<rparr>"

lemma sched_hart_simps [simp]:
  "lock_free l (sched_hart h) = lock_free l h" "tp (sched_hart h) = tp h"
  "locks (sched_hart h) = locks h" "noff (cur (sched_hart h)) = noff (cur h)"
  "noff (cur h) = 0 \<Longrightarrow> hart_ok (sched_hart h)"
  by (simp_all add: sched_hart_def hart_defs)

lemma masked_scrub_eq: "scrub g = h \<Longrightarrow> masked h \<Longrightarrow> g = h"
  using masked_effects(3) scrub_masked by metis

definition vip_text :: "proc \<Rightarrow> string" where
  "vip_text q = (if 5 < p_priority q
     then printed vip_fmt [VaI (of_int (p_pid q)), VaI (of_int (p_priority q))] else [])"

lemma scheduler_round_run:
  assumes "sched_ready s"
  shows "case champion (procs s) [0..<NPROC] None of
      None \<Rightarrow> \<exists>g. scheduler_round s = Ok None (s\<lparr>hart := g\<rparr>) \<and> locks g = locks (hart s)
    | Some i \<Rightarrow> scheduler_round s = Ok (Some i)
        (s\<lparr>hart := on_proc (Some i) (acq (Lproc i) (sched_hart (hart s))),
           con := outs (vip_text (procs s i)) (con s),
           procs := (procs s)(i := (procs s i)\<lparr>p_state := RUNNING\<rparr>)\<rparr>)"
proof -
  let ?h = "sched_hart (hart s)" and ?c = "champion (procs s) [0..<NPROC] None"
  have ok: "hart_ok ?h" using assms by (simp add: sched_ready_def)
  have "\<exists>g. scrub g = champion_hart (champion (procs (s\<lparr>hart := ?h\<rparr>)) [0..<NPROC] None) ?h
    \<and> select_loop [0..<NPROC] None (s\<lparr>hart := ?h\<rparr>)
      = Ok (champion (procs (s\<lparr>hart := ?h\<rparr>)) [0..<NPROC] None) (s\<lparr>hart := ?h\<rparr>\<lparr>hart := g\<rparr>)"
    by (rule select_loop_run[OF ok]) (use assms in \<open>simp_all add: sched_ready_def champion_hart_def\<close>)
  then obtain g where g: "scrub g = champion_hart ?c ?h"
    "select_loop [0..<NPROC] None (s\<lparr>hart := ?h\<rparr>) = Ok ?c (s\<lparr>hart := g\<rparr>)"
    by auto
  have r: "scheduler_round s = (case ?c of
      Some p \<Rightarrow> kthen (set_proc p (\<lambda>q. q\<lparr>p_state := RUNNING\<rparr>)) (
         kthen (set_mycpu (\<lambda>c. c\<lparr>cpu_proc := Some p\<rparr>)) (
         kbind (get_proc p) (\<lambda>pr.
         kthen (kwhen (5 < p_priority pr)
                  (printf vip_fmt [VaI (of_int (p_pid pr)), VaI (of_int (p_priority pr))]))
               (kret (Some p)))))
     | None \<Rightarrow> kthen intr_on (kret None)) (s\<lparr>hart := g\<rparr>)"
    using g(2) by (simp add: scheduler_round_def kthen_def kbind_def intr_on_run sched_hart_def)
  show ?thesis
  proof (cases ?c)
    case None
    have "locks (scrub g) = locks (scrub ?h)" using g(1) None by (simp add: champion_hart_def)
    then have "locks g = locks (hart s)" by simp
    then show ?thesis
      using r None
      by (auto simp: kthen_def kbind_def kret_def intr_on_run intro!: exI[of _ "g\<lparr>sie := (sie g)(tp g := True)\<rparr>"])
  next
    case (Some i)
    have "scrub g = acq (Lproc i) ?h" using g(1) Some by (simp add: champion_hart_def)
    then have ge: "g = acq (Lproc i) ?h" by (rule masked_scrub_eq) (simp add: ok)
    let ?t = "s\<lparr>procs := (procs s)(i := (procs s i)\<lparr>p_state := RUNNING\<rparr>), hart := on_proc (Some i) g\<rparr>"
    have t: "can_print ?t" "hart_ok (hart ?t)" "lock_free Lpr (hart ?t)" "masked (hart ?t)"
      using assms ok by (simp_all add: sched_ready_def can_print_def ge)
    have "printf vip_fmt args ?t = Ok () (?t\<lparr>con := outs (printed vip_fmt args) (con s)\<rparr>)" for args
      using printf_run[OF t(1-3)] t(4) by (simp add: scrub_masked)
    then have "scheduler_round s = Ok (Some i) (?t\<lparr>con := outs (vip_text (procs s i)) (con s)\<rparr>)"
      unfolding r Some
      by (simp add: kthen_def kbind_def kret_def set_proc_def get_proc_def set_cpu_proc_run vip_text_def)
    then show ?thesis using Some ge by simp
  qed
qed

text \<open>
  C15: a scheduler round with no process lock held always returns. It switches to a runnable process
  of the highest priority, the first such process of the table, after marking it running and
  current, and the only lock it has taken and kept is that process's lock; every other process is
  untouched. It picks nothing exactly when no process is runnable.
\<close>

theorem scheduler_picks_highest:
  assumes "sched_ready s"
  shows "\<exists>r s'. scheduler_round s = Ok r s' \<and>
    (case r of
       None \<Rightarrow> (\<forall>j<NPROC. p_state (procs s j) \<noteq> RUNNABLE) \<and> procs s' = procs s \<and> locks (hart s') = locks (hart s)
     | Some i \<Rightarrow> first_best (procs s) NPROC i
         \<and> procs s' = (procs s)(i := (procs s i)\<lparr>p_state := RUNNING\<rparr>)
         \<and> cpu_proc (cur (hart s')) = Some i \<and> held (Lproc i) (hart s')
         \<and> (\<forall>l. l \<noteq> Lproc i \<longrightarrow> locks (hart s') l = locks (hart s) l) \<and> noff (cur (hart s')) = 1)"
proof (cases "champion (procs s) [0..<NPROC] None")
  case None
  then show ?thesis using scheduler_round_run[OF assms] champion_spec[of NPROC "procs s"] by auto
next
  case (Some i)
  have "locks (acq (Lproc i) h) l = locks h l" if "l \<noteq> Lproc i" for l h
    using that by (simp add: acq_def)
  then show ?thesis
    using Some scheduler_round_run[OF assms] champion_spec[of NPROC "procs s"] assms
    by (auto simp: sched_ready_def)
qed


section \<open>Net effects of waking and killing\<close>

definition proc_ready :: "'z proc_machine_scheme \<Rightarrow> bool" where
  "proc_ready s \<longleftrightarrow> hart_ok (hart s) \<and> (\<forall>p<NPROC. cpu_proc (cur (hart s)) \<noteq> Some p \<longrightarrow> lock_free (Lproc p) (hart s))"

definition woken :: "nat option \<Rightarrow> chan \<Rightarrow> nat set \<Rightarrow> (nat \<Rightarrow> proc) \<Rightarrow> nat \<Rightarrow> proc" where
  "woken me ch A P = (\<lambda>p. if p \<in> A \<and> me \<noteq> Some p \<and> p_state (P p) = SLEEPING \<and> p_chan (P p) = ch
     then (P p)\<lparr>p_state := RUNNABLE\<rparr> else P p)"

lemma cpu_proc_scrub [simp]: "cpu_proc (cur (scrub h)) = cpu_proc (cur h)"
  by (simp add: hart_defs)

lemma woken_empty [simp]: "woken me ch {} P = P"
  by (simp add: woken_def)

lemma wakeup_for_run:
  "hart_ok (hart s) \<Longrightarrow> \<forall>p\<in>set ps. cpu_proc (cur (hart s)) \<noteq> Some p \<longrightarrow> lock_free (Lproc p) (hart s) \<Longrightarrow>
   ps \<noteq> [] \<Longrightarrow> distinct ps \<Longrightarrow>
   kfor ps (wake_one ch) s
   = Ok () (s\<lparr>hart := scrub (hart s), procs := woken (cpu_proc (cur (hart s))) ch (set ps) (procs s)\<rparr>)"
proof (induction ps arbitrary: s)
  case (Cons p ps)
  let ?me = "cpu_proc (cur (hart s))"
  define t where "t = s\<lparr>hart := scrub (hart s), procs := woken ?me ch {p} (procs s)\<rparr>"
  have one: "wake_one ch p s = Ok () t"
  proof (cases "?me = Some p")
    case True
    then have "woken ?me ch {p} (procs s) = procs s" by (simp add: woken_def fun_eq_iff)
    then show ?thesis using True Cons.prems(1) by (simp add: wake_one_def t_def kbind_def myproc_run)
  next
    case False
    then have "woken ?me ch {p} (procs s) =
      (if p_state (procs s p) = SLEEPING \<and> p_chan (procs s p) = ch
       then (procs s)(p := (procs s p)\<lparr>p_state := RUNNABLE\<rparr>) else procs s)" by (auto simp: woken_def)
    then show ?thesis
      using False Cons.prems(1,2)
      by (simp add: wake_one_def t_def kbind_def kthen_def myproc_run acquire_run release_run get_proc_def set_proc_def)
  qed
  have w: "woken ?me ch (set ps) (woken ?me ch {p} (procs s)) = woken ?me ch (set (p # ps)) (procs s)"
    using Cons.prems(4) by (auto simp: woken_def fun_eq_iff)
  show ?case
  proof (cases "ps = []")
    case True
    then show ?thesis by (simp add: kthen_def kbind_def one kret_def t_def)
  next
    case False
    then show ?thesis
      using Cons.IH[of t] Cons.prems by (simp add: kthen_def kbind_def one) (simp add: t_def w)
  qed
qed simp

lemma wakeup_run:
  assumes "proc_ready s"
  shows "wakeup ch s = Ok () (s\<lparr>hart := scrub (hart s),
    procs := woken (cpu_proc (cur (hart s))) ch {..<NPROC} (procs s)\<rparr>)"
proof -
  have "set [0..<NPROC] = {..<NPROC}" "[0..<NPROC] \<noteq> []" by (auto simp: NPROC_def)
  then show ?thesis
    using assms wakeup_for_run[of s "[0..<NPROC]" ch] unfolding wakeup_def proc_ready_def by auto
qed

text \<open>\<^verbatim>\<open>kkill\<close> acts on the first slot with the given pid.\<close>

definition killed_proc :: "proc \<Rightarrow> proc" where
  "killed_proc q = q\<lparr>p_killed := 1, p_state := (if p_state q = SLEEPING then RUNNABLE else p_state q)\<rparr>"

lemma kkill_loop_run:
  "hart_ok (hart s) \<Longrightarrow> \<forall>p\<in>set ps. lock_free (Lproc p) (hart s) \<Longrightarrow>
   kkill_loop ps pid s = (case List.find (\<lambda>p. p_pid (procs s p) = pid) ps of
       None \<Rightarrow> Ok (- 1) (if ps = [] then s else s\<lparr>hart := scrub (hart s)\<rparr>)
     | Some p \<Rightarrow> Ok 0 (s\<lparr>hart := scrub (hart s), procs := (procs s)(p := killed_proc (procs s p))\<rparr>))"
proof (induction ps arbitrary: s)
  case Nil
  then show ?case by (simp add: kret_def)
next
  case (Cons p ps)
  have a: "acquire (Lproc p) s = Ok () (s\<lparr>hart := acq (Lproc p) (hart s)\<rparr>)"
    using Cons.prems(2) by (intro acquire_run) simp
  show ?case
  proof (cases "p_pid (procs s p) = pid")
    case True
    then show ?thesis
      using Cons.prems
      by (simp add: kthen_def kbind_def kret_def a release_run get_proc_def set_proc_def killed_proc_def)
  next
    case False
    then have "kkill_loop (p # ps) pid s = kkill_loop ps pid (s\<lparr>hart := scrub (hart s)\<rparr>)"
      using Cons.prems by (simp add: kthen_def kbind_def a release_run get_proc_def)
    also have "\<dots> = (case List.find (\<lambda>p. p_pid (procs s p) = pid) ps of
       None \<Rightarrow> Ok (- 1) (s\<lparr>hart := scrub (hart s)\<rparr>)
     | Some p \<Rightarrow> Ok 0 (s\<lparr>hart := scrub (hart s), procs := (procs s)(p := killed_proc (procs s p))\<rparr>))"
      using Cons.IH[of "s\<lparr>hart := scrub (hart s)\<rparr>"] Cons.prems by (simp split: option.splits)
    finally show ?thesis using False by simp
  qed
qed

definition table_free :: "'z proc_machine_scheme \<Rightarrow> bool" where
  "table_free s \<longleftrightarrow> hart_ok (hart s) \<and> (\<forall>p<NPROC. lock_free (Lproc p) (hart s))"

lemma kkill_run:
  assumes "table_free s"
  shows "kkill pid s = (case List.find (\<lambda>p. p_pid (procs s p) = pid) [0..<NPROC] of
       None \<Rightarrow> Ok (- 1) (s\<lparr>hart := scrub (hart s)\<rparr>)
     | Some p \<Rightarrow> Ok 0 (s\<lparr>hart := scrub (hart s), procs := (procs s)(p := killed_proc (procs s p))\<rparr>))"
proof -
  have "[0..<NPROC] \<noteq> []" by (simp add: NPROC_def)
  then show ?thesis
    using kkill_loop_run[of s "[0..<NPROC]" pid] assms by (simp add: kkill_def table_free_def split: option.splits)
qed

lemma find_first:
  "List.find P [0..<n] = Some i \<longleftrightarrow> i < n \<and> P i \<and> (\<forall>j<i. \<not> P j)"
  "List.find P [0..<n] = None \<longleftrightarrow> (\<forall>j<n. \<not> P j)"
proof -
  show "List.find P [0..<n] = None \<longleftrightarrow> (\<forall>j<n. \<not> P j)" by (auto simp: find_None_iff)
  show "List.find P [0..<n] = Some i \<longleftrightarrow> i < n \<and> P i \<and> (\<forall>j<i. \<not> P j)"
    by (auto simp: find_Some_iff)
qed

text \<open>
  C31: \<^verbatim>\<open>kkill\<close> returns -1 and changes no process when no slot has the pid. Otherwise it returns 0, sets
  the kill flag of the first slot with that pid, makes it runnable if it was asleep, and changes no
  other process. All locks are released.
\<close>

theorem kkill_effect:
  assumes "table_free s"
  shows "\<exists>r s'. kkill pid s = Ok r s' \<and> locks (hart s') = locks (hart s) \<and>
    (if \<forall>p<NPROC. p_pid (procs s p) \<noteq> pid then r = - 1 \<and> procs s' = procs s
     else r = 0 \<and> (\<exists>p<NPROC. p_pid (procs s p) = pid \<and> (\<forall>j<p. p_pid (procs s j) \<noteq> pid)
        \<and> procs s' = (procs s)(p := killed_proc (procs s p))))"
proof (cases "List.find (\<lambda>p. p_pid (procs s p) = pid) [0..<NPROC]")
  case None
  then show ?thesis using kkill_run[OF assms, of pid] None[unfolded find_first(2)] by auto
next
  case (Some p)
  then show ?thesis using kkill_run[OF assms, of pid] Some[unfolded find_first(1)] by auto
qed


section \<open>Sleeping\<close>

lemma sleep_run:
  assumes "hart s = acq lk h" "hart_ok h" "noff (cur h) = 0" "cpu_proc (cur h) = Some p"
    "lock_free lk h" "lock_free (Lproc p) h" "lk \<noteq> Lproc p"
  shows "sleep ch lk s = Stop Switched (s\<lparr>hart := acq (Lproc p) h,
    procs := (procs s)(p := (procs s p)\<lparr>p_chan := ch, p_state := SLEEPING\<rparr>)\<rparr>)"
proof -
  have cp: "cpu_proc (cur (acq l h)) = Some p" for l using assms(4) by (simp add: acq_def cur_def pushed_def)
  have sc: "scrub (acq l h) = acq l h" for l using assms(2) by simp
  have r: "rel lk (acq (Lproc p) (acq lk h)) = acq (Lproc p) h"
    using assms(2,5,7) by (intro rel_acq_acq) auto
  have m: "masked (acq (Lproc p) (acq lk h))" "hart_ok (acq lk h)" "hart_ok (acq (Lproc p) h)"
    "\<not> sie (acq (Lproc p) h) (tp h)"
    using assms(2) by (simp_all add: masked_def[symmetric]) (simp add: acq_def pushed_def)
  have sl: "sched (s\<lparr>hart := acq (Lproc p) h, procs := P\<rparr>) = Stop Switched (s\<lparr>hart := acq (Lproc p) h, procs := P\<rparr>)"
    if "p_state (P p) = SLEEPING" for P
    using that assms(3) cp sc m held_effects(1)[of "Lproc p" "Lproc p" h]
    by (simp add: sched_def kbind_def this_proc_run holding_def get_lock_def cpuid_def kret_def mycpu_def
        get_proc_def intr_get_def kstop_def held_def flip: cur_def)
  show ?thesis
    using assms sl
    by (simp add: sleep_def kbind_def kthen_def this_proc_run cp sc acquire_run release_run m r set_proc_def)
qed

lemma scheduler_return_run:
  assumes "hart t = acq (Lproc p) h" "hart_ok h" "lock_free (Lproc p) h"
  shows "\<exists>g. scheduler_return p t = Ok () (t\<lparr>hart := g\<rparr>) \<and> locks g = locks h"
proof -
  have "release (Lproc p) (t\<lparr>hart := on_proc None (acq (Lproc p) h)\<rparr>)
      = Ok () (t\<lparr>hart := rel (Lproc p) (on_proc None (acq (Lproc p) h))\<rparr>)"
    using assms(2) by (subst release_run) simp_all
  moreover have "locks (rel (Lproc p) (on_proc None (acq (Lproc p) h))) = locks h"
    using assms(3) by (auto simp: rel_def acq_def on_proc_def popped_def pushed_def lock_free_def fun_eq_iff
        intro!: spinlock.equality)
  ultimately show ?thesis
    using assms(1)
    by (intro exI[of _ "rel (Lproc p) (on_proc None (acq (Lproc p) h))"])
      (simp add: scheduler_return_def kthen_def kbind_def set_cpu_proc_run)
qed


text \<open>
  C32: \<^verbatim>\<open>wakeup\<close> makes every process asleep on the channel runnable, except the caller, and leaves every
  other process and all locks as they were.
\<close>

theorem wakeup_effect:
  assumes "proc_ready s"
  shows "\<exists>s'. wakeup ch s = Ok () s' \<and> locks (hart s') = locks (hart s)
    \<and> (\<forall>p. procs s' p = (if p < NPROC \<and> cpu_proc (cur (hart s)) \<noteq> Some p
           \<and> p_state (procs s p) = SLEEPING \<and> p_chan (procs s p) = ch
         then (procs s p)\<lparr>p_state := RUNNABLE\<rparr> else procs s p))"
  using wakeup_run[OF assms, of ch] by (simp add: woken_def)

section \<open>Witnesses\<close>

text \<open>A machine whose table holds the given processes and whose hart runs process \<open>me\<close>.\<close>

definition demo_table :: "(nat \<Rightarrow> proc) \<Rightarrow> nat option \<Rightarrow> proc_machine" where
  "demo_table P me = \<lparr>hart = on_proc me hart0, con = con0, mem = (\<lambda>_. 0),
     kmem = \<lparr>freelist = 0, free_pages_count = 0\<rparr>, ref_counts = (\<lambda>_. 0), kend = 0x80030000,
     procs = P, nextpid = 1, initproc = None, kernel_pagetable = 0, ticks = 0, fork_first = True,
     etext = 0, trampoline = 0, fn_forkret = 0, fn_usertrap = 0, fn_kernelvec = 0, off_uservec = 0,
     off_userret = 0, satp = 0, stvec = 0, sepc = 0, sstatus_spp = False, sstatus_spie = False,
     scause = 0, stval = 0\<rparr>"

lemma demo_table_simps [simp]:
  "procs (demo_table P me) = P" "hart (demo_table P me) = on_proc me hart0"
  "can_print (demo_table P me)"
  by (simp_all add: demo_table_def can_print_def con0_def)

lemma noff_hart0 [simp]: "noff (cur hart0) = 0"
  by (simp add: hart0_def cur_def)

lemma demo_table_ready [simp]:
  "sched_ready (demo_table P me)" "proc_ready (demo_table P me)" "table_free (demo_table P me)"
  by (simp_all add: sched_ready_def proc_ready_def table_free_def)

definition runnable_at :: "int \<Rightarrow> proc" where
  "runnable_at pr = proc0\<lparr>p_state := RUNNABLE, p_pid := 3, p_priority := pr\<rparr>"

text \<open>Process 2 has the higher priority, process 1 comes first among the others.\<close>

definition demo_procs :: "nat \<Rightarrow> proc" where
  "demo_procs = (\<lambda>_. proc0)(1 := runnable_at 1, 2 := runnable_at 10, 3 := runnable_at 1)"

lemma demo_best: "first_best demo_procs NPROC 2"
  by (auto simp: first_best_def demo_procs_def runnable_at_def proc0_def NPROC_def)

theorem scheduler_picks_highest_witness:
  "\<exists>s'. scheduler_round (demo_table demo_procs None) = Ok (Some 2) s' \<and> held (Lproc 2) (hart s')"
proof -
  obtain r s' where r: "scheduler_round (demo_table demo_procs None) = Ok r s'"
    "case r of None \<Rightarrow> \<forall>j<NPROC. p_state (demo_procs j) \<noteq> RUNNABLE
       | Some i \<Rightarrow> first_best demo_procs NPROC i \<and> held (Lproc i) (hart s')"
    using scheduler_picks_highest[of "demo_table demo_procs None"] by (auto split: option.splits)
  moreover have "r \<noteq> None" using r(2) demo_best by (cases r) (auto simp: first_best_def)
  ultimately show ?thesis using first_best_unique[OF demo_best] by auto
qed


theorem kkill_effect_witness:
  "\<exists>r s'. kkill 7 (demo_table demo_procs None) = Ok r s' \<and> r = - 1"
  using kkill_effect[of "demo_table demo_procs None" 7]
  by (auto simp: demo_procs_def runnable_at_def proc0_def split: if_splits)


theorem wakeup_effect_witness:
  "\<exists>s'. wakeup ChLog (demo_table demo_procs None) = Ok () s' \<and> p_state (procs s' 2) = RUNNABLE"
  using wakeup_effect[of "demo_table demo_procs None" ChLog]
  by (auto simp: demo_procs_def runnable_at_def)


end
