(* ===== verification/Sleeplock.thy ===== *)
theory Sleeplock
  imports Sched
begin

text \<open>
  Sleep locks, \<^verbatim>\<open>kernel/sleeplock.c\<close>. The locks are those of the buffers and of the inodes. The wait
  loop of \<^verbatim>\<open>acquiresleep\<close> is split at \<^verbatim>\<open>sleep\<close>: the call stops there when the lock is taken, and
  \<open>acquiresleep_resume\<close> is the thread when it runs again. The lemmas give the net effect of each
  operation for a thread that finds the lock free.
\<close>

record sleeplock =
  sl_locked :: bool
  sl_name :: string
  sl_pid :: int

record sl_machine = proc_machine +
  sleeplocks :: "sleeplock_id \<Rightarrow> sleeplock"

definition set_sleeplock :: "sleeplock_id \<Rightarrow> (sleeplock \<Rightarrow> sleeplock) \<Rightarrow> ('z sl_machine_scheme, unit) kern" where
  "set_sleeplock i f = kmod (\<lambda>s. s\<lparr>sleeplocks := (sleeplocks s)(i := f (sleeplocks s i))\<rparr>)"

definition initsleeplock :: "sleeplock_id \<Rightarrow> string \<Rightarrow> ('z sl_machine_scheme, unit) kern" where
  "initsleeplock i nm =
     kthen (initlock (Lsleep i) ''sleep lock'')
           (set_sleeplock i (\<lambda>l. l\<lparr>sl_name := nm, sl_locked := False, sl_pid := 0\<rparr>))"

definition acquiresleep_loop :: "sleeplock_id \<Rightarrow> ('z sl_machine_scheme, unit) kern" where
  "acquiresleep_loop i =
     kbind (kget (\<lambda>s. sl_locked (sleeplocks s i))) (\<lambda>taken.
     if taken then sleep (ChSleeplock i) (Lsleep i) else
     kthen (set_sleeplock i (\<lambda>l. l\<lparr>sl_locked := True\<rparr>)) (
     kbind this_proc (\<lambda>p.
     kbind (get_proc p) (\<lambda>pr.
     kthen (set_sleeplock i (\<lambda>l. l\<lparr>sl_pid := p_pid pr\<rparr>))
           (release (Lsleep i))))))"

definition acquiresleep :: "sleeplock_id \<Rightarrow> ('z sl_machine_scheme, unit) kern" where
  "acquiresleep i = kthen (acquire (Lsleep i)) (acquiresleep_loop i)"

definition acquiresleep_resume :: "nat \<Rightarrow> bool \<Rightarrow> sleeplock_id \<Rightarrow> ('z sl_machine_scheme, unit) kern" where
  "acquiresleep_resume p saved i = kthen (sleep_resume p (Lsleep i) saved) (acquiresleep_loop i)"

definition releasesleep :: "sleeplock_id \<Rightarrow> ('z sl_machine_scheme, unit) kern" where
  "releasesleep i =
     kthen (acquire (Lsleep i)) (
     kthen (set_sleeplock i (\<lambda>l. l\<lparr>sl_locked := False\<rparr>)) (
     kthen (set_sleeplock i (\<lambda>l. l\<lparr>sl_pid := 0\<rparr>)) (
     kthen (wakeup (ChSleeplock i))
           (release (Lsleep i)))))"

definition holdingsleep :: "sleeplock_id \<Rightarrow> ('z sl_machine_scheme, bool) kern" where
  "holdingsleep i =
     kthen (acquire (Lsleep i)) (
     kbind (kget (\<lambda>s. sleeplocks s i)) (\<lambda>l.
     kbind this_proc (\<lambda>p.
     kbind (get_proc p) (\<lambda>pr.
     kthen (release (Lsleep i))
           (kret (sl_locked l \<and> sl_pid l = p_pid pr))))))"

section \<open>Threads that run undisturbed\<close>

text \<open>
  A thread of process \<open>p\<close> with every spin lock free, and no process asleep: its wakeups find
  nobody, so that its calls change only what they say.
\<close>

definition solo :: "nat \<Rightarrow> 'z proc_machine_scheme \<Rightarrow> bool" where
  "solo p s \<longleftrightarrow> hart_ok (hart s) \<and> cpu_proc (cur (hart s)) = Some p \<and> (\<forall>l. lock_free l (hart s))
     \<and> (\<forall>q. p_state (procs s q) \<noteq> SLEEPING) \<and> can_print s"

lemma soloD:
  "solo p s \<Longrightarrow> hart_ok (hart s)" "solo p s \<Longrightarrow> cpu_proc (cur (hart s)) = Some p"
  "solo p s \<Longrightarrow> lock_free l (hart s)" "solo p s \<Longrightarrow> can_print s"
  "solo p s \<Longrightarrow> p_state (procs s q) \<noteq> SLEEPING"
  by (simp_all add: solo_def)

text \<open>Scrubbing the harts and changing anything but locks, processes and the console flags keeps it.\<close>

lemma solo_cong:
  "solo p s \<Longrightarrow> scrub (hart t) = scrub (hart s) \<Longrightarrow> procs t = procs s \<Longrightarrow>
   panicking (con t) = panicking (con s) \<Longrightarrow> panicked (con t) = panicked (con s) \<Longrightarrow> solo p t"
  unfolding solo_def can_print_def
  by (metis cpu_proc_scrub hart_ok_effects(3) lock_free_effects(3))

lemma woken_none: "(\<And>q. p_state (P q) \<noteq> SLEEPING) \<Longrightarrow> woken me ch A P = P"
  by (simp add: woken_def fun_eq_iff)

lemma cpu_proc_cur_acq [simp]: "cpu_proc (cur (acq l h)) = cpu_proc (cur h)"
  by (simp add: acq_def pushed_def cur_def)

lemma wakeup_solo_locked:
  assumes "hart t = acq lk h" "hart_ok h" "\<And>q. lock_free (Lproc q) (acq lk h)" "\<And>q. p_state (procs t q) \<noteq> SLEEPING"
  shows "wakeup ch t = Ok () t"
proof -
  have "proc_ready t" using assms by (simp add: proc_ready_def)
  then show ?thesis using wakeup_run[of t ch] woken_none[of "procs t"] assms by simp
qed

lemma this_proc_locked:
  "hart t = acq lk h \<Longrightarrow> hart_ok h \<Longrightarrow> cpu_proc (cur h) = Some p \<Longrightarrow> this_proc t = Ok p t"
  using this_proc_run[of t p] by simp

lemma acquiresleep_run:
  assumes "solo p s" "\<not> sl_locked (sleeplocks s i)"
  shows "acquiresleep i s = Ok () (s\<lparr>hart := scrub (hart s), sleeplocks := (sleeplocks s)(i :=
    (sleeplocks s i)\<lparr>sl_locked := True, sl_pid := p_pid (procs s p)\<rparr>)\<rparr>)"
  using assms(2) soloD[OF assms(1)]
  by (simp add: acquiresleep_def acquiresleep_loop_def kthen_def kbind_def acquire_run set_sleeplock_def
      this_proc_run get_proc_def release_run)

lemma releasesleep_run:
  assumes "solo p s"
  shows "releasesleep i s = Ok () (s\<lparr>hart := scrub (hart s), sleeplocks := (sleeplocks s)(i :=
    (sleeplocks s i)\<lparr>sl_locked := False, sl_pid := 0\<rparr>)\<rparr>)"
proof -
  define t where "t = s\<lparr>hart := acq (Lsleep i) (hart s), sleeplocks := (sleeplocks s)(i :=
    (sleeplocks s i)\<lparr>sl_locked := False, sl_pid := 0\<rparr>)\<rparr>"
  have w: "wakeup (ChSleeplock i) t = Ok () t"
  proof (rule wakeup_solo_locked)
    show "hart t = acq (Lsleep i) (hart s)" by (simp add: t_def)
    show "hart_ok (hart s)" "lock_free (Lproc q) (acq (Lsleep i) (hart s))" for q
      using soloD[OF assms] by simp_all
    show "p_state (procs t q) \<noteq> SLEEPING" for q using soloD[OF assms] by (simp add: t_def)
  qed
  have "releasesleep i s = kthen (wakeup (ChSleeplock i)) (release (Lsleep i)) t"
    using soloD[OF assms] by (simp add: releasesleep_def kthen_def kbind_def acquire_run set_sleeplock_def t_def)
  also have "\<dots> = release (Lsleep i) t" using w by (simp add: kthen_def kbind_def)
  also have "\<dots> = Ok () (t\<lparr>hart := rel (Lsleep i) (hart t)\<rparr>)"
    using soloD[OF assms] by (intro release_run) (simp_all add: t_def)
  finally show ?thesis using soloD[OF assms] by (simp add: t_def)
qed

lemma holdingsleep_run:
  assumes "solo p s"
  shows "holdingsleep i s =
    Ok (sl_locked (sleeplocks s i) \<and> sl_pid (sleeplocks s i) = p_pid (procs s p)) (s\<lparr>hart := scrub (hart s)\<rparr>)"
  using soloD[OF assms]
  by (simp add: holdingsleep_def kthen_def kbind_def kret_def acquire_run this_proc_run get_proc_def release_run)

end
