(* ===== verification/Disk.thy ===== *)
theory Disk
  imports Sleeplock
begin

text \<open>
  The virtio disk driver, \<^verbatim>\<open>kernel/virtio_disk.c\<close>, with the structures it shares with the device
  (\<^verbatim>\<open>kernel/virtio.h\<close>) and the buffers it moves (\<^verbatim>\<open>kernel/buf.h\<close>). The queue pages are typed arrays; an
  address in a descriptor names the object it points to. The device is hardware: a function of the
  queues, the buffers and the disk image, a field of the state that no operation changes. The disk
  image is an initial content and the list of the writes made since, so that a crash leaves a prefix
  of that list. The lemmas show that a request on an idle queue of a conforming device moves exactly
  its block and leaves the queue idle.
\<close>

section \<open>State\<close>

definition BSIZE :: nat where "BSIZE = 1024"
definition NUM :: nat where "NUM = 8"
definition VRING_DESC_F_NEXT :: u16 where "VRING_DESC_F_NEXT = 1"
definition VRING_DESC_F_WRITE :: u16 where "VRING_DESC_F_WRITE = 2"
definition VIRTIO_BLK_T_IN :: u32 where "VIRTIO_BLK_T_IN = 0"
definition VIRTIO_BLK_T_OUT :: u32 where "VIRTIO_BLK_T_OUT = 1"

record buf =
  b_valid :: bool
  b_disk :: bool
  b_dev :: u32
  b_blockno :: u32
  b_refcnt :: u32
  b_prev :: nat
  b_next :: nat
  b_data :: "u8 list"

datatype vaddr = ANull | AOps nat | AData nat | AStatus nat

record virtq_desc =
  d_addr :: vaddr
  d_len :: u32
  d_flags :: u16
  d_next :: u16

record virtio_blk_req =
  r_type :: u32
  r_reserved :: u32
  r_sector :: u64

text \<open>\<^verbatim>\<open>struct disk\<close> with the two rings; \<open>vd_seen\<close> is how far the device has read the available ring.\<close>

record vdisk =
  vd_desc :: "nat \<Rightarrow> virtq_desc"
  vd_avail_idx :: u16
  vd_avail_ring :: "nat \<Rightarrow> u16"
  vd_used_dev :: u16
  vd_used_ring :: "nat \<Rightarrow> u32"
  vd_free :: "nat \<Rightarrow> bool"
  vd_used_idx :: u16
  vd_info_b :: "nat \<Rightarrow> nat option"
  vd_info_status :: "nat \<Rightarrow> u8"
  vd_ops :: "nat \<Rightarrow> virtio_blk_req"
  vd_seen :: u16

record diskimg =
  img_base :: "u64 \<Rightarrow> u8 list"
  img_writes :: "(u64 \<times> u8 list) list"

definition img_read :: "diskimg \<Rightarrow> u64 \<Rightarrow> u8 list" where
  "img_read d sec = (case map_of (rev (img_writes d)) sec of None \<Rightarrow> img_base d sec | Some x \<Rightarrow> x)"

definition img_write :: "u64 \<Rightarrow> u8 list \<Rightarrow> diskimg \<Rightarrow> diskimg" where
  "img_write sec x d = d\<lparr>img_writes := img_writes d @ [(sec, x)]\<rparr>"

type_synonym device_fn = "vdisk \<Rightarrow> (nat \<Rightarrow> buf) \<Rightarrow> diskimg \<Rightarrow> vdisk \<times> (nat \<Rightarrow> buf) \<times> diskimg"

text \<open>The device registers: what a read returns after the writes made so far.\<close>

record disk_machine = sl_machine +
  vdisk :: vdisk
  bufs :: "nat \<Rightarrow> buf"
  disk_img :: diskimg
  device :: device_fn
  mmio_read :: "(u32 \<times> u32) list \<Rightarrow> u32 \<Rightarrow> u32"
  mmio_writes :: "(u32 \<times> u32) list"

definition set_vdisk :: "(vdisk \<Rightarrow> vdisk) \<Rightarrow> ('z disk_machine_scheme, unit) kern" where
  "set_vdisk f = kmod (\<lambda>s. s\<lparr>vdisk := f (vdisk s)\<rparr>)"

definition set_buf :: "nat \<Rightarrow> (buf \<Rightarrow> buf) \<Rightarrow> ('z disk_machine_scheme, unit) kern" where
  "set_buf b f = kmod (\<lambda>s. s\<lparr>bufs := (bufs s)(b := f (bufs s b))\<rparr>)"

definition get_buf :: "nat \<Rightarrow> ('z disk_machine_scheme, buf) kern" where
  "get_buf b = kget (\<lambda>s. bufs s b)"

section \<open>Initialisation\<close>

definition reg_read :: "u32 \<Rightarrow> ('z disk_machine_scheme, u32) kern" where
  "reg_read r = kget (\<lambda>s. mmio_read s (mmio_writes s) r)"

definition reg_write :: "u32 \<Rightarrow> u32 \<Rightarrow> ('z disk_machine_scheme, unit) kern" where
  "reg_write r v = kmod (\<lambda>s. s\<lparr>mmio_writes := mmio_writes s @ [(r, v)]\<rparr>)"

text \<open>The pages of the three queues are cleared both as memory and as the arrays of \<^verbatim>\<open>struct disk\<close>.\<close>

definition no_desc :: virtq_desc where
  "no_desc = \<lparr>d_addr = ANull, d_len = 0, d_flags = 0, d_next = 0\<rparr>"

definition driver_features :: "u32 \<Rightarrow> u32" where
  "driver_features f =
     f AND NOT (push_bit 5 1) AND NOT (push_bit 7 1) AND NOT (push_bit 11 1) AND NOT (push_bit 12 1)
       AND NOT (push_bit 27 1) AND NOT (push_bit 29 1) AND NOT (push_bit 28 1)"

definition virtio_disk_init :: "('z disk_machine_scheme, unit) kern" where
  "virtio_disk_init =
     kthen (initlock Lvdisk ''virtio_disk'') (
     kbind (reg_read 0x000) (\<lambda>magic.
     kbind (reg_read 0x004) (\<lambda>version.
     kbind (reg_read 0x008) (\<lambda>devid.
     kbind (reg_read 0x00c) (\<lambda>vendor.
     if magic \<noteq> 0x74726976 \<or> version \<noteq> 2 \<or> devid \<noteq> 2 \<or> vendor \<noteq> 0x554d4551
     then kpanic ''could not find virtio disk'' else
     kthen (reg_write 0x070 0) (
     kthen (reg_write 0x070 1) (
     kthen (reg_write 0x070 3) (
     kbind (reg_read 0x010) (\<lambda>features.
     kthen (reg_write 0x020 (driver_features features)) (
     kthen (reg_write 0x070 11) (
     kbind (reg_read 0x070) (\<lambda>status.
     if status AND 8 = 0 then kpanic ''virtio disk FEATURES_OK unset'' else
     kthen (reg_write 0x030 0) (
     kbind (reg_read 0x044) (\<lambda>queue_ready.
     if queue_ready \<noteq> 0 then kpanic ''virtio disk should not be ready'' else
     kbind (reg_read 0x034) (\<lambda>most.
     if most = 0 then kpanic ''virtio disk has no queue 0''
     else if most < 8 then kpanic ''virtio disk max queue too short'' else
     kbind kalloc (\<lambda>desc.
     kbind kalloc (\<lambda>avail.
     kbind kalloc (\<lambda>used.
     if desc = 0 \<or> avail = 0 \<or> used = 0 then kpanic ''virtio disk kalloc'' else
     kthen (zero_page desc) (
     kthen (zero_page avail) (
     kthen (zero_page used) (
     kthen (set_vdisk (\<lambda>v. v\<lparr>vd_desc := \<lambda>_. no_desc, vd_avail_idx := 0, vd_avail_ring := \<lambda>_. 0,
        vd_used_dev := 0, vd_used_ring := \<lambda>_. 0\<rparr>)) (
     kthen (reg_write 0x038 8) (
     kthen (reg_write 0x080 (ucast desc)) (
     kthen (reg_write 0x084 (ucast (drop_bit 32 desc))) (
     kthen (reg_write 0x090 (ucast avail)) (
     kthen (reg_write 0x094 (ucast (drop_bit 32 avail))) (
     kthen (reg_write 0x0a0 (ucast used)) (
     kthen (reg_write 0x0a4 (ucast (drop_bit 32 used))) (
     kthen (reg_write 0x044 1) (
     kthen (kfor [0..<NUM] (\<lambda>i. set_vdisk (\<lambda>v. v\<lparr>vd_free := (vd_free v)(i := True)\<rparr>)))
           (reg_write 0x070 (status OR 4))))))))))))))))))))))))))))))))"

section \<open>Descriptors\<close>

definition alloc_desc :: "('z disk_machine_scheme, nat option) kern" where
  "alloc_desc =
     kbind (kget (\<lambda>s. List.find (vd_free (vdisk s)) [0..<NUM])) (\<lambda>r.
     case r of None \<Rightarrow> kret None
     | Some i \<Rightarrow> kthen (set_vdisk (\<lambda>v. v\<lparr>vd_free := (vd_free v)(i := False)\<rparr>)) (kret (Some i)))"

definition free_desc :: "nat \<Rightarrow> ('z disk_machine_scheme, unit) kern" where
  "free_desc i =
     (if NUM \<le> i then kpanic ''free_desc 1'' else
      kbind (kget (\<lambda>s. vd_free (vdisk s) i)) (\<lambda>fr.
      if fr then kpanic ''free_desc 2'' else
      kthen (set_vdisk (\<lambda>v. v\<lparr>vd_desc := (vd_desc v)(i := no_desc), vd_free := (vd_free v)(i := True)\<rparr>))
            (wakeup ChDiskFree)))"

text \<open>
  A chain visits each descriptor at most once: the second visit of one finds it free and panics.
  Nine rounds are therefore enough for the loop of \<^verbatim>\<open>free_chain\<close>.
\<close>

primrec free_chain_loop :: "nat \<Rightarrow> nat \<Rightarrow> ('z disk_machine_scheme, unit) kern" where
  "free_chain_loop 0 i = kstop Frozen"
| "free_chain_loop (Suc n) i =
     kbind (kget (\<lambda>s. vd_desc (vdisk s) i)) (\<lambda>d.
     kthen (free_desc i)
           (if d_flags d AND VRING_DESC_F_NEXT \<noteq> 0 then free_chain_loop n (unat (d_next d)) else kret ()))"

definition free_chain :: "nat \<Rightarrow> ('z disk_machine_scheme, unit) kern" where
  "free_chain i = free_chain_loop 9 i"

definition alloc3_desc :: "('z disk_machine_scheme, (nat \<times> nat \<times> nat) option) kern" where
  "alloc3_desc =
     kbind alloc_desc (\<lambda>a. case a of None \<Rightarrow> kret None | Some i0 \<Rightarrow>
     kbind alloc_desc (\<lambda>b. case b of None \<Rightarrow> kthen (free_desc i0) (kret None) | Some i1 \<Rightarrow>
     kbind alloc_desc (\<lambda>c. case c of
         None \<Rightarrow> kthen (free_desc i0) (kthen (free_desc i1) (kret None))
       | Some i2 \<Rightarrow> kret (Some (i0, i1, i2)))))"

section \<open>Interrupts and requests\<close>

definition intr_one :: "u16 \<Rightarrow> ('z disk_machine_scheme, unit) kern" where
  "intr_one u =
     kbind (kget (\<lambda>s. unat (vd_used_ring (vdisk s) (unat u mod NUM)))) (\<lambda>i.
     kbind (kget (\<lambda>s. vdisk s)) (\<lambda>v.
     if vd_info_status v i \<noteq> 0 then kpanic ''virtio_disk_intr status'' else
     case vd_info_b v i of
       None \<Rightarrow> kpanic ''kerneltrap''
     | Some b \<Rightarrow>
         kthen (set_buf b (\<lambda>x. x\<lparr>b_disk := False\<rparr>)) (
         kthen (wakeup (ChBuf b))
               (set_vdisk (\<lambda>v. v\<lparr>vd_used_idx := vd_used_idx v + 1\<rparr>)))))"

text \<open>
  The device does not run while the handler does, so the entries of the used ring are those that are
  there when the loop starts. The acknowledgement of the interrupt is a register write.
\<close>

definition virtio_disk_intr :: "('z disk_machine_scheme, unit) kern" where
  "virtio_disk_intr =
     kthen (acquire Lvdisk) (
     kbind (reg_read 0x060) (\<lambda>st.
     kthen (reg_write 0x064 (st AND 3)) (
     kbind (kget (\<lambda>s. vdisk s)) (\<lambda>v.
     kthen (kfor (map (\<lambda>k. vd_used_idx v + of_nat k) [0..<unat (vd_used_dev v - vd_used_idx v)]) intr_one)
           (release Lvdisk)))))"

text \<open>The device works on the queues, and raises its interrupt.\<close>

definition run_device :: "('z disk_machine_scheme, unit) kern" where
  "run_device = kmod (\<lambda>s. case device s (vdisk s) (bufs s) (disk_img s) of (v, bs, im) \<Rightarrow>
     s\<lparr>vdisk := v, bufs := bs, disk_img := im\<rparr>)"

text \<open>
  The wait for the request, \<^verbatim>\<open>while(b->disk == 1) sleep(b, &disk.vdisk_lock)\<close>. A sleep that an
  interrupt of the device ends is the release of the lock, the work of the device, the handler, and
  the lock taken again; after \<open>n\<close> such interrupts the thread is left asleep.
\<close>

primrec disk_wait :: "nat \<Rightarrow> nat \<Rightarrow> ('z disk_machine_scheme, unit) kern" where
  "disk_wait 0 b = kbind (get_buf b) (\<lambda>x. if b_disk x then sleep (ChBuf b) Lvdisk else kret ())"
| "disk_wait (Suc n) b =
     kbind (get_buf b) (\<lambda>x.
     if \<not> b_disk x then kret () else
     kthen (release Lvdisk) (
     kthen run_device (
     kthen virtio_disk_intr (
     kthen (acquire Lvdisk)
           (disk_wait n b)))))"

definition sector_of :: "u32 \<Rightarrow> u64" where
  "sector_of blockno = ucast (blockno * of_nat (BSIZE div 512))"

definition set_desc :: "nat \<Rightarrow> virtq_desc \<Rightarrow> ('z disk_machine_scheme, unit) kern" where
  "set_desc i d = set_vdisk (\<lambda>v. v\<lparr>vd_desc := (vd_desc v)(i := d)\<rparr>)"

definition rw_submit :: "nat \<Rightarrow> bool \<Rightarrow> nat \<Rightarrow> nat \<Rightarrow> nat \<Rightarrow> ('z disk_machine_scheme, unit) kern" where
  "rw_submit b wr i0 i1 i2 =
     kbind (get_buf b) (\<lambda>x.
     kthen (set_vdisk (\<lambda>v. v\<lparr>vd_ops := (vd_ops v)(i0 :=
        \<lparr>r_type = (if wr then VIRTIO_BLK_T_OUT else VIRTIO_BLK_T_IN), r_reserved = 0,
         r_sector = sector_of (b_blockno x)\<rparr>)\<rparr>)) (
     kthen (set_desc i0 \<lparr>d_addr = AOps i0, d_len = 16, d_flags = VRING_DESC_F_NEXT, d_next = of_nat i1\<rparr>) (
     kthen (set_desc i1 \<lparr>d_addr = AData b, d_len = of_nat BSIZE,
        d_flags = (if wr then 0 else VRING_DESC_F_WRITE) OR VRING_DESC_F_NEXT, d_next = of_nat i2\<rparr>) (
     kthen (set_vdisk (\<lambda>v. v\<lparr>vd_info_status := (vd_info_status v)(i0 := 0xff)\<rparr>)) (
     kthen (set_desc i2 \<lparr>d_addr = AStatus i0, d_len = 1, d_flags = VRING_DESC_F_WRITE, d_next = 0\<rparr>) (
     kthen (set_buf b (\<lambda>x. x\<lparr>b_disk := True\<rparr>)) (
     kthen (set_vdisk (\<lambda>v. v\<lparr>vd_info_b := (vd_info_b v)(i0 := Some b)\<rparr>)) (
     kthen (set_vdisk (\<lambda>v. v\<lparr>vd_avail_ring := (vd_avail_ring v)(unat (vd_avail_idx v) mod NUM := of_nat i0)\<rparr>)) (
     kthen (set_vdisk (\<lambda>v. v\<lparr>vd_avail_idx := vd_avail_idx v + 1\<rparr>)) (
     kthen (reg_write 0x050 0) (
     kthen (disk_wait NUM b) (
     kthen (set_vdisk (\<lambda>v. v\<lparr>vd_info_b := (vd_info_b v)(i0 := None)\<rparr>)) (
     kthen (free_chain i0)
           (release Lvdisk))))))))))))))"

definition rw_loop :: "nat \<Rightarrow> bool \<Rightarrow> ('z disk_machine_scheme, unit) kern" where
  "rw_loop b wr =
     kbind alloc3_desc (\<lambda>r. case r of
       None \<Rightarrow> sleep ChDiskFree Lvdisk
     | Some (i0, i1, i2) \<Rightarrow> rw_submit b wr i0 i1 i2)"

definition monitor_fmt :: string where
  "monitor_fmt = ''DISK MONITOR: Op=%s | Block=%d | Sector=%d'' @ [CHR 0x0A]"

definition virtio_disk_rw :: "nat \<Rightarrow> bool \<Rightarrow> ('z disk_machine_scheme, unit) kern" where
  "virtio_disk_rw b wr =
     kbind (get_buf b) (\<lambda>x.
     kthen (acquire Lvdisk) (
     kthen (printf monitor_fmt [VaS (Some (if wr then ''WRITE'' else ''READ '')), VaI (ucast (b_blockno x)),
              VaI (sector_of (b_blockno x))])
           (rw_loop b wr)))"

definition virtio_disk_rw_resume :: "nat \<Rightarrow> bool \<Rightarrow> nat \<Rightarrow> bool \<Rightarrow> ('z disk_machine_scheme, unit) kern" where
  "virtio_disk_rw_resume p saved b wr = kthen (sleep_resume p Lvdisk saved) (rw_loop b wr)"

section \<open>A conforming device\<close>

text \<open>
  What section 5.2 of the virtio specification asks of a block device that finds one chain of three
  descriptors: read or write the block the header names, store a zero status, and append the head of
  the chain to the used ring.
\<close>

definition serve :: device_fn where
  "serve v bs im =
     (let h = unat (vd_avail_ring v (unat (vd_seen v) mod NUM)); d0 = vd_desc v h;
          d1 = vd_desc v (unat (d_next d0)); d2 = vd_desc v (unat (d_next d1)) in
      case (d_addr d0, d_addr d1, d_addr d2) of
        (AOps k, AData b, AStatus j) \<Rightarrow>
          (let r = vd_ops v k;
               v' = v\<lparr>vd_info_status := (vd_info_status v)(j := 0),
                 vd_used_ring := (vd_used_ring v)(unat (vd_used_dev v) mod NUM := of_nat h),
                 vd_used_dev := vd_used_dev v + 1, vd_seen := vd_seen v + 1\<rparr> in
           if r_type r = VIRTIO_BLK_T_OUT then (v', bs, img_write (r_sector r) (b_data (bs b)) im)
           else (v', bs(b := (bs b)\<lparr>b_data := img_read im (r_sector r)\<rparr>), im))
      | _ \<Rightarrow> (v, bs, im))"

definition one_request :: "vdisk \<Rightarrow> bool" where
  "one_request v \<longleftrightarrow>
     (let h = unat (vd_avail_ring v (unat (vd_seen v) mod NUM)); d0 = vd_desc v h;
          d1 = vd_desc v (unat (d_next d0)); d2 = vd_desc v (unat (d_next d1)) in
      vd_avail_idx v = vd_seen v + 1 \<and> d_len d0 = 16 \<and> d_flags d0 = VRING_DESC_F_NEXT
      \<and> d_len d1 = of_nat BSIZE \<and> d_len d2 = 1 \<and> d_flags d2 = VRING_DESC_F_WRITE
      \<and> (\<exists>k b j. d_addr d0 = AOps k \<and> d_addr d1 = AData b \<and> d_addr d2 = AStatus j
           \<and> (r_type (vd_ops v k) = VIRTIO_BLK_T_OUT \<and> d_flags d1 = VRING_DESC_F_NEXT
              \<or> r_type (vd_ops v k) = VIRTIO_BLK_T_IN \<and> d_flags d1 = VRING_DESC_F_WRITE OR VRING_DESC_F_NEXT)))"

definition conforms :: "device_fn \<Rightarrow> bool" where
  "conforms d \<longleftrightarrow> (\<forall>v bs im. one_request v \<longrightarrow> d v bs im = serve v bs im)"

lemma conforms_serve: "conforms serve"
  by (simp add: conforms_def)

text \<open>No request under way: every descriptor free and the rings read to their ends.\<close>

definition idle :: "vdisk \<Rightarrow> bool" where
  "idle v \<longleftrightarrow> (\<forall>i<NUM. vd_free v i) \<and> vd_used_idx v = vd_used_dev v \<and> vd_seen v = vd_avail_idx v"

definition disk_ready :: "nat \<Rightarrow> 'z disk_machine_scheme \<Rightarrow> bool" where
  "disk_ready p s \<longleftrightarrow> solo p s \<and> idle (vdisk s) \<and> conforms (device s)"

definition locked_in :: "nat \<Rightarrow> harts \<Rightarrow> 'z disk_machine_scheme \<Rightarrow> bool" where
  "locked_in p h t \<longleftrightarrow> hart t = acq Lvdisk h \<and> hart_ok h \<and> (\<forall>l. lock_free l h)
     \<and> (\<forall>q. p_state (procs t q) \<noteq> SLEEPING)"

lemma locked_inD:
  "locked_in p h t \<Longrightarrow> hart t = acq Lvdisk h" "locked_in p h t \<Longrightarrow> hart_ok h"
  "locked_in p h t \<Longrightarrow> lock_free l h" "locked_in p h t \<Longrightarrow> p_state (procs t q) \<noteq> SLEEPING"
  by (simp_all add: locked_in_def)

lemma wakeup_locked_in: "locked_in p h t \<Longrightarrow> wakeup ch t = Ok () t"
  by (rule wakeup_solo_locked[of t Lvdisk h]) (auto dest: locked_inD)

lemma locked_in_vdisk [simp]:
  "locked_in p h (t\<lparr>vdisk := v\<rparr>) = locked_in p h t" "locked_in p h (t\<lparr>bufs := bs\<rparr>) = locked_in p h t"
  "locked_in p h (t\<lparr>disk_img := im\<rparr>) = locked_in p h t" "locked_in p h (t\<lparr>mmio_writes := m\<rparr>) = locked_in p h t"
  by (simp_all add: locked_in_def)

lemma upt_NUM: "[0..<NUM] = [0, 1, 2, 3, 4, 5, 6, 7]"
  by (simp add: NUM_def upt_rec)

lemma alloc3_desc_idle:
  assumes "idle (vdisk t)"
  shows "alloc3_desc t =
     Ok (Some (0, 1, 2)) (t\<lparr>vdisk := (vdisk t)\<lparr>vd_free := (vd_free (vdisk t))(0 := False, 1 := False, 2 := False)\<rparr>\<rparr>)"
proof -
  have "vd_free (vdisk t) 0" "vd_free (vdisk t) (Suc 0)" "vd_free (vdisk t) 2"
    using assms by (simp_all add: idle_def NUM_def)
  then show ?thesis
    by (simp add: alloc3_desc_def alloc_desc_def set_vdisk_def kbind_def kthen_def kret_def upt_NUM)
qed

lemma free_desc_run:
  assumes "locked_in p h t" "i < NUM" "\<not> vd_free (vdisk t) i"
  shows "free_desc i t = Ok () (t\<lparr>vdisk := (vdisk t)\<lparr>vd_desc := (vd_desc (vdisk t))(i := no_desc),
     vd_free := (vd_free (vdisk t))(i := True)\<rparr>\<rparr>)"
  using assms by (simp add: free_desc_def kbind_def kthen_def set_vdisk_def wakeup_locked_in)

lemma disk_wait_done: "\<not> b_disk (bufs t b) \<Longrightarrow> disk_wait n b t = Ok () t"
  by (cases n) (simp_all add: kbind_def get_buf_def kret_def)

lemma virtio_disk_intr_run:
  assumes s: "hart t = h" "hart_ok h" "\<And>l. lock_free l h" "\<And>q. p_state (procs t q) \<noteq> SLEEPING"
    and u: "vd_used_dev (vdisk t) = vd_used_idx (vdisk t) + 1"
    and i: "i = unat (vd_used_ring (vdisk t) (unat (vd_used_idx (vdisk t)) mod NUM))"
    and b: "vd_info_status (vdisk t) i = 0" "vd_info_b (vdisk t) i = Some b"
  shows "virtio_disk_intr t = Ok () (t\<lparr>hart := scrub h,
    mmio_writes := mmio_writes t @ [(0x064, mmio_read t (mmio_writes t) 0x060 AND 3)],
    bufs := (bufs t)(b := (bufs t b)\<lparr>b_disk := False\<rparr>), vdisk := (vdisk t)\<lparr>vd_used_idx := vd_used_idx (vdisk t) + 1\<rparr>\<rparr>)"
proof -
  define t1 where "t1 = t\<lparr>hart := acq Lvdisk h,
    mmio_writes := mmio_writes t @ [(0x064, mmio_read t (mmio_writes t) 0x060 AND 3)]\<rparr>"
  have w: "wakeup (ChBuf b) (t1\<lparr>bufs := bs\<rparr>) = Ok () (t1\<lparr>bufs := bs\<rparr>)" for bs
    by (rule wakeup_solo_locked[of _ Lvdisk h]) (use s in \<open>simp_all add: t1_def\<close>)
  have one: "intr_one (vd_used_idx (vdisk t)) t1 = Ok () (t1\<lparr>bufs := (bufs t)(b := (bufs t b)\<lparr>b_disk := False\<rparr>),
      vdisk := (vdisk t)\<lparr>vd_used_idx := vd_used_idx (vdisk t) + 1\<rparr>\<rparr>)"
    using b w by (simp add: intr_one_def kbind_def kthen_def set_buf_def set_vdisk_def t1_def flip: i)
  have "map (\<lambda>k. vd_used_idx (vdisk t) + of_nat k) [0..<unat (vd_used_dev (vdisk t) - vd_used_idx (vdisk t))]
      = [vd_used_idx (vdisk t)]" by (simp add: u)
  then have "virtio_disk_intr t = kthen (kfor [vd_used_idx (vdisk t)] intr_one) (release Lvdisk) t1"
    using s by (simp add: virtio_disk_intr_def kbind_def kthen_def acquire_run reg_read_def reg_write_def t1_def)
  then show ?thesis using s one
    by (simp add: kthen_def kbind_def kret_def release_run t1_def)
qed

lemma disk_wait_run:
  assumes t: "locked_in p h t" "b_disk (bufs t b)"
    and d: "device t (vdisk t) (bufs t) (disk_img t) = (v, bs, im)"
    and u: "vd_used_dev v = vd_used_idx v + 1"
    and i: "i = unat (vd_used_ring v (unat (vd_used_idx v) mod NUM))"
    and b: "vd_info_status v i = 0" "vd_info_b v i = Some b"
  shows "disk_wait (Suc n) b t = Ok () (t\<lparr>vdisk := v\<lparr>vd_used_idx := vd_used_idx v + 1\<rparr>,
    bufs := bs(b := (bs b)\<lparr>b_disk := False\<rparr>), disk_img := im,
    mmio_writes := mmio_writes t @ [(0x064, mmio_read t (mmio_writes t) 0x060 AND 3)]\<rparr>)"
proof -
  define t1 where "t1 = t\<lparr>hart := scrub h, vdisk := v, bufs := bs, disk_img := im\<rparr>"
  have intr: "virtio_disk_intr t1 = Ok () (t1\<lparr>hart := scrub (scrub h),
    mmio_writes := mmio_writes t1 @ [(0x064, mmio_read t1 (mmio_writes t1) 0x060 AND 3)],
    bufs := (bufs t1)(b := (bufs t1 b)\<lparr>b_disk := False\<rparr>), vdisk := (vdisk t1)\<lparr>vd_used_idx := vd_used_idx (vdisk t1) + 1\<rparr>\<rparr>)"
    by (rule virtio_disk_intr_run[where i = i]) (use locked_inD[OF t(1)] u i b in \<open>simp_all add: t1_def\<close>)
  have "disk_wait (Suc n) b t = kthen virtio_disk_intr (kthen (acquire Lvdisk) (disk_wait n b)) t1"
    using locked_inD[OF t(1)] t(2) d
    by (simp add: kbind_def kthen_def get_buf_def release_run run_device_def t1_def)
  then show ?thesis using intr locked_inD[OF t(1)]
    by (simp add: kthen_def kbind_def acquire_run disk_wait_done t1_def)
qed

text \<open>The chain of a request: three descriptors in a row, each busy.\<close>

lemma free_chain_run:
  assumes t: "locked_in p h t" and f: "\<not> vd_free (vdisk t) 0" "\<not> vd_free (vdisk t) 1" "\<not> vd_free (vdisk t) 2"
    and d: "d_flags (vd_desc (vdisk t) 0) = 1" "d_next (vd_desc (vdisk t) 0) = 1"
      "odd (d_flags (vd_desc (vdisk t) 1))" "d_next (vd_desc (vdisk t) 1) = 2" "d_flags (vd_desc (vdisk t) 2) = 2"
  shows "free_chain 0 t = Ok () (t\<lparr>vdisk := (vdisk t)\<lparr>
     vd_desc := (vd_desc (vdisk t))(0 := no_desc, 1 := no_desc, 2 := no_desc),
     vd_free := (vd_free (vdisk t))(0 := True, 1 := True, 2 := True)\<rparr>\<rparr>)"
proof -
  note step = free_desc_run[where p = p and h = h]
  have odd1: "d_flags (vd_desc (vdisk t) 1) AND 1 \<noteq> 0" using d(3) by (simp add: and_one_eq odd_iff_mod_2_eq_one)
  have "free_chain_loop (Suc (Suc (Suc n))) 0 t = Ok () (t\<lparr>vdisk := (vdisk t)\<lparr>
     vd_desc := (vd_desc (vdisk t))(0 := no_desc, 1 := no_desc, 2 := no_desc),
     vd_free := (vd_free (vdisk t))(0 := True, 1 := True, 2 := True)\<rparr>\<rparr>)" for n
    using assms odd1 by (simp add: kbind_def kthen_def step NUM_def VRING_DESC_F_NEXT_def kret_def)
  from this[of 6] show ?thesis by (simp add: free_chain_def)
qed

section \<open>A request on an idle queue\<close>

text \<open>The buffers and the image after a request.\<close>

definition rw_bufs :: "nat \<Rightarrow> bool \<Rightarrow> 'z disk_machine_scheme \<Rightarrow> nat \<Rightarrow> buf" where
  "rw_bufs b wr s = (bufs s)(b := (bufs s b)\<lparr>
     b_data := (if wr then b_data (bufs s b) else img_read (disk_img s) (sector_of (b_blockno (bufs s b)))),
     b_disk := False\<rparr>)"

definition rw_image :: "nat \<Rightarrow> bool \<Rightarrow> 'z disk_machine_scheme \<Rightarrow> diskimg" where
  "rw_image b wr s = (if wr then img_write (sector_of (b_blockno (bufs s b))) (b_data (bufs s b)) (disk_img s) else disk_img s)"

definition rw_text :: "nat \<Rightarrow> bool \<Rightarrow> 'z disk_machine_scheme \<Rightarrow> string" where
  "rw_text b wr s = printed monitor_fmt [VaS (Some (if wr then ''WRITE'' else ''READ '')),
     VaI (ucast (b_blockno (bufs s b))), VaI (sector_of (b_blockno (bufs s b)))]"

lemma rw_submit_run:
  assumes t: "locked_in p h t" "conforms (device t)"
    and v: "\<forall>i<NUM. 3 \<le> i \<longrightarrow> vd_free (vdisk t) i" "\<not> vd_free (vdisk t) 0" "\<not> vd_free (vdisk t) 1" "\<not> vd_free (vdisk t) 2"
      "vd_used_idx (vdisk t) = vd_used_dev (vdisk t)" "vd_seen (vdisk t) = vd_avail_idx (vdisk t)"
  shows "\<exists>v' m. idle v' \<and> rw_submit b wr 0 1 2 t =
     Ok () (t\<lparr>hart := scrub h, vdisk := v', bufs := rw_bufs b wr t, disk_img := rw_image b wr t, mmio_writes := m\<rparr>)"
proof -
  define v1 where "v1 = (vdisk t)\<lparr>
     vd_ops := (vd_ops (vdisk t))(0 := \<lparr>r_type = (if wr then VIRTIO_BLK_T_OUT else VIRTIO_BLK_T_IN), r_reserved = 0,
         r_sector = sector_of (b_blockno (bufs t b))\<rparr>),
     vd_info_status := (vd_info_status (vdisk t))(0 := 0xff),
     vd_desc := (vd_desc (vdisk t))(
        0 := \<lparr>d_addr = AOps 0, d_len = 16, d_flags = VRING_DESC_F_NEXT, d_next = 1\<rparr>,
        1 := \<lparr>d_addr = AData b, d_len = of_nat BSIZE,
               d_flags = (if wr then 0 else VRING_DESC_F_WRITE) OR VRING_DESC_F_NEXT, d_next = 2\<rparr>,
        2 := \<lparr>d_addr = AStatus 0, d_len = 1, d_flags = VRING_DESC_F_WRITE, d_next = 0\<rparr>),
     vd_info_b := (vd_info_b (vdisk t))(0 := Some b),
     vd_avail_ring := (vd_avail_ring (vdisk t))(unat (vd_avail_idx (vdisk t)) mod NUM := 0),
     vd_avail_idx := vd_avail_idx (vdisk t) + 1\<rparr>"
  define bs1 where "bs1 = (bufs t)(b := (bufs t b)\<lparr>b_disk := True\<rparr>)"
  define t1 where "t1 = t\<lparr>bufs := bs1, vdisk := v1, mmio_writes := mmio_writes t @ [(0x050, 0)]\<rparr>"
  have sub: "rw_submit b wr 0 1 2 t =
     kthen (disk_wait NUM b) (kthen (set_vdisk (\<lambda>v. v\<lparr>vd_info_b := (vd_info_b v)(0 := None)\<rparr>))
       (kthen (free_chain 0) (release Lvdisk))) t1"
    by (simp add: rw_submit_def kbind_def kthen_def get_buf_def set_vdisk_def set_desc_def set_buf_def reg_write_def
        t1_def v1_def bs1_def)
  have one: "one_request v1"
    using v by (simp add: one_request_def v1_def VIRTIO_BLK_T_IN_def VIRTIO_BLK_T_OUT_def)
  define v2 where "v2 = v1\<lparr>vd_info_status := (vd_info_status v1)(0 := 0),
     vd_used_ring := (vd_used_ring v1)(unat (vd_used_dev v1) mod NUM := 0), vd_used_dev := vd_used_dev v1 + 1,
     vd_seen := vd_seen v1 + 1\<rparr>"
  define bs2 where "bs2 = (if wr then bs1 else bs1(b := (bs1 b)\<lparr>b_data := img_read (disk_img t) (sector_of (b_blockno (bufs t b)))\<rparr>))"
  have srv: "serve v1 bs1 (disk_img t) = (v2, bs2, rw_image b wr t)"
    using v by (simp add: serve_def Let_def v2_def bs2_def rw_image_def)
      (simp add: v1_def bs1_def VIRTIO_BLK_T_IN_def VIRTIO_BLK_T_OUT_def)
  have dev: "device t1 (vdisk t1) (bufs t1) (disk_img t1) = (v2, bs2, rw_image b wr t)"
    using t(2) one srv by (simp add: conforms_def t1_def)
  have loc: "locked_in p h t1" using t(1) by (simp add: t1_def)
  obtain m where wait: "disk_wait NUM b t1 = Ok () (t1\<lparr>vdisk := v2\<lparr>vd_used_idx := vd_used_idx v2 + 1\<rparr>,
    bufs := bs2(b := (bs2 b)\<lparr>b_disk := False\<rparr>), disk_img := rw_image b wr t, mmio_writes := m\<rparr>)"
    using disk_wait_run[OF loc _ dev, where n = 7 and i = 0] v
    by (simp add: NUM_def t1_def bs1_def v2_def v1_def)
  define v3 where "v3 = v2\<lparr>vd_used_idx := vd_used_idx v2 + 1, vd_info_b := (vd_info_b v2)(0 := None)\<rparr>"
  define v4 where "v4 = v3\<lparr>vd_desc := (vd_desc v3)(0 := no_desc, 1 := no_desc, 2 := no_desc),
     vd_free := (vd_free v3)(0 := True, 1 := True, 2 := True)\<rparr>"
  define t3 where "t3 = t\<lparr>bufs := rw_bufs b wr t, disk_img := rw_image b wr t, mmio_writes := m, vdisk := v3\<rparr>"
  have "bs2(b := (bs2 b)\<lparr>b_disk := False\<rparr>) = rw_bufs b wr t" by (simp add: bs2_def bs1_def rw_bufs_def)
  then have "rw_submit b wr 0 1 2 t = kthen (free_chain 0) (release Lvdisk) t3"
    using sub wait by (simp add: kthen_def kbind_def set_vdisk_def t3_def t1_def v3_def)
  also have "\<dots> = release Lvdisk (t3\<lparr>vdisk := v4\<rparr>)"
  proof -
    have "free_chain 0 t3 = Ok () (t3\<lparr>vdisk := v4\<rparr>)"
      using free_chain_run[of p h t3] t(1) v
      by (simp add: t3_def v4_def) (simp add: v3_def v2_def v1_def VRING_DESC_F_NEXT_def VRING_DESC_F_WRITE_def)
    then show ?thesis by (simp add: kthen_def kbind_def)
  qed
  also have "\<dots> = Ok () (t3\<lparr>hart := scrub h, vdisk := v4\<rparr>)"
    using locked_inD[OF t(1)] by (simp add: t3_def release_run)
  finally have res: "rw_submit b wr 0 1 2 t = Ok () (t3\<lparr>hart := scrub h, vdisk := v4\<rparr>)" .
  have "idle v4"
    using v by (auto simp: idle_def v4_def v3_def v2_def v1_def not_less_eq_eq numeral_3_eq_3 less_Suc_eq)
  then show ?thesis using res by (intro exI[of _ v4] exI[of _ m]) (simp add: t3_def)
qed

lemma virtio_disk_rw_run:
  assumes "disk_ready p s"
  shows "\<exists>v m. idle v \<and> virtio_disk_rw b wr s =
     Ok () (s\<lparr>con := outs (rw_text b wr s) (con s), hart := scrub (hart s), vdisk := v, bufs := rw_bufs b wr s,
              disk_img := rw_image b wr s, mmio_writes := m\<rparr>)"
proof -
  have so: "solo p s" and idl: "idle (vdisk s)" and cf: "conforms (device s)"
    using assms by (simp_all add: disk_ready_def)
  note so = soloD[OF so]
  define t where "t = s\<lparr>hart := acq Lvdisk (hart s), con := outs (rw_text b wr s) (con s),
    vdisk := (vdisk s)\<lparr>vd_free := (vd_free (vdisk s))(0 := False, 1 := False, 2 := False)\<rparr>\<rparr>"
  have pr: "printf fmt args (s\<lparr>hart := acq Lvdisk (hart s)\<rparr>) =
      Ok () (s\<lparr>hart := acq Lvdisk (hart s), con := outs (printed fmt args) (con s)\<rparr>)" for fmt args
    using so by (simp add: printf_run can_print_def)
  have run: "virtio_disk_rw b wr s = rw_submit b wr 0 1 2 t"
    using so idl
    by (simp add: virtio_disk_rw_def rw_loop_def kbind_def kthen_def get_buf_def acquire_run pr alloc3_desc_idle
        t_def rw_text_def)
  have loc: "locked_in p (hart s) t" using so by (simp add: locked_in_def t_def)
  have sub: "\<exists>v' m. idle v' \<and> rw_submit b wr 0 1 2 t = Ok () (t\<lparr>hart := scrub (hart s), vdisk := v',
      bufs := rw_bufs b wr t, disk_img := rw_image b wr t, mmio_writes := m\<rparr>)"
    by (rule rw_submit_run[OF loc]) (use idl cf in \<open>simp_all add: t_def idle_def\<close>)
  have "rw_bufs b wr t = rw_bufs b wr s" "rw_image b wr t = rw_image b wr s"
    by (simp_all add: rw_bufs_def rw_image_def t_def)
  then show ?thesis using sub run by (auto simp: t_def)
qed

lemma disk_ready_cong:
  "disk_ready p s \<Longrightarrow> scrub (hart t) = scrub (hart s) \<Longrightarrow> procs t = procs s \<Longrightarrow> panicking (con t) = panicking (con s) \<Longrightarrow>
   panicked (con t) = panicked (con s) \<Longrightarrow> idle (vdisk t) \<Longrightarrow> device t = device s \<Longrightarrow> disk_ready p t"
  using solo_cong[of p s t] by (simp add: disk_ready_def)

lemma img_read_write [simp]: "img_read (img_write a x d) c = (if c = a then x else img_read d c)"
  by (simp add: img_read_def img_write_def split: option.split)


section \<open>A machine with an ideal disk\<close>

definition vdisk0 :: vdisk where
  "vdisk0 = \<lparr>vd_desc = \<lambda>_. no_desc, vd_avail_idx = 0, vd_avail_ring = \<lambda>_. 0, vd_used_dev = 0, vd_used_ring = \<lambda>_. 0,
     vd_free = \<lambda>_. True, vd_used_idx = 0, vd_info_b = \<lambda>_. None, vd_info_status = \<lambda>_. 0,
     vd_ops = \<lambda>_. \<lparr>r_type = 0, r_reserved = 0, r_sector = 0\<rparr>, vd_seen = 0\<rparr>"

definition buf0 :: buf where
  "buf0 = \<lparr>b_valid = False, b_disk = False, b_dev = 0, b_blockno = 0, b_refcnt = 0, b_prev = 0, b_next = 0,
     b_data = replicate BSIZE 0\<rparr>"

definition blank_disk :: diskimg where
  "blank_disk = \<lparr>img_base = \<lambda>_. replicate BSIZE 0, img_writes = []\<rparr>"

definition demo_disk :: disk_machine where
  "demo_disk = \<lparr>hart = on_proc (Some 0) hart0, con = con0, mem = (\<lambda>_. 0),
     kmem = \<lparr>freelist = 0, free_pages_count = 0\<rparr>, ref_counts = (\<lambda>_. 0), kend = 0x80030000,
     procs = (\<lambda>_. proc0), nextpid = 1, initproc = None, kernel_pagetable = 0, ticks = 0, fork_first = True,
     etext = 0, trampoline = 0, fn_forkret = 0, fn_usertrap = 0, fn_kernelvec = 0, off_uservec = 0,
     off_userret = 0, satp = 0, stvec = 0, sepc = 0, sstatus_spp = False, sstatus_spie = False,
     scause = 0, stval = 0, sleeplocks = (\<lambda>_. \<lparr>sl_locked = False, sl_name = [], sl_pid = 0\<rparr>),
     vdisk = vdisk0, bufs = (\<lambda>_. buf0), disk_img = blank_disk, device = serve, mmio_read = (\<lambda>_ _. 0),
     mmio_writes = []\<rparr>"

lemma demo_disk_ready: "disk_ready 0 (demo_disk\<lparr>bufs := bs\<rparr>)"
  by (simp add: disk_ready_def solo_def demo_disk_def can_print_def con0_def conforms_serve idle_def vdisk0_def
      proc0_def)


end
