(* ===== verification/Block_Store.thy ===== *)
theory Block_Store
  imports Disk
begin

text \<open>
  The contract between the buffer cache (\<^verbatim>\<open>kernel/bio.c\<close>) and the code above it, and what the log does
  with it. A client sees the blocks of the root device: the current data of each block, how many
  references the cache counts for it, the buffer it holds locked, and the image on the disk. The
  driver multiplies a block number by two in 32 bits, so that only the numbers below \<open>2 ^ 31\<close>
  name different blocks.
\<close>

section \<open>Blocks on the disk\<close>

type_synonym blk = nat

definition disk_block :: "diskimg \<Rightarrow> blk \<Rightarrow> u8 list" where
  "disk_block im k = (if k < 2 ^ 31 then img_read im (sector_of (of_nat k)) else [])"

definition put_block :: "blk \<Rightarrow> u8 list \<Rightarrow> diskimg \<Rightarrow> diskimg" where
  "put_block k d im = img_write (sector_of (of_nat k)) d im"

text \<open>Different blocks are different sectors.\<close>

lemma sector_of_inj:
  assumes "i < 2 ^ 31" "j < 2 ^ 31" "sector_of (of_nat i) = sector_of (of_nat j)"
  shows "i = j"
proof -
  have u: "unat (sector_of (of_nat n)) = n * 2" if "n < 2 ^ 31" for n
    using that by (simp add: sector_of_def BSIZE_def unsigned_ucast_eq unat_word_ariths unat_of_nat take_bit_nat_eq_self)
  have "unat (sector_of (of_nat i)) = unat (sector_of (of_nat j))" using assms(3) by (rule arg_cong)
  then have "i * 2 = j * 2" unfolding u[OF assms(1)] u[OF assms(2)] .
  then show ?thesis by simp
qed

lemma disk_block_write:
  "k < 2 ^ 31 \<Longrightarrow> disk_block (img_write (sector_of (of_nat k)) d im) j = (if j = k then d else disk_block im j)"
  using sector_of_inj[of j k] unfolding disk_block_def img_read_write by (cases "j = k") auto

lemma disk_block_put:
  "k < 2 ^ 31 \<Longrightarrow> disk_block (put_block k d im) j = (if j = k then d else disk_block im j)"
  unfolding put_block_def by (rule disk_block_write)

text \<open>A sequence of writes, and the image after a crash that lets only the first \<open>i\<close> of all writes through.\<close>

definition put_blocks :: "(blk \<times> u8 list) list \<Rightarrow> diskimg \<Rightarrow> diskimg" where
  "put_blocks ws = fold (\<lambda>(k, d). put_block k d) ws"

lemma put_blocks_simps [simp]:
  "put_blocks [] im = im"
  "put_blocks ((k, d) # ws) im = put_blocks ws (put_block k d im)"
  "put_blocks (us @ ws) im = put_blocks ws (put_blocks us im)"
  by (simp_all add: put_blocks_def)

definition crash_at :: "nat \<Rightarrow> diskimg \<Rightarrow> diskimg" where
  "crash_at i im = im\<lparr>img_writes := take i (img_writes im)\<rparr>"

lemma img_writes_put_blocks:
  "img_writes (put_blocks ws im) = img_writes im @ map (\<lambda>(k, d). (sector_of (of_nat k), d)) ws"
  by (induction ws arbitrary: im) (auto simp: put_block_def img_write_def)

lemma img_base_put_blocks: "img_base (put_blocks ws im) = img_base im"
  by (induction ws arbitrary: im) (auto simp: put_block_def img_write_def)

lemma crash_at_put_blocks:
  "crash_at (length (img_writes im) + j) (put_blocks ws im) = put_blocks (take j ws) im"
  by (simp add: crash_at_def img_writes_put_blocks img_base_put_blocks take_map)

lemma crash_at_all [simp]: "crash_at (length (img_writes im)) im = im"
  by (simp add: crash_at_def)

text \<open>Writes to distinct blocks, and to blocks other than the one read.\<close>

lemma disk_block_puts_other:
  "\<forall>w\<in>set ws. fst w < 2 ^ 31 \<Longrightarrow> k \<notin> fst ` set ws \<Longrightarrow> disk_block (put_blocks ws im) k = disk_block im k"
  by (induction ws arbitrary: im) (auto simp: disk_block_put)

lemma disk_block_puts:
  assumes "\<forall>w\<in>set ws. fst w < 2 ^ 31" "distinct (map fst ws)"
  shows "disk_block (put_blocks ws im) k = (case map_of ws k of Some d \<Rightarrow> d | None \<Rightarrow> disk_block im k)"
  using assms
proof (induction ws arbitrary: im)
  case (Cons w ws)
  obtain j d where w: "w = (j, d)" by force
  have "map_of ws j = None" using Cons.prems(2) by (simp add: w map_of_eq_None_iff)
  then show ?case using Cons by (auto simp: w disk_block_put split: option.split)
qed simp

section \<open>The contract of the cache\<close>

record 'r bview =
  v_data :: "blk \<Rightarrow> u8 list"
  v_refs :: "blk \<Rightarrow> nat"
  v_held :: "blk \<Rightarrow> nat option"
  v_img :: diskimg
  v_rest :: 'r

text \<open>Blocks changed and written through to the disk, in order.\<close>

definition upds :: "(blk \<times> u8 list) list \<Rightarrow> (blk \<Rightarrow> u8 list) \<Rightarrow> blk \<Rightarrow> u8 list" where
  "upds ws = fold (\<lambda>(k, d) f. f(k := d)) ws"

definition write_thru :: "(blk \<times> u8 list) list \<Rightarrow> 'r bview \<Rightarrow> 'r bview" where
  "write_thru ws v = v\<lparr>v_data := upds ws (v_data v), v_img := put_blocks ws (v_img v)\<rparr>"

lemma upds_simps [simp]:
  "upds [] f = f"
  "upds ((k, d) # ws) f = upds ws (f(k := d))"
  "upds (us @ ws) f = upds ws (upds us f)"
  by (simp_all add: upds_def)

lemma upds_other: "k \<notin> fst ` set ws \<Longrightarrow> upds ws f k = f k"
  by (induction ws arbitrary: f) auto

lemma upds_at:
  "distinct (map fst ws) \<Longrightarrow> upds ws f k = (case map_of ws k of Some d \<Rightarrow> d | None \<Rightarrow> f k)"
proof (induction ws arbitrary: f)
  case (Cons w ws)
  obtain j d where w: "w = (j, d)" by force
  have "map_of ws j = None" using Cons.prems by (simp add: w map_of_eq_None_iff)
  then show ?case using Cons by (auto simp: w split: option.split)
qed simp

lemma write_thru_simps [simp]:
  "write_thru [] v = v"
  "write_thru (us @ ws) v = write_thru ws (write_thru us v)"
  "v_data (write_thru ws v) = upds ws (v_data v)" "v_refs (write_thru ws v) = v_refs v"
  "v_held (write_thru ws v) = v_held v" "v_img (write_thru ws v) = put_blocks ws (v_img v)"
  "v_rest (write_thru ws v) = v_rest v"
  by (simp_all add: write_thru_def)

text \<open>The number of blocks that occupy a buffer.\<close>

definition in_use :: "'r bview \<Rightarrow> nat" where
  "in_use v = card {k. 0 < v_refs v k}"

locale block_cache =
  fixes inv :: "'s \<Rightarrow> bool"
    and view :: "'s \<Rightarrow> 'r bview"
    and rd :: "blk \<Rightarrow> ('s, nat) kern"
    and look :: "nat \<Rightarrow> ('s, u8 list) kern"
    and edit :: "nat \<Rightarrow> (u8 list \<Rightarrow> u8 list) \<Rightarrow> ('s, unit) kern"
    and wr :: "nat \<Rightarrow> ('s, unit) kern"
    and rel :: "nat \<Rightarrow> ('s, unit) kern"
    and pin :: "nat \<Rightarrow> ('s, unit) kern"
    and unpin :: "nat \<Rightarrow> ('s, unit) kern"
  assumes rd_law: "inv s \<Longrightarrow> k < 2 ^ 31 \<Longrightarrow> v_held (view s) k = None \<Longrightarrow> v_refs (view s) k < 2 ^ 32 - 1 \<Longrightarrow>
      0 < v_refs (view s) k \<or> in_use (view s) < NBUF \<Longrightarrow>
      \<exists>b s'. rd k s = Ok b s' \<and> inv s' \<and> view s' = (view s)\<lparr>v_refs := (v_refs (view s))(k := v_refs (view s) k + 1),
        v_held := (v_held (view s))(k := Some b)\<rparr>"
    and look_law: "inv s \<Longrightarrow> v_held (view s) k = Some b \<Longrightarrow> look b s = Ok (v_data (view s) k) s"
    and edit_law: "inv s \<Longrightarrow> v_held (view s) k = Some b \<Longrightarrow> length (f (v_data (view s) k)) = BSIZE \<Longrightarrow>
      \<exists>s'. edit b f s = Ok () s' \<and> inv s' \<and> view s' = (view s)\<lparr>v_data := (v_data (view s))(k := f (v_data (view s) k))\<rparr>"
    and wr_law: "inv s \<Longrightarrow> v_held (view s) k = Some b \<Longrightarrow>
      \<exists>s'. wr b s = Ok () s' \<and> inv s' \<and> view s' = (view s)\<lparr>v_img := put_block k (v_data (view s) k) (v_img (view s))\<rparr>"
    and rel_law: "inv s \<Longrightarrow> v_held (view s) k = Some b \<Longrightarrow>
      (v_refs (view s) k = 1 \<longrightarrow> v_data (view s) k = disk_block (v_img (view s)) k) \<Longrightarrow>
      \<exists>s'. rel b s = Ok () s' \<and> inv s' \<and> view s' = (view s)\<lparr>v_refs := (v_refs (view s))(k := v_refs (view s) k - 1),
        v_held := (v_held (view s))(k := None)\<rparr>"
    and pin_law: "inv s \<Longrightarrow> v_held (view s) k = Some b \<Longrightarrow> v_refs (view s) k < 2 ^ 32 - 1 \<Longrightarrow>
      \<exists>s'. pin b s = Ok () s' \<and> inv s' \<and> view s' = (view s)\<lparr>v_refs := (v_refs (view s))(k := v_refs (view s) k + 1)\<rparr>"
    and unpin_law: "inv s \<Longrightarrow> v_held (view s) k = Some b \<Longrightarrow> 1 < v_refs (view s) k \<Longrightarrow>
      \<exists>s'. unpin b s = Ok () s' \<and> inv s' \<and> view s' = (view s)\<lparr>v_refs := (v_refs (view s))(k := v_refs (view s) k - 1)\<rparr>"
    and clean_law: "inv s \<Longrightarrow> v_refs (view s) k = 0 \<Longrightarrow> v_data (view s) k = disk_block (v_img (view s)) k"
    and size_law: "inv s \<Longrightarrow> k < 2 ^ 31 \<Longrightarrow> length (v_data (view s) k) = BSIZE"
    and fin_law: "inv s \<Longrightarrow> finite {k. 0 < v_refs (view s) k}"
begin

text \<open>
  A block read and released unchanged, as \<^verbatim>\<open>read_head\<close> does: the client gets the data of the block and
  nothing has changed.
\<close>

lemma read_release:
  assumes "inv s" "k < 2 ^ 31" "v_held (view s) k = None" "v_refs (view s) k < 2 ^ 32 - 1"
    and "0 < v_refs (view s) k \<or> in_use (view s) < NBUF"
  shows "\<exists>b t s'. rd k s = Ok b t \<and> look b t = Ok (v_data (view s) k) t \<and> v_rest (view t) = v_rest (view s)
     \<and> rel b t = Ok () s' \<and> inv s' \<and> view s' = view s"
proof -
  obtain b t where t: "rd k s = Ok b t" "inv t" "view t = (view s)\<lparr>v_refs := (v_refs (view s))(k := v_refs (view s) k + 1),
        v_held := (v_held (view s))(k := Some b)\<rparr>" using rd_law[OF assms] by blast
  have h: "v_held (view t) k = Some b" using t(3) by simp
  obtain s' where "rel b t = Ok () s'" "inv s'" "view s' = (view t)\<lparr>v_refs := (v_refs (view t))(k := v_refs (view t) k - 1),
        v_held := (v_held (view t))(k := None)\<rparr>" using rel_law[OF t(2) h] t(3) clean_law[OF assms(1)] by auto
  moreover have "v_refs (view t) = (v_refs (view s))(k := v_refs (view s) k + 1)" "v_rest (view t) = v_rest (view s)"
    using t(3) by simp_all
  moreover have "(v_held (view s))(k := None) = v_held (view s)" using assms(3) by auto
  ultimately show ?thesis using look_law[OF t(2) h] t by (intro exI[of _ b] exI[of _ t] exI[of _ s']) simp
qed

text \<open>A block read, changed, written and released, as \<^verbatim>\<open>write_head\<close> does.\<close>

lemma write_through:
  assumes "inv s" "k < 2 ^ 31" "v_held (view s) k = None" "v_refs (view s) k < 2 ^ 32 - 1"
    and "0 < v_refs (view s) k \<or> in_use (view s) < NBUF" and f: "length (f (v_data (view s) k)) = BSIZE"
  shows "\<exists>b t u w s'. rd k s = Ok b t \<and> v_rest (view t) = v_rest (view s) \<and> edit b f t = Ok () u \<and> wr b u = Ok () w
     \<and> rel b w = Ok () s' \<and> inv s' \<and> view s' = (view s)\<lparr>v_data := (v_data (view s))(k := f (v_data (view s) k)),
       v_img := put_block k (f (v_data (view s) k)) (v_img (view s))\<rparr>"
proof -
  obtain b t where t: "rd k s = Ok b t" "inv t" "view t = (view s)\<lparr>v_refs := (v_refs (view s))(k := v_refs (view s) k + 1),
        v_held := (v_held (view s))(k := Some b)\<rparr>" using rd_law[OF assms(1-5)] by blast
  obtain u where u: "edit b f t = Ok () u" "inv u" "view u = (view t)\<lparr>v_data := (v_data (view t))(k := f (v_data (view t) k))\<rparr>"
    using edit_law[OF t(2), of k b f] t(3) f by auto
  obtain w where w: "wr b u = Ok () w" "inv w" "view w = (view u)\<lparr>v_img := put_block k (v_data (view u) k) (v_img (view u))\<rparr>"
    using wr_law[OF u(2), of k b] u(3) t(3) by auto
  have "v_data (view w) k = disk_block (v_img (view w)) k" using w(3) assms(2) by (simp add: disk_block_put)
  then obtain s' where s': "rel b w = Ok () s'" "inv s'" "view s' = (view w)\<lparr>v_refs := (v_refs (view w))(k := v_refs (view w) k - 1),
        v_held := (v_held (view w))(k := None)\<rparr>" using rel_law[OF w(2), of k b] w(3) u(3) t(3) by auto
  have "(v_held (view s))(k := None) = v_held (view s)" using assms(3) by auto
  then have "view s' = (view s)\<lparr>v_data := (v_data (view s))(k := f (v_data (view s) k)),
       v_img := put_block k (f (v_data (view s) k)) (v_img (view s))\<rparr>"
    using s'(3) w(3) u(3) t(3) by simp
  then show ?thesis using t u w s'(1,2) by (intro exI[of _ b] exI[of _ t] exI[of _ u] exI[of _ w] exI[of _ s']) simp
qed

text \<open>Two different blocks held at once, and one copied over the other.\<close>

lemma open_two:
  assumes "inv s" "i < 2 ^ 31" "k < 2 ^ 31" "i \<noteq> k" "v_held (view s) i = None" "v_held (view s) k = None"
    and "v_refs (view s) i < 2 ^ 32 - 1" "v_refs (view s) k < 2 ^ 32 - 1"
    and "0 < v_refs (view s) i \<or> in_use (view s) < NBUF"
    and "0 < v_refs (view s) k \<or> Suc (in_use (view s)) < NBUF"
  shows "\<exists>a b t u. rd i s = Ok a t \<and> v_rest (view t) = v_rest (view s) \<and> rd k t = Ok b u \<and> inv u
     \<and> view u = (view s)\<lparr>v_refs := (v_refs (view s))(i := v_refs (view s) i + 1, k := v_refs (view s) k + 1),
        v_held := (v_held (view s))(i := Some a, k := Some b)\<rparr>"
proof -
  obtain a t where t: "rd i s = Ok a t" "inv t" "view t = (view s)\<lparr>v_refs := (v_refs (view s))(i := v_refs (view s) i + 1),
        v_held := (v_held (view s))(i := Some a)\<rparr>" using rd_law[OF assms(1,2,5,7,9)] by blast
  have "{j. 0 < v_refs (view t) j} \<subseteq> insert i {j. 0 < v_refs (view s) j}" using t(3) by auto
  then have "in_use (view t) \<le> card (insert i {j. 0 < v_refs (view s) j})"
    unfolding in_use_def using fin_law[OF assms(1)] by (simp only: card_mono finite_insert)
  then have "in_use (view t) \<le> Suc (in_use (view s))"
    unfolding in_use_def using fin_law[OF assms(1)] by (simp only: card_insert_if split: if_splits)
  then have "0 < v_refs (view t) k \<or> in_use (view t) < NBUF" using assms(4,10) t(3) by auto
  then obtain b u where "rd k t = Ok b u" "inv u" "view u = (view t)\<lparr>v_refs := (v_refs (view t))(k := v_refs (view t) k + 1),
        v_held := (v_held (view t))(k := Some b)\<rparr>" using rd_law[OF t(2) assms(3)] assms(4,6,8) t(3) by auto
  then show ?thesis using t assms(4) by (intro exI[of _ a] exI[of _ b] exI[of _ t] exI[of _ u]) simp
qed

lemma copy_write:
  assumes "inv u" "v_held (view u) i = Some a" "v_held (view u) k = Some b" "i < 2 ^ 31"
  shows "\<exists>v w. look a u = Ok (v_data (view u) i) u \<and> edit b (\<lambda>_. v_data (view u) i) u = Ok () v \<and> wr b v = Ok () w \<and> inv w
     \<and> view w = (view u)\<lparr>v_data := (v_data (view u))(k := v_data (view u) i), v_img := put_block k (v_data (view u) i) (v_img (view u))\<rparr>"
proof -
  obtain v where v: "edit b (\<lambda>_. v_data (view u) i) u = Ok () v" "inv v"
    "view v = (view u)\<lparr>v_data := (v_data (view u))(k := v_data (view u) i)\<rparr>"
    using edit_law[OF assms(1,3), of "\<lambda>_. v_data (view u) i"] size_law[OF assms(1,4)] by auto
  obtain w where "wr b v = Ok () w" "inv w" "view w = (view v)\<lparr>v_img := put_block k (v_data (view v) k) (v_img (view v))\<rparr>"
    using wr_law[OF v(2), of k b] assms(3) v(3) by auto
  then show ?thesis using v look_law[OF assms(1,2)] by (intro exI[of _ v] exI[of _ w]) simp
qed

lemma close_two:
  assumes "inv w" "i \<noteq> k" "v_held (view w) i = Some a" "v_held (view w) k = Some b"
    and "v_refs (view w) i = 1 \<longrightarrow> v_data (view w) i = disk_block (v_img (view w)) i"
    and "v_refs (view w) k = 1 \<longrightarrow> v_data (view w) k = disk_block (v_img (view w)) k"
  shows "\<exists>x s'. rel a w = Ok () x \<and> rel b x = Ok () s' \<and> inv s' \<and> view s' = (view w)\<lparr>
     v_refs := (v_refs (view w))(i := v_refs (view w) i - 1, k := v_refs (view w) k - 1),
     v_held := (v_held (view w))(i := None, k := None)\<rparr>"
proof -
  obtain x where x: "rel a w = Ok () x" "inv x" "view x = (view w)\<lparr>v_refs := (v_refs (view w))(i := v_refs (view w) i - 1),
        v_held := (v_held (view w))(i := None)\<rparr>" using rel_law[OF assms(1,3,5)] by blast
  obtain s' where "rel b x = Ok () s'" "inv s'" "view s' = (view x)\<lparr>v_refs := (v_refs (view x))(k := v_refs (view x) k - 1),
        v_held := (v_held (view x))(k := None)\<rparr>" using rel_law[OF x(2), of k b] assms x(3) by auto
  then show ?thesis using x assms(2) by (intro exI[of _ x] exI[of _ s']) simp
qed

end

end
