(* ===== verification/Bio.thy ===== *)
theory Bio
  imports Block_Store
begin

text \<open>
  The buffer cache, \<^verbatim>\<open>kernel/bio.c\<close>. The buffers are the array \<open>bufs\<close>, with the head of the list at index
  \<open>NBUF\<close>; the links are indices. A scan follows at most \<open>NBUF + 1\<close> links, which is the length of the list
  with its head. The lemmas relate the links to a list of buffers, most recently used first.
\<close>

section \<open>Operations\<close>

definition binit_one :: "nat \<Rightarrow> ('z disk_machine_scheme, unit) kern" where
  "binit_one b =
     kbind (get_buf NBUF) (\<lambda>hd.
     kthen (set_buf b (\<lambda>x. x\<lparr>b_next := b_next hd, b_prev := NBUF\<rparr>)) (
     kthen (initsleeplock (SLbuf b) ''buffer'') (
     kthen (set_buf (b_next hd) (\<lambda>x. x\<lparr>b_prev := b\<rparr>))
           (set_buf NBUF (\<lambda>x. x\<lparr>b_next := b\<rparr>)))))"

definition binit :: "('z disk_machine_scheme, unit) kern" where
  "binit =
     kthen (initlock Lbcache ''bcache'') (
     kthen (set_buf NBUF (\<lambda>x. x\<lparr>b_prev := NBUF, b_next := NBUF\<rparr>))
           (kfor [0..<NBUF] binit_one))"

primrec scan_next :: "nat \<Rightarrow> nat \<Rightarrow> (buf \<Rightarrow> bool) \<Rightarrow> ('z disk_machine_scheme, nat option) kern" where
  "scan_next 0 b P = kstop Frozen"
| "scan_next (Suc n) b P =
     (if b = NBUF then kret None else
      kbind (get_buf b) (\<lambda>x. if P x then kret (Some b) else scan_next n (b_next x) P))"

primrec scan_prev :: "nat \<Rightarrow> nat \<Rightarrow> (buf \<Rightarrow> bool) \<Rightarrow> ('z disk_machine_scheme, nat option) kern" where
  "scan_prev 0 b P = kstop Frozen"
| "scan_prev (Suc n) b P =
     (if b = NBUF then kret None else
      kbind (get_buf b) (\<lambda>x. if P x then kret (Some b) else scan_prev n (b_prev x) P))"

definition bget :: "u32 \<Rightarrow> u32 \<Rightarrow> ('z disk_machine_scheme, nat) kern" where
  "bget dev blockno =
     kthen (acquire Lbcache) (
     kbind (get_buf NBUF) (\<lambda>hd.
     kbind (scan_next (NBUF + 1) (b_next hd) (\<lambda>x. b_dev x = dev \<and> b_blockno x = blockno)) (\<lambda>r.
     case r of
       Some b \<Rightarrow>
         kthen (set_buf b (\<lambda>x. x\<lparr>b_refcnt := b_refcnt x + 1\<rparr>)) (
         kthen (release Lbcache) (
         kthen (acquiresleep (SLbuf b))
               (kret b)))
     | None \<Rightarrow>
         kbind (scan_prev (NBUF + 1) (b_prev hd) (\<lambda>x. b_refcnt x = 0)) (\<lambda>r.
         case r of
           Some b \<Rightarrow>
             kthen (set_buf b (\<lambda>x. x\<lparr>b_dev := dev, b_blockno := blockno, b_valid := False, b_refcnt := 1\<rparr>)) (
             kthen (release Lbcache) (
             kthen (acquiresleep (SLbuf b))
                   (kret b)))
         | None \<Rightarrow> kpanic ''bget: no buffers''))))"

text \<open>The part of \<^verbatim>\<open>bread\<close> after \<^verbatim>\<open>bget\<close>.\<close>

definition bread_fill :: "nat \<Rightarrow> ('z disk_machine_scheme, nat) kern" where
  "bread_fill b =
     kbind (get_buf b) (\<lambda>x.
     kthen (kwhen (\<not> b_valid x) (
              kthen (virtio_disk_rw b False)
                    (set_buf b (\<lambda>x. x\<lparr>b_valid := True\<rparr>))))
           (kret b))"

definition bread :: "u32 \<Rightarrow> u32 \<Rightarrow> ('z disk_machine_scheme, nat) kern" where
  "bread dev blockno = kbind (bget dev blockno) bread_fill"

text \<open>A thread that slept on the lock of buffer \<open>b\<close> in \<^verbatim>\<open>bget\<close>, when it runs again.\<close>

definition bread_resume :: "nat \<Rightarrow> bool \<Rightarrow> nat \<Rightarrow> ('z disk_machine_scheme, nat) kern" where
  "bread_resume p saved b = kthen (acquiresleep_resume p saved (SLbuf b)) (bread_fill b)"

definition bwrite :: "nat \<Rightarrow> ('z disk_machine_scheme, unit) kern" where
  "bwrite b =
     kbind (holdingsleep (SLbuf b)) (\<lambda>h.
     if \<not> h then kpanic ''bwrite'' else virtio_disk_rw b True)"

definition to_front :: "nat \<Rightarrow> ('z disk_machine_scheme, unit) kern" where
  "to_front b =
     kbind (get_buf b) (\<lambda>x.
     kthen (set_buf (b_next x) (\<lambda>y. y\<lparr>b_prev := b_prev x\<rparr>)) (
     kthen (set_buf (b_prev x) (\<lambda>y. y\<lparr>b_next := b_next x\<rparr>)) (
     kbind (get_buf NBUF) (\<lambda>hd.
     kthen (set_buf b (\<lambda>x. x\<lparr>b_next := b_next hd, b_prev := NBUF\<rparr>)) (
     kthen (set_buf (b_next hd) (\<lambda>y. y\<lparr>b_prev := b\<rparr>))
           (set_buf NBUF (\<lambda>y. y\<lparr>b_next := b\<rparr>)))))))"

definition brelse :: "nat \<Rightarrow> ('z disk_machine_scheme, unit) kern" where
  "brelse b =
     kbind (holdingsleep (SLbuf b)) (\<lambda>h.
     if \<not> h then kpanic ''brelse'' else
     kthen (releasesleep (SLbuf b)) (
     kthen (acquire Lbcache) (
     kthen (set_buf b (\<lambda>x. x\<lparr>b_refcnt := b_refcnt x - 1\<rparr>)) (
     kbind (get_buf b) (\<lambda>x.
     kthen (kwhen (b_refcnt x = 0) (to_front b))
           (release Lbcache))))))"

definition bpin :: "nat \<Rightarrow> ('z disk_machine_scheme, unit) kern" where
  "bpin b =
     kthen (acquire Lbcache) (
     kthen (set_buf b (\<lambda>x. x\<lparr>b_refcnt := b_refcnt x + 1\<rparr>))
           (release Lbcache))"

definition bunpin :: "nat \<Rightarrow> ('z disk_machine_scheme, unit) kern" where
  "bunpin b =
     kthen (acquire Lbcache) (
     kthen (set_buf b (\<lambda>x. x\<lparr>b_refcnt := b_refcnt x - 1\<rparr>))
           (release Lbcache))"

section \<open>The list of buffers\<close>

text \<open>Neighbours in a list of nodes are linked in both directions.\<close>

fun linked :: "(nat \<Rightarrow> buf) \<Rightarrow> nat list \<Rightarrow> bool" where
  "linked bs (a # b # ys) \<longleftrightarrow> b_next (bs a) = b \<and> b_prev (bs b) = a \<and> linked bs (b # ys)"
| "linked bs _ \<longleftrightarrow> True"

text \<open>The circular list through the head holds every buffer once, most recently used first.\<close>

definition lru :: "(nat \<Rightarrow> buf) \<Rightarrow> nat list \<Rightarrow> bool" where
  "lru bs xs \<longleftrightarrow> linked bs (NBUF # xs @ [NBUF]) \<and> distinct xs \<and> set xs = {0..<NBUF}"

lemma linked_join:
  "A \<noteq> [] \<Longrightarrow> C \<noteq> [] \<Longrightarrow>
   linked bs (A @ C) \<longleftrightarrow> linked bs A \<and> b_next (bs (last A)) = hd C \<and> b_prev (bs (hd C)) = last A \<and> linked bs C"
proof (induction A)
  case (Cons a A)
  show ?case
  proof (cases A)
    case Nil
    then show ?thesis using Cons.prems by (cases C) auto
  next
    case (Cons b B)
    then show ?thesis using Cons.IH Cons.prems by auto
  qed
qed simp

lemma linked_cong:
  "(\<And>a. a \<in> set (butlast ys) \<Longrightarrow> b_next (bs' a) = b_next (bs a)) \<Longrightarrow>
   (\<And>a. a \<in> set (tl ys) \<Longrightarrow> b_prev (bs' a) = b_prev (bs a)) \<Longrightarrow> linked bs' ys = linked bs ys"
proof (induction ys)
  case (Cons a ys)
  then show ?case by (cases ys) auto
qed simp

text \<open>The links of \<open>to_front\<close>, as functions on the buffers.\<close>

definition unlink_buf :: "nat \<Rightarrow> (nat \<Rightarrow> buf) \<Rightarrow> nat \<Rightarrow> buf" where
  "unlink_buf b bs =
     (let p = b_prev (bs b); n = b_next (bs b); bs1 = bs(n := (bs n)\<lparr>b_prev := p\<rparr>) in
      bs1(p := (bs1 p)\<lparr>b_next := n\<rparr>))"

definition push_front :: "nat \<Rightarrow> (nat \<Rightarrow> buf) \<Rightarrow> nat \<Rightarrow> buf" where
  "push_front b bs =
     (let h = b_next (bs NBUF); bs1 = bs(b := (bs b)\<lparr>b_next := h, b_prev := NBUF\<rparr>);
          bs2 = bs1(h := (bs1 h)\<lparr>b_prev := b\<rparr>) in
      bs2(NBUF := (bs2 NBUF)\<lparr>b_next := b\<rparr>))"

lemma push_front_linked:
  assumes "linked bs (NBUF # ys @ [NBUF])" "b \<noteq> NBUF" "b \<notin> set ys" "NBUF \<notin> set ys" "distinct ys"
  shows "linked (push_front b bs) (NBUF # b # ys @ [NBUF])"
proof (cases ys)
  case Nil
  then show ?thesis using assms by (simp add: push_front_def Let_def)
next
  case (Cons h zs)
  have "linked (push_front b bs) (h # zs @ [NBUF]) = linked bs (h # zs @ [NBUF])"
    by (rule linked_cong) (use assms Cons in \<open>auto simp: push_front_def Let_def butlast_append split: if_splits\<close>)
  then show ?thesis using assms Cons by (auto simp: push_front_def Let_def)
qed

lemma unlink_buf_linked:
  assumes "linked bs (NBUF # us @ b # vs @ [NBUF])" "distinct (us @ b # vs)" "NBUF \<notin> set (us @ b # vs)"
  shows "linked (unlink_buf b bs) (NBUF # us @ vs @ [NBUF])"
proof -
  define A C where "A = NBUF # us" and "C = vs @ [NBUF]"
  have ne: "A \<noteq> []" "C \<noteq> []" by (simp_all add: A_def C_def)
  have full: "linked bs (A @ b # C)" using assms(1) by (simp add: A_def C_def)
  have l1: "linked bs A" "b_prev (bs b) = last A" and l2: "linked bs (b # C)"
    using full ne linked_join[of A "b # C" bs] by auto
  have l3: "linked bs C" "b_next (bs b) = hd C" using l2 ne linked_join[of "[b]" C bs] by auto
  have lastA: "last A \<notin> set (butlast A)"
  proof -
    have "distinct A" using assms(2,3) by (simp add: A_def)
    then have "distinct (butlast A @ [last A])" using ne by simp
    then show ?thesis by simp
  qed
  have hdC: "hd C \<notin> set (tl C)"
  proof -
    have "distinct C" using assms(2,3) by (simp add: C_def)
    then have "distinct (hd C # tl C)" using ne by simp
    then show ?thesis by simp
  qed
  have A1: "linked (unlink_buf b bs) A = linked bs A"
  proof (rule linked_cong)
    show "b_next (unlink_buf b bs a) = b_next (bs a)" if "a \<in> set (butlast A)" for a
      using that lastA l1 by (auto simp: unlink_buf_def Let_def)
    show "b_prev (unlink_buf b bs a) = b_prev (bs a)" if "a \<in> set (tl A)" for a
      using that l3 assms(2,3) by (cases vs) (auto simp: unlink_buf_def Let_def A_def C_def)
  qed
  have C1: "linked (unlink_buf b bs) C = linked bs C"
  proof (rule linked_cong)
    show "b_next (unlink_buf b bs a) = b_next (bs a)" if "a \<in> set (butlast C)" for a
    proof -
      have "a \<in> set vs" using that by (simp add: C_def)
      moreover have "last A \<in> set A" using ne by simp
      ultimately have "a \<noteq> last A" using assms(2,3) by (auto simp: A_def)
      then show ?thesis using l1 by (auto simp: unlink_buf_def Let_def)
    qed
    show "b_prev (unlink_buf b bs a) = b_prev (bs a)" if "a \<in> set (tl C)" for a
      using that hdC l3 by (auto simp: unlink_buf_def Let_def)
  qed
  have "b_next (unlink_buf b bs (last A)) = hd C" "b_prev (unlink_buf b bs (hd C)) = last A"
    using l1 l3 by (auto simp: unlink_buf_def Let_def)
  then show ?thesis using linked_join[OF ne, of "unlink_buf b bs"] A1 C1 l1 l3 by (simp add: A_def C_def)
qed

lemma lruD:
  assumes "lru bs xs"
  shows "linked bs (NBUF # xs @ [NBUF])" "distinct xs" "set xs = {0..<NBUF}" "NBUF \<notin> set xs" "length xs = NBUF"
  using assms distinct_card[of xs] by (auto simp: lru_def)

lemma linked_ends:
  assumes "linked bs (NBUF # xs @ [NBUF])"
  shows "b_next (bs NBUF) = hd (xs @ [NBUF])" "b_prev (bs NBUF) = last (NBUF # xs)"
    "linked bs (xs @ [NBUF])" "linked bs (NBUF # xs)"
  using assms linked_join[of "[NBUF]" "xs @ [NBUF]" bs] linked_join[of "NBUF # xs" "[NBUF]" bs] by auto

text \<open>The two scans visit the buffers in list order, and in reverse.\<close>

lemma scan_next_run:
  assumes "linked (bufs s) (ys @ [NBUF])" "NBUF \<notin> set ys" "length ys < n"
  shows "scan_next n (hd (ys @ [NBUF])) P s = Ok (List.find (\<lambda>b. P (bufs s b)) ys) s"
  using assms
proof (induction ys arbitrary: n)
  case Nil
  then show ?case by (cases n) (simp_all add: kret_def)
next
  case (Cons y ys)
  then obtain m where n: "n = Suc m" "length ys < m" by (cases n) auto
  have "b_next (bufs s y) = hd (ys @ [NBUF])" "linked (bufs s) (ys @ [NBUF])"
    using Cons.prems(1) linked_join[of "[y]" "ys @ [NBUF]" "bufs s"] by auto
  then show ?case using Cons n by (simp add: kbind_def kret_def get_buf_def)
qed

lemma scan_prev_run:
  assumes "linked (bufs s) (NBUF # ys)" "NBUF \<notin> set ys" "length ys < n"
  shows "scan_prev n (last (NBUF # ys)) P s = Ok (List.find (\<lambda>b. P (bufs s b)) (rev ys)) s"
  using assms
proof (induction ys arbitrary: n rule: rev_induct)
  case Nil
  then show ?case by (cases n) (simp_all add: kret_def)
next
  case (snoc y ys)
  then obtain m where n: "n = Suc m" "length ys < m" by (cases n) auto
  have "b_prev (bufs s y) = last (NBUF # ys)" "linked (bufs s) (NBUF # ys)"
    using snoc.prems(1) linked_join[of "NBUF # ys" "[y]" "bufs s"] by auto
  moreover have "last (NBUF # ys @ [y]) = y" by simp
  ultimately show ?case using snoc n by (simp add: kbind_def kret_def get_buf_def del: last.simps)
qed

lemma to_front_run: "to_front b s = Ok () (s\<lparr>bufs := push_front b (unlink_buf b (bufs s))\<rparr>)"
  by (simp add: to_front_def kbind_def kthen_def get_buf_def set_buf_def unlink_buf_def push_front_def Let_def)

lemma lru_to_front:
  assumes "lru bs xs" "b < NBUF"
  shows "lru (push_front b (unlink_buf b bs)) (b # remove1 b xs)"
proof -
  have "b \<in> set xs" using assms lruD(3) by simp
  then obtain us vs where xs: "xs = us @ b # vs" "b \<notin> set us" by (meson split_list_first)
  have d: "distinct (us @ b # vs)" "NBUF \<notin> set (us @ b # vs)" using lruD(2,4)[OF assms(1)] xs by simp_all
  have "linked (unlink_buf b bs) (NBUF # (us @ vs) @ [NBUF])"
    using unlink_buf_linked[of bs us b vs] lruD(1)[OF assms(1)] d xs by simp
  then have "linked (push_front b (unlink_buf b bs)) (NBUF # b # (us @ vs) @ [NBUF])"
    using d by (intro push_front_linked) auto
  moreover have "remove1 b xs = us @ vs" using xs by (simp add: remove1_append)
  moreover have "set (b # us @ vs) = {0..<NBUF}" using lruD(3)[OF assms(1)] xs by auto
  ultimately show ?thesis using d by (simp add: lru_def)
qed

section \<open>The blocks behind the buffers\<close>

text \<open>
  What the cache stands for: the content of each block of the root device, the number of references to
  it, and whether it is locked. The driver multiplies a block number by two in 32 bits, so that only the
  numbers below \<open>2 ^ 31\<close> name different blocks.
\<close>

definition key :: "buf \<Rightarrow> blk option" where
  "key x = (if b_dev x = ROOTDEV \<and> unat (b_blockno x) < 2 ^ 31 then Some (unat (b_blockno x)) else None)"

definition cached :: "(nat \<Rightarrow> buf) \<Rightarrow> blk \<Rightarrow> nat option" where
  "cached bs k = List.find (\<lambda>b. key (bs b) = Some k) [0..<NBUF]"

definition content :: "'z disk_machine_scheme \<Rightarrow> blk \<Rightarrow> u8 list" where
  "content s k = (case cached (bufs s) k of
     Some b \<Rightarrow> if b_valid (bufs s b) then b_data (bufs s b) else disk_block (disk_img s) k
   | None \<Rightarrow> disk_block (disk_img s) k)"

definition refs :: "'z disk_machine_scheme \<Rightarrow> blk \<Rightarrow> nat" where
  "refs s k = (case cached (bufs s) k of Some b \<Rightarrow> unat (b_refcnt (bufs s b)) | None \<Rightarrow> 0)"

definition blocked :: "'z disk_machine_scheme \<Rightarrow> blk \<Rightarrow> bool" where
  "blocked s k = (case cached (bufs s) k of Some b \<Rightarrow> sl_locked (sleeplocks s (SLbuf b)) | None \<Rightarrow> False)"

definition uniq :: "(nat \<Rightarrow> buf) \<Rightarrow> bool" where
  "uniq bs \<longleftrightarrow> (\<forall>a<NBUF. \<forall>b<NBUF. key (bs a) = key (bs b) \<and> key (bs a) \<noteq> None \<longrightarrow> a = b)"

text \<open>What holds of one buffer: \<open>l\<close> is its lock, \<open>pid\<close> the process that runs.\<close>

definition buf_ok :: "diskimg \<Rightarrow> int \<Rightarrow> sleeplock \<Rightarrow> buf \<Rightarrow> bool" where
  "buf_ok im pid l x \<longleftrightarrow> length (b_data x) = BSIZE \<and> (sl_locked l \<longrightarrow> sl_pid l = pid \<and> b_refcnt x \<noteq> 0 \<and> b_valid x)
     \<and> (\<forall>k. key x = Some k \<and> b_refcnt x = 0 \<and> b_valid x \<longrightarrow> b_data x = disk_block im k)
     \<and> (b_refcnt x \<noteq> 0 \<longrightarrow> key x \<noteq> None)"

definition cache_ok :: "nat \<Rightarrow> 'z disk_machine_scheme \<Rightarrow> bool" where
  "cache_ok p s \<longleftrightarrow> disk_ready p s \<and> (\<exists>xs. lru (bufs s) xs) \<and> uniq (bufs s)
     \<and> (\<forall>sec. length (img_read (disk_img s) sec) = BSIZE)
     \<and> (\<forall>b<NBUF. buf_ok (disk_img s) (p_pid (procs s p)) (sleeplocks s (SLbuf b)) (bufs s b))"

lemma cache_okD:
  assumes "cache_ok p s"
  shows "disk_ready p s" "\<exists>xs. lru (bufs s) xs" "uniq (bufs s)" "length (img_read (disk_img s) sec) = BSIZE"
    "b < NBUF \<Longrightarrow> buf_ok (disk_img s) (p_pid (procs s p)) (sleeplocks s (SLbuf b)) (bufs s b)"
  using assms by (simp_all add: cache_ok_def)

lemma find_SomeD: "List.find P xs = Some x \<Longrightarrow> x \<in> set xs \<and> P x"
  by (induction xs) (auto split: if_splits)

lemma cached_None: "cached bs k = None \<longleftrightarrow> (\<forall>b<NBUF. key (bs b) \<noteq> Some k)"
  by (auto simp: cached_def find_None_iff)

lemma cached_Some:
  assumes "uniq bs"
  shows "cached bs k = Some b \<longleftrightarrow> b < NBUF \<and> key (bs b) = Some k"
proof
  assume "cached bs k = Some b"
  then show "b < NBUF \<and> key (bs b) = Some k" using find_SomeD by (fastforce simp: cached_def)
next
  assume a: "b < NBUF \<and> key (bs b) = Some k"
  then obtain c where c: "cached bs k = Some c" using cached_None by (cases "cached bs k") auto
  then have "c < NBUF" "key (bs c) = Some k" using find_SomeD by (fastforce simp: cached_def)+
  then show "cached bs k = Some b" using assms a c by (auto simp: uniq_def)
qed

text \<open>
  One buffer \<open>b\<close> changes so that it now holds block \<open>k\<close>; before, it held the same block, or it was
  unused and no buffer held it.
\<close>

definition takes :: "(nat \<Rightarrow> buf) \<Rightarrow> nat \<Rightarrow> buf \<Rightarrow> blk \<Rightarrow> bool" where
  "takes bs b x k \<longleftrightarrow> b < NBUF \<and> key x = Some k \<and> b_prev x = b_prev (bs b) \<and> b_next x = b_next (bs b)
     \<and> (key (bs b) = Some k \<or> cached bs k = None \<and> b_refcnt (bs b) = 0)"

lemma takes_uniq:
  assumes "uniq bs" "takes bs b x k"
  shows "uniq (bs(b := x))"
proof -
  have "key (bs a) \<noteq> Some k" if "a < NBUF" "a \<noteq> b" for a
    using assms that unfolding takes_def by (metis cached_None cached_Some option.inject)
  then have "\<forall>a<NBUF. a \<noteq> b \<longrightarrow> key (bs a) \<noteq> key x" using assms(2) by (simp add: takes_def)
  then show ?thesis using assms(1) unfolding uniq_def by (metis fun_upd_apply)
qed

lemma takes_cached:
  assumes "uniq bs" "takes bs b x k"
  shows "cached (bs(b := x)) j = (if j = k then Some b else if key (bs b) = Some j then None else cached bs j)"
proof -
  note u = takes_uniq[OF assms]
  consider "j = k" | "j \<noteq> k" "key (bs b) = Some j" | "j \<noteq> k" "key (bs b) \<noteq> Some j" by blast
  then show ?thesis
  proof cases
    case 1
    then show ?thesis using assms(2) by (simp add: cached_Some[OF u] takes_def)
  next
    case 2
    then have "cached (bs(b := x)) j \<noteq> Some a" for a
      using assms cached_Some[OF u, of j a] by (auto simp: takes_def uniq_def)
    then show ?thesis using 2 by (cases "cached (bs(b := x)) j") auto
  next
    case 3
    then have "(cached (bs(b := x)) j = Some a) = (cached bs j = Some a)" for a
      using assms(2) by (auto simp: cached_Some[OF u] cached_Some[OF assms(1)] takes_def)
    then show ?thesis using 3 by (metis option.exhaust)
  qed
qed

lemma lru_upd:
  "b_prev x = b_prev (bs b) \<Longrightarrow> b_next x = b_next (bs b) \<Longrightarrow> lru (bs(b := x)) xs = lru bs xs"
  unfolding lru_def by (subst linked_cong[of "NBUF # xs @ [NBUF]" "bs(b := x)" bs]) (auto split: if_splits)

section \<open>Steps of the cache\<close>

text \<open>The parts of the state that the cache may change.\<close>

definition bio_frame :: "'z disk_machine_scheme \<Rightarrow> 'z disk_machine_scheme \<Rightarrow> bool" where
  "bio_frame s s' \<longleftrightarrow> s' = s\<lparr>hart := hart s', con := con s', sleeplocks := sleeplocks s', vdisk := vdisk s',
     bufs := bufs s', disk_img := disk_img s', mmio_writes := mmio_writes s'\<rparr>"

lemma bio_frameD:
  assumes "bio_frame s s'"
  shows "procs s' = procs s" "device s' = device s" "disk_machine.more s' = disk_machine.more s"
proof -
  note eq = assms[unfolded bio_frame_def]
  show "procs s' = procs s" by (rule trans[OF arg_cong[OF eq, of procs]]) simp
  show "device s' = device s" by (rule trans[OF arg_cong[OF eq, of device]]) simp
  show "disk_machine.more s' = disk_machine.more s" by (rule trans[OF arg_cong[OF eq, of disk_machine.more]]) simp
qed

lemma bio_frame_refl [simp]: "bio_frame s s"
  by (simp add: bio_frame_def)

lemma bio_frame_trans:
  assumes "bio_frame s t" "bio_frame t u"
  shows "bio_frame s u"
proof -
  let ?F = "\<lambda>t. t\<lparr>hart := hart u, con := con u, sleeplocks := sleeplocks u, vdisk := vdisk u,
    bufs := bufs u, disk_img := disk_img u, mmio_writes := mmio_writes u\<rparr>"
  have "u = ?F t" using assms(2) by (simp add: bio_frame_def)
  also have "\<dots> = ?F s" by (rule trans[OF arg_cong[OF assms(1)[unfolded bio_frame_def], of ?F]]) simp
  finally show ?thesis unfolding bio_frame_def .
qed

text \<open>The abstract effect of a step on block \<open>k\<close>: its content, its references and its lock.\<close>

definition stepped ::
  "nat \<Rightarrow> 'z disk_machine_scheme \<Rightarrow> 'z disk_machine_scheme \<Rightarrow> blk \<Rightarrow> nat \<Rightarrow> u8 list \<Rightarrow> nat \<Rightarrow> bool \<Rightarrow> bool" where
  "stepped p s s' k b d r l \<longleftrightarrow> cache_ok p s' \<and> bio_frame s s' \<and> cached (bufs s') k = Some b
     \<and> content s' = (content s)(k := d) \<and> refs s' = (refs s)(k := r) \<and> blocked s' = (blocked s)(k := l)
     \<and> (\<forall>j. 0 < refs s j \<and> j \<noteq> k \<longrightarrow> cached (bufs s') j = cached (bufs s) j)"

lemma cache_step:
  assumes ok: "cache_ok p s" and tk: "takes (bufs s) b x k" and fr: "bio_frame s s'"
    and s': "bufs s' = (bufs s)(b := x)" "disk_img s' = disk_img s" "sleeplocks s' = (sleeplocks s)(SLbuf b := l)"
    and rd: "disk_ready p s'" and x: "buf_ok (disk_img s) (p_pid (procs s p)) l x"
  shows "stepped p s s' k b (if b_valid x then b_data x else disk_block (disk_img s) k) (unat (b_refcnt x)) (sl_locked l)"
proof -
  note u = cache_okD(3)[OF ok] and pr = bio_frameD[OF fr]
  note ch = takes_cached[OF u tk]
  have b: "b < NBUF" using tk by (simp add: takes_def)
  obtain xs where "lru (bufs s) xs" using cache_okD(2)[OF ok] by blast
  then have "lru (bufs s') xs" unfolding s'(1) using tk by (subst lru_upd) (simp_all add: takes_def)
  then have ok': "cache_ok p s'"
    using ok takes_uniq[OF u tk] rd x b by (auto simp: cache_ok_def s' pr)
  text \<open>The block the buffer held before is as it was: the buffer was clean and unlocked.\<close>
  have old: "content s j = disk_block (disk_img s) j \<and> refs s j = 0 \<and> \<not> blocked s j"
    if "key (bufs s b) = Some j" "j \<noteq> k" for j
  proof -
    have r: "b_refcnt (bufs s b) = 0" using tk that by (auto simp: takes_def)
    have "cached (bufs s) j = Some b" using that b cached_Some[OF u, of j b] by simp
    then show ?thesis using r cache_okD(5)[OF ok b] that
      by (auto simp: content_def refs_def blocked_def buf_ok_def)
  qed
  have "content s' j = (if j = k then (if b_valid x then b_data x else disk_block (disk_img s) k) else content s j)
      \<and> refs s' j = (if j = k then unat (b_refcnt x) else refs s j)
      \<and> blocked s' j = (if j = k then sl_locked l else blocked s j)" for j
  proof (cases "j \<noteq> k \<and> key (bufs s b) = Some j")
    case True
    then have "cached (bufs s') j = None" by (simp add: s' ch)
    then show ?thesis using old[of j] True by (simp add: content_def refs_def blocked_def s')
  next
    case other: False
    show ?thesis
    proof (cases "j = k")
      case True
      then show ?thesis by (simp add: content_def refs_def blocked_def s' ch)
    next
      case False
      then have c: "cached (bufs s') j = cached (bufs s) j" using other by (simp add: s' ch)
      have "a \<noteq> b" if "cached (bufs s) j = Some a" for a using that cached_Some[OF u] other False by blast
      then show ?thesis
        using False c by (cases "cached (bufs s) j") (simp_all add: content_def refs_def blocked_def s')
    qed
  qed
  moreover have "cached (bufs s') j = cached (bufs s) j" if "0 < refs s j" "j \<noteq> k" for j
    using that old[of j] by (auto simp: s' ch)
  moreover have "cached (bufs s') k = Some b" by (simp add: s' ch)
  ultimately show ?thesis unfolding stepped_def using ok' fr by (simp add: fun_eq_iff)
qed

declare scan_next.simps [simp del] scan_prev.simps [simp del]

lemma find_lru:
  assumes "lru bs xs" "uniq bs" "unat bno < 2 ^ 31"
  shows "List.find (\<lambda>b. b_dev (bs b) = ROOTDEV \<and> b_blockno (bs b) = bno) xs = cached bs (unat bno)"
proof -
  let ?P = "\<lambda>b. b_dev (bs b) = ROOTDEV \<and> b_blockno (bs b) = bno"
  have P: "?P b = (key (bs b) = Some (unat bno))" for b using assms(3) by (auto simp: key_def word_unat_eq_iff)
  show ?thesis
  proof (cases "List.find ?P xs")
    case None
    then have "cached bs (unat bno) = None"
      using lruD(3)[OF assms(1)] by (auto simp: cached_None find_None_iff simp flip: P)
    then show ?thesis using None by simp
  next
    case (Some b)
    then have "b < NBUF" "?P b" using find_SomeD[OF Some] lruD(3)[OF assms(1)] by auto
    then have "cached bs (unat bno) = Some b" using cached_Some[OF assms(2)] P by simp
    then show ?thesis using Some by simp
  qed
qed

text \<open>\<^verbatim>\<open>bget\<close> on a machine with every lock free.\<close>

definition lock_buf :: "nat \<Rightarrow> nat \<Rightarrow> 'z disk_machine_scheme \<Rightarrow> sleeplock" where
  "lock_buf p b s = (sleeplocks s (SLbuf b))\<lparr>sl_locked := True, sl_pid := p_pid (procs s p)\<rparr>"

lemma bget_tail:
  assumes "solo p s" "\<not> sl_locked (sleeplocks s (SLbuf b))"
  shows "kthen (set_buf b f) (kthen (release Lbcache) (kthen (acquiresleep (SLbuf b)) (kret b))) (s\<lparr>hart := acq Lbcache (hart s)\<rparr>) =
    Ok b (s\<lparr>bufs := (bufs s)(b := f (bufs s b)), hart := scrub (hart s),
            sleeplocks := (sleeplocks s)(SLbuf b := lock_buf p b s)\<rparr>)"
proof -
  note so = soloD[OF assms(1)]
  let ?t = "s\<lparr>bufs := (bufs s)(b := f (bufs s b)), hart := scrub (hart s)\<rparr>"
  have "solo p ?t" by (rule solo_cong[OF assms(1)]) simp_all
  then have "acquiresleep (SLbuf b) ?t = Ok () (?t\<lparr>hart := scrub (hart ?t), sleeplocks := (sleeplocks ?t)(SLbuf b :=
    (sleeplocks ?t (SLbuf b))\<lparr>sl_locked := True, sl_pid := p_pid (procs ?t p)\<rparr>)\<rparr>)"
    using assms(2) by (intro acquiresleep_run) simp_all
  then show ?thesis using so
    by (simp add: kthen_def kbind_def kret_def set_buf_def release_run lock_buf_def)
qed

lemma bget_hit:
  assumes ok: "cache_ok p s" and hit: "cached (bufs s) (unat bno) = Some b" "\<not> sl_locked (sleeplocks s (SLbuf b))"
    and bno: "unat bno < 2 ^ 31"
  shows "bget ROOTDEV bno s = Ok b (s\<lparr>bufs := (bufs s)(b := (bufs s b)\<lparr>b_refcnt := b_refcnt (bufs s b) + 1\<rparr>),
     hart := scrub (hart s), sleeplocks := (sleeplocks s)(SLbuf b := lock_buf p b s)\<rparr>)"
proof -
  obtain xs where l: "lru (bufs s) xs" using cache_okD(2)[OF ok] by blast
  note e = linked_ends[OF lruD(1)[OF l]]
  have so: "solo p s" using cache_okD(1)[OF ok] by (simp add: disk_ready_def)
  let ?s1 = "s\<lparr>hart := acq Lbcache (hart s)\<rparr>"
  have sc: "scan_next (NBUF + 1) (hd (xs @ [NBUF])) (\<lambda>x. b_dev x = ROOTDEV \<and> b_blockno x = bno) ?s1 = Ok (Some b) ?s1"
    using scan_next_run[of ?s1 xs "NBUF + 1" "\<lambda>x. b_dev x = ROOTDEV \<and> b_blockno x = bno"] e(3) lruD(4,5)[OF l]
      find_lru[OF l cache_okD(3)[OF ok] bno] hit(1) by simp
  show ?thesis using soloD[OF so] e(1) sc bget_tail[OF so hit(2)]
    by (simp add: bget_def kthen_def kbind_def acquire_run get_buf_def)
qed

definition recycled :: "u32 \<Rightarrow> buf \<Rightarrow> buf" where
  "recycled bno x = x\<lparr>b_dev := ROOTDEV, b_blockno := bno, b_valid := False, b_refcnt := 1\<rparr>"

lemma bget_miss:
  assumes ok: "cache_ok p s" and miss: "cached (bufs s) (unat bno) = None" "unat bno < 2 ^ 31"
    and free: "\<exists>b<NBUF. b_refcnt (bufs s b) = 0"
  shows "\<exists>b<NBUF. b_refcnt (bufs s b) = 0 \<and> bget ROOTDEV bno s = Ok b (s\<lparr>bufs := (bufs s)(b := recycled bno (bufs s b)),
     hart := scrub (hart s), sleeplocks := (sleeplocks s)(SLbuf b := lock_buf p b s)\<rparr>)"
proof -
  obtain xs where l: "lru (bufs s) xs" using cache_okD(2)[OF ok] by blast
  note e = linked_ends[OF lruD(1)[OF l]]
  have so: "solo p s" using cache_okD(1)[OF ok] by (simp add: disk_ready_def)
  let ?s1 = "s\<lparr>hart := acq Lbcache (hart s)\<rparr>"
  obtain b where b: "List.find (\<lambda>b. b_refcnt (bufs s b) = 0) (rev xs) = Some b"
    using free lruD(3)[OF l] by (cases "List.find (\<lambda>b. b_refcnt (bufs s b) = 0) (rev xs)") (auto simp: find_None_iff)
  then have "b \<in> set (rev xs)" and r: "b_refcnt (bufs s b) = 0" using find_SomeD by fastforce+
  then have bn: "b < NBUF" using lruD(3)[OF l] by simp
  have unl: "\<not> sl_locked (sleeplocks s (SLbuf b))" using cache_okD(5)[OF ok bn] r by (auto simp: buf_ok_def)
  have sc: "scan_next (NBUF + 1) (hd (xs @ [NBUF])) (\<lambda>x. b_dev x = ROOTDEV \<and> b_blockno x = bno) ?s1 = Ok None ?s1"
    using scan_next_run[of ?s1 xs "NBUF + 1" "\<lambda>x. b_dev x = ROOTDEV \<and> b_blockno x = bno"] e(3) lruD(4,5)[OF l]
      find_lru[OF l cache_okD(3)[OF ok] miss(2)] miss(1) by simp
  have sp: "scan_prev (NBUF + 1) (last (NBUF # xs)) (\<lambda>x. b_refcnt x = 0) ?s1 = Ok (Some b) ?s1"
    using scan_prev_run[of ?s1 xs "NBUF + 1" "\<lambda>x. b_refcnt x = 0"] e(4) lruD(4,5)[OF l] b by simp
  have "bget ROOTDEV bno s = Ok b (s\<lparr>bufs := (bufs s)(b := recycled bno (bufs s b)),
     hart := scrub (hart s), sleeplocks := (sleeplocks s)(SLbuf b := lock_buf p b s)\<rparr>)"
    using soloD[OF so] e(1,2) sc sp bget_tail[OF so unl]
    by (simp add: bget_def kthen_def kbind_def acquire_run get_buf_def recycled_def)
  then show ?thesis using bn r by blast
qed

lemma solo_ready: "disk_ready p s \<Longrightarrow> solo p s"
  by (simp add: disk_ready_def)

lemma bread_fill_run:
  assumes "disk_ready p t"
  shows "\<exists>s'. bread_fill b t = Ok b s' \<and> disk_img s' = disk_img t \<and> sleeplocks s' = sleeplocks t
    \<and> disk_ready p s' \<and> bio_frame t s' \<and> bufs s' = (if b_valid (bufs t b) then bufs t else
      (bufs t)(b := (bufs t b)\<lparr>b_data := img_read (disk_img t) (sector_of (b_blockno (bufs t b))),
         b_disk := False, b_valid := True\<rparr>))"
proof (cases "b_valid (bufs t b)")
  case True
  then have "bread_fill b t = Ok b t" by (simp add: bread_fill_def kbind_def kthen_def kret_def get_buf_def)
  then show ?thesis using True assms by simp
next
  case False
  obtain v m where v: "idle v" and r: "virtio_disk_rw b False t =
     Ok () (t\<lparr>con := outs (rw_text b False t) (con t), hart := scrub (hart t), vdisk := v, bufs := rw_bufs b False t,
              disk_img := rw_image b False t, mmio_writes := m\<rparr>)" (is "_ = Ok () ?u")
    using virtio_disk_rw_run[OF assms] by blast
  let ?s = "?u\<lparr>bufs := (bufs ?u)(b := (bufs ?u b)\<lparr>b_valid := True\<rparr>)\<rparr>"
  have "bread_fill b t = Ok b ?s"
    using False r by (simp add: bread_fill_def kbind_def kthen_def kret_def get_buf_def set_buf_def)
  moreover have "disk_ready p ?s" by (rule disk_ready_cong[OF assms]) (use v in simp_all)
  moreover have "bio_frame t ?s" by (simp add: bio_frame_def)
  ultimately show ?thesis using False
    by (intro exI[of _ ?s]) (simp add: rw_bufs_def rw_image_def)
qed

text \<open>A buffer that can be given to a new block.\<close>

definition free_buf :: "'z disk_machine_scheme \<Rightarrow> bool" where
  "free_buf s \<longleftrightarrow> (\<exists>b<NBUF. b_refcnt (bufs s b) = 0)"

text \<open>
  The change of one buffer by \<^verbatim>\<open>bread\<close>: \<open>b\<close> is in state \<open>s\<close>, and \<open>t\<close> is the state after \<^verbatim>\<open>bget\<close>.
\<close>

lemma bread_from_bget:
  assumes ok: "cache_ok p s" and bno: "unat bno < 2 ^ 31"
    and get: "bget ROOTDEV bno s = Ok b (s\<lparr>bufs := (bufs s)(b := x), hart := scrub (hart s),
       sleeplocks := (sleeplocks s)(SLbuf b := lock_buf p b s)\<rparr>)"
    and tk: "takes (bufs s) b x (unat bno)" and x: "length (b_data x) = BSIZE" "b_refcnt x \<noteq> 0"
    and c: "content s (unat bno) = (if b_valid x then b_data x else disk_block (disk_img s) (unat bno))"
  shows "\<exists>s'. bread ROOTDEV bno s = Ok b s' \<and> disk_img s' = disk_img s
     \<and> stepped p s s' (unat bno) b (content s (unat bno)) (unat (b_refcnt x)) True"
proof -
  let ?t = "s\<lparr>bufs := (bufs s)(b := x), hart := scrub (hart s),
       sleeplocks := (sleeplocks s)(SLbuf b := lock_buf p b s)\<rparr>"
  have "disk_ready p ?t" by (rule disk_ready_cong[OF cache_okD(1)[OF ok]])
    (use cache_okD(1)[OF ok] in \<open>simp_all add: disk_ready_def\<close>)
  then obtain s' where f: "bread_fill b ?t = Ok b s'" "disk_img s' = disk_img ?t" "sleeplocks s' = sleeplocks ?t"
    "disk_ready p s'" "bio_frame ?t s'" "bufs s' = (if b_valid (bufs ?t b) then bufs ?t else
      (bufs ?t)(b := (bufs ?t b)\<lparr>b_data := img_read (disk_img ?t) (sector_of (b_blockno (bufs ?t b))),
         b_disk := False, b_valid := True\<rparr>))"
    using bread_fill_run by blast
  have k: "key x = Some (unat bno)" using tk by (simp add: takes_def)
  then have kb: "b_blockno x = bno" by (auto simp: key_def word_unat_eq_iff split: if_splits)
  define y where "y = (if b_valid x then x else
     x\<lparr>b_data := img_read (disk_img s) (sector_of bno), b_disk := False, b_valid := True\<rparr>)"
  have y: "b_valid y" "b_refcnt y = b_refcnt x" "key y = key x" "b_prev y = b_prev x" "b_next y = b_next x"
    by (simp_all add: y_def key_def)
  have dy: "b_data y = content s (unat bno)" using c bno by (simp add: y_def disk_block_def)
  have fr: "bio_frame s ?t" by (simp add: bio_frame_def)
  have "stepped p s s' (unat bno) b (if b_valid y then b_data y else disk_block (disk_img s) (unat bno))
     (unat (b_refcnt y)) (sl_locked (lock_buf p b s))"
  proof (rule cache_step[OF ok])
    show "takes (bufs s) b y (unat bno)" using tk y by (simp add: takes_def)
    show "bio_frame s s'" by (rule bio_frame_trans[OF fr f(5)])
    show "bufs s' = (bufs s)(b := y)" using f(6) kb by (simp add: y_def)
    show "disk_img s' = disk_img s" "sleeplocks s' = (sleeplocks s)(SLbuf b := lock_buf p b s)" "disk_ready p s'"
      using f by simp_all
    show "buf_ok (disk_img s) (p_pid (procs s p)) (lock_buf p b s) y"
      using x y k cache_okD(4)[OF ok] by (auto simp: buf_ok_def lock_buf_def y_def)
  qed
  moreover have "bread ROOTDEV bno s = Ok b s'" using get f(1) by (simp add: bread_def kbind_def)
  ultimately show ?thesis using f(2) y by (simp add: dy lock_buf_def)
qed

lemma bread_run:
  assumes ok: "cache_ok p s" and bno: "unat bno < 2 ^ 31" and unl: "\<not> blocked s (unat bno)"
    and rf: "refs s (unat bno) < 2 ^ 32 - 1" and room: "0 < refs s (unat bno) \<or> free_buf s"
  shows "\<exists>b s'. bread ROOTDEV bno s = Ok b s' \<and> disk_img s' = disk_img s
     \<and> stepped p s s' (unat bno) b (content s (unat bno)) (refs s (unat bno) + 1) True"
proof (cases "cached (bufs s) (unat bno)")
  case None
  have fr: "\<exists>b<NBUF. b_refcnt (bufs s b) = 0" using room None by (simp add: free_buf_def refs_def)
  obtain b where b: "b < NBUF" "b_refcnt (bufs s b) = 0" and get: "bget ROOTDEV bno s = Ok b
     (s\<lparr>bufs := (bufs s)(b := recycled bno (bufs s b)), hart := scrub (hart s),
        sleeplocks := (sleeplocks s)(SLbuf b := lock_buf p b s)\<rparr>)"
    using bget_miss[OF ok None bno fr] by blast
  have "\<exists>s'. bread ROOTDEV bno s = Ok b s' \<and> disk_img s' = disk_img s \<and> stepped p s s' (unat bno) b
     (content s (unat bno)) (unat (b_refcnt (recycled bno (bufs s b)))) True"
    by (rule bread_from_bget[OF ok bno get])
      (use b None bno cache_okD(5)[OF ok b(1)] in \<open>simp_all add: takes_def recycled_def key_def content_def buf_ok_def\<close>)
  then show ?thesis using None by (auto simp: refs_def recycled_def)
next
  case (Some b)
  then have b: "b < NBUF" "key (bufs s b) = Some (unat bno)" using cached_Some[OF cache_okD(3)[OF ok]] by auto
  have l: "\<not> sl_locked (sleeplocks s (SLbuf b))" using unl Some by (simp add: blocked_def)
  let ?x = "(bufs s b)\<lparr>b_refcnt := b_refcnt (bufs s b) + 1\<rparr>"
  have kx: "key ?x = key (bufs s b)" by (simp add: key_def)
  have r: "unat (b_refcnt (bufs s b) + 1) = refs s (unat bno) + 1"
    using rf Some by (simp add: refs_def unat_word_ariths)
  then have nz: "b_refcnt (bufs s b) + 1 \<noteq> 0" by (metis add_is_0 unat_0 zero_neq_one)
  have "\<exists>s'. bread ROOTDEV bno s = Ok b s' \<and> disk_img s' = disk_img s \<and> stepped p s s' (unat bno) b
     (content s (unat bno)) (unat (b_refcnt ?x)) True"
    by (rule bread_from_bget[OF ok bno bget_hit[OF ok Some l bno]])
      (use b Some nz kx cache_okD(5)[OF ok b(1)] in \<open>simp_all add: takes_def content_def buf_ok_def\<close>)
  then show ?thesis using r by auto
qed

lemma steppedD:
  assumes "stepped p s s' k b d r l"
  shows "cache_ok p s'" "bio_frame s s'" "cached (bufs s') k = Some b" "content s' = (content s)(k := d)"
    "refs s' = (refs s)(k := r)" "blocked s' = (blocked s)(k := l)"
    "0 < refs s j \<Longrightarrow> j \<noteq> k \<Longrightarrow> cached (bufs s') j = cached (bufs s) j"
  using assms by (simp_all add: stepped_def)

text \<open>A step that keeps the place of the block: only counts, data and flags of its buffer change.\<close>

lemma held_step:
  assumes ok: "cache_ok p s" and b: "cached (bufs s) k = Some b" "b_valid (bufs s b)"
    and x: "x = (bufs s b)\<lparr>b_data := d, b_refcnt := r, b_disk := e\<rparr>" "length d = BSIZE" "r \<noteq> 0"
    and fr: "bio_frame s s'" and s': "bufs s' = (bufs s)(b := x)" "disk_img s' = disk_img s" "sleeplocks s' = sleeplocks s"
    and rd: "disk_ready p s'"
  shows "stepped p s s' k b d (unat r) (blocked s k)"
proof -
  have bn: "b < NBUF" "key (bufs s b) = Some k" using b cached_Some[OF cache_okD(3)[OF ok]] by auto
  have kx: "key x = key (bufs s b)" by (simp add: x key_def)
  have "stepped p s s' k b (if b_valid x then b_data x else disk_block (disk_img s) k) (unat (b_refcnt x))
     (sl_locked (sleeplocks s (SLbuf b)))"
  proof (rule cache_step[OF ok _ fr s'(1,2) _ rd])
    show "takes (bufs s) b x k" using bn kx by (simp add: takes_def x)
    show "sleeplocks s' = (sleeplocks s)(SLbuf b := sleeplocks s (SLbuf b))" using s'(3) by simp
    show "buf_ok (disk_img s) (p_pid (procs s p)) (sleeplocks s (SLbuf b)) x"
      using cache_okD(5)[OF ok bn(1)] x b kx bn by (simp add: buf_ok_def)
  qed
  then show ?thesis using b x by (simp add: blocked_def)
qed

lemma ready_upd:
  "disk_ready p s \<Longrightarrow> disk_ready p (s\<lparr>bufs := bs, hart := scrub (hart s)\<rparr>)"
  "disk_ready p s \<Longrightarrow> disk_ready p (s\<lparr>bufs := bs\<rparr>)"
  by (rule disk_ready_cong[of p s]; simp add: disk_ready_def)+

lemma blocked_valid:
  assumes "cache_ok p s" "blocked s k" "cached (bufs s) k = Some b"
  shows "b_valid (bufs s b)" "b_refcnt (bufs s b) \<noteq> 0" "content s k = b_data (bufs s b)"
    "length (b_data (bufs s b)) = BSIZE" "sl_locked (sleeplocks s (SLbuf b))"
    "sl_pid (sleeplocks s (SLbuf b)) = p_pid (procs s p)" "refs s k = unat (b_refcnt (bufs s b))" "0 < refs s k"
    "k < 2 ^ 31" "b < NBUF" "b_blockno (bufs s b) = of_nat k" "b_dev (bufs s b) = ROOTDEV"
proof -
  have bn: "b < NBUF" "key (bufs s b) = Some k" using assms cached_Some[OF cache_okD(3)[OF assms(1)]] by auto
  have l: "sl_locked (sleeplocks s (SLbuf b))" using assms(2,3) by (simp add: blocked_def)
  note o = cache_okD(5)[OF assms(1) bn(1)]
  show v: "b_valid (bufs s b)" "b_refcnt (bufs s b) \<noteq> 0" "length (b_data (bufs s b)) = BSIZE"
    "sl_locked (sleeplocks s (SLbuf b))" "sl_pid (sleeplocks s (SLbuf b)) = p_pid (procs s p)"
    using o l by (simp_all add: buf_ok_def)
  show "content s k = b_data (bufs s b)" "refs s k = unat (b_refcnt (bufs s b))" using v assms(3)
    by (simp_all add: content_def refs_def)
  then show "0 < refs s k" using v(2) by (simp add: unat_gt_0)
  show "b < NBUF" by (rule bn)
  show "k < 2 ^ 31" "b_dev (bufs s b) = ROOTDEV" using bn(2) by (auto simp: key_def split: if_splits)
  have "k = unat (b_blockno (bufs s b))" using bn(2) by (auto simp: key_def split: if_splits)
  then show "b_blockno (bufs s b) = of_nat k" by simp
qed

lemma edit_run:
  assumes ok: "cache_ok p s" and b: "blocked s k" "cached (bufs s) k = Some b" and l: "length (f (content s k)) = BSIZE"
  shows "\<exists>s'. set_buf b (\<lambda>x. x\<lparr>b_data := f (b_data x)\<rparr>) s = Ok () s' \<and> disk_img s' = disk_img s
     \<and> stepped p s s' k b (f (content s k)) (refs s k) True"
proof -
  note v = blocked_valid[OF ok b]
  let ?x = "(bufs s b)\<lparr>b_data := f (b_data (bufs s b))\<rparr>"
  let ?s = "s\<lparr>bufs := (bufs s)(b := ?x)\<rparr>"
  have "stepped p s ?s k b (f (content s k)) (unat (b_refcnt (bufs s b))) (blocked s k)"
    by (rule held_step[OF ok b(2) v(1), where x = ?x and e = "b_disk (bufs s b)"])
      (use v l cache_okD(1)[OF ok] in \<open>simp_all add: bio_frame_def ready_upd\<close>)
  then show ?thesis using b v by (auto simp: set_buf_def)
qed

lemma bpin_run:
  assumes ok: "cache_ok p s" and b: "blocked s k" "cached (bufs s) k = Some b" and r: "refs s k < 2 ^ 32 - 1"
  shows "\<exists>s'. bpin b s = Ok () s' \<and> disk_img s' = disk_img s \<and> stepped p s s' k b (content s k) (refs s k + 1) True"
proof -
  note v = blocked_valid[OF ok b] and so = soloD[OF solo_ready[OF cache_okD(1)[OF ok]]]
  let ?x = "(bufs s b)\<lparr>b_refcnt := b_refcnt (bufs s b) + 1\<rparr>"
  let ?s = "s\<lparr>bufs := (bufs s)(b := ?x), hart := scrub (hart s)\<rparr>"
  have u: "unat (b_refcnt (bufs s b) + 1) = refs s k + 1" using r v(7) by (simp add: unat_word_ariths)
  then have nz: "b_refcnt (bufs s b) + 1 \<noteq> 0" by (metis add_is_0 unat_0 zero_neq_one)
  have "stepped p s ?s k b (content s k) (unat (b_refcnt (bufs s b) + 1)) (blocked s k)"
    by (rule held_step[OF ok b(2) v(1), where x = ?x and e = "b_disk (bufs s b)"])
      (use v nz cache_okD(1)[OF ok] in \<open>simp_all add: bio_frame_def ready_upd\<close>)
  moreover have "bpin b s = Ok () ?s"
    using so by (simp add: bpin_def kthen_def kbind_def acquire_run set_buf_def release_run)
  ultimately show ?thesis using b u by auto
qed

lemma bunpin_run:
  assumes ok: "cache_ok p s" and b: "blocked s k" "cached (bufs s) k = Some b" and r: "1 < refs s k"
  shows "\<exists>s'. bunpin b s = Ok () s' \<and> disk_img s' = disk_img s \<and> stepped p s s' k b (content s k) (refs s k - 1) True"
proof -
  note v = blocked_valid[OF ok b] and so = soloD[OF solo_ready[OF cache_okD(1)[OF ok]]]
  let ?x = "(bufs s b)\<lparr>b_refcnt := b_refcnt (bufs s b) - 1\<rparr>"
  let ?s = "s\<lparr>bufs := (bufs s)(b := ?x), hart := scrub (hart s)\<rparr>"
  have u: "unat (b_refcnt (bufs s b) - 1) = refs s k - 1" using v(2,7) by (simp add: unat_minus_one)
  then have nz: "b_refcnt (bufs s b) - 1 \<noteq> 0" using r by (metis gr_implies_not0 unat_0 zero_less_diff)
  have "stepped p s ?s k b (content s k) (unat (b_refcnt (bufs s b) - 1)) (blocked s k)"
    by (rule held_step[OF ok b(2) v(1), where x = ?x and e = "b_disk (bufs s b)"])
      (use v nz cache_okD(1)[OF ok] in \<open>simp_all add: bio_frame_def ready_upd\<close>)
  moreover have "bunpin b s = Ok () ?s"
    using so by (simp add: bunpin_def kthen_def kbind_def acquire_run set_buf_def release_run)
  ultimately show ?thesis using b u by auto
qed

definition written :: "nat \<Rightarrow> 'z disk_machine_scheme \<Rightarrow> 'z disk_machine_scheme \<Rightarrow> blk \<Rightarrow> bool" where
  "written p s s' k \<longleftrightarrow> cache_ok p s' \<and> bio_frame s s' \<and> cached (bufs s') = cached (bufs s) \<and> content s' = content s
     \<and> refs s' = refs s \<and> blocked s' = blocked s
     \<and> disk_img s' = img_write (sector_of (of_nat k)) (content s k) (disk_img s)"

lemma bwrite_run:
  assumes ok: "cache_ok p s" and b: "blocked s k" "cached (bufs s) k = Some b"
  shows "\<exists>s'. bwrite b s = Ok () s' \<and> written p s s' k"
proof -
  note v = blocked_valid[OF ok b] and so = solo_ready[OF cache_okD(1)[OF ok]]
  let ?s1 = "s\<lparr>hart := scrub (hart s)\<rparr>"
  have r1: "disk_ready p ?s1" using ready_upd(1)[OF cache_okD(1)[OF ok], of "bufs s"] by simp
  obtain vd m where vd: "idle vd" and r: "virtio_disk_rw b True ?s1 =
     Ok () (?s1\<lparr>con := outs (rw_text b True ?s1) (con ?s1), hart := scrub (hart ?s1), vdisk := vd,
       bufs := rw_bufs b True ?s1, disk_img := rw_image b True ?s1, mmio_writes := m\<rparr>)" (is "_ = Ok () ?s")
    using virtio_disk_rw_run[OF r1] by blast
  define u where "u = ?s"
  have run: "bwrite b s = Ok () u"
    using holdingsleep_run[OF so, of "SLbuf b"] v(5,6) r by (simp add: bwrite_def kbind_def u_def)
  have im: "disk_img u = img_write (sector_of (of_nat k)) (content s k) (disk_img s)"
    using v(3,11) by (simp add: rw_image_def u_def)
  have bs: "bufs u = (bufs s)(b := (bufs s b)\<lparr>b_disk := False\<rparr>)" by (simp add: rw_bufs_def u_def)
  have fr: "bio_frame s u" and rest: "sleeplocks u = sleeplocks s" "procs u = procs s"
    by (simp_all add: bio_frame_def u_def)
  have rd: "disk_ready p u" by (rule disk_ready_cong[OF r1]) (use vd in \<open>simp_all add: u_def\<close>)
  have keys: "key (bufs u a) = key (bufs s a)" for a by (simp add: bs key_def)
  have ch: "cached (bufs u) = cached (bufs s)" by (simp add: fun_eq_iff cached_def keys)
  have abs: "content u = content s" "refs u = refs s" "blocked u = blocked s"
  proof -
    have "content u j = content s j \<and> refs u j = refs s j \<and> blocked u j = blocked s j" for j
    proof (cases "j = k")
      case True
      then show ?thesis using b v ch bs by (simp add: content_def refs_def blocked_def rest)
    next
      case False
      have "disk_block (disk_img u) j = disk_block (disk_img s) j"
        unfolding im using disk_block_write[OF v(9)] False by simp
      moreover have "a \<noteq> b" if "cached (bufs s) j = Some a" for a
        using that b False cached_Some[OF cache_okD(3)[OF ok]] by auto
      ultimately show ?thesis using ch
        by (cases "cached (bufs s) j") (simp_all add: content_def refs_def blocked_def bs rest)
    qed
    then show "content u = content s" "refs u = refs s" "blocked u = blocked s" by (simp_all add: fun_eq_iff)
  qed
  have "cache_ok p u"
  proof -
    obtain xs where "lru (bufs s) xs" using cache_okD(2)[OF ok] by blast
    then have "lru (bufs u) xs" unfolding bs by (subst lru_upd) simp_all
    moreover have "uniq (bufs u)" using cache_okD(3)[OF ok] by (simp only: uniq_def keys)
    moreover have "length (img_read (disk_img u) sec) = BSIZE" for sec
      unfolding im using cache_okD(4)[OF ok] v(3,4) by simp
    moreover have "buf_ok (disk_img u) (p_pid (procs u p)) (sleeplocks u (SLbuf a)) (bufs u a)" if a: "a < NBUF" for a
    proof -
      have "key (bufs u a) \<noteq> Some k" if "a \<noteq> b"
        using a that b keys cached_Some[OF cache_okD(3)[OF ok]] by (metis option.inject)
      then show ?thesis using cache_okD(5)[OF ok a] v(2) disk_block_write[OF v(9)] keys[of a] unfolding im bs rest
        by (auto simp: buf_ok_def)
    qed
    ultimately show ?thesis using rd unfolding cache_ok_def by blast
  qed
  then show ?thesis using run im ch abs fr by (auto simp: written_def)
qed

text \<open>Moving a buffer in the list changes nothing that the cache stands for.\<close>

definition same_data :: "(nat \<Rightarrow> buf) \<Rightarrow> (nat \<Rightarrow> buf) \<Rightarrow> bool" where
  "same_data bs bs' \<longleftrightarrow> (\<forall>i. b_valid (bs' i) = b_valid (bs i) \<and> b_dev (bs' i) = b_dev (bs i) \<and> b_data (bs' i) = b_data (bs i)
     \<and> b_blockno (bs' i) = b_blockno (bs i) \<and> b_refcnt (bs' i) = b_refcnt (bs i))"

lemma same_data_trans: "same_data bs cs \<Longrightarrow> same_data cs ds \<Longrightarrow> same_data bs ds"
  by (simp add: same_data_def)

lemma same_data_link:
  "same_data bs (bs(a := (bs a)\<lparr>b_prev := n\<rparr>))" "same_data bs (bs(a := (bs a)\<lparr>b_next := n\<rparr>))"
  "same_data bs (bs(a := (bs a)\<lparr>b_next := n, b_prev := m\<rparr>))"
  by (simp_all add: same_data_def)

lemma same_data_to_front: "same_data bs (push_front b (unlink_buf b bs))"
proof (rule same_data_trans)
  show "same_data bs (unlink_buf b bs)"
    unfolding unlink_buf_def Let_def by (rule same_data_trans[OF same_data_link(1) same_data_link(2)])
  show "same_data cs (push_front b cs)" for cs
    unfolding push_front_def Let_def
    by (rule same_data_trans[OF same_data_trans[OF same_data_link(3) same_data_link(1)] same_data_link(2)])
qed

lemma relink_step:
  assumes st: "stepped p s u k b d r l" and sd: "same_data (bufs u) bs'" and lr: "lru bs' xs"
  shows "stepped p s (u\<lparr>bufs := bs'\<rparr>) k b d r l"
proof -
  note sd = sd[unfolded same_data_def, rule_format]
  have keys: "key (bs' a) = key (bufs u a)" for a using sd[of a] by (simp add: key_def)
  have ch: "cached bs' = cached (bufs u)" by (simp add: fun_eq_iff cached_def keys)
  have abs: "content (u\<lparr>bufs := bs'\<rparr>) = content u" "refs (u\<lparr>bufs := bs'\<rparr>) = refs u" "blocked (u\<lparr>bufs := bs'\<rparr>) = blocked u"
    by (auto simp: fun_eq_iff content_def refs_def blocked_def ch sd split: option.split)
  have ok: "cache_ok p u" by (rule steppedD[OF st])
  have "buf_ok im pd lk (bs' a) = buf_ok im pd lk (bufs u a)" for im pd lk a
    by (simp add: buf_ok_def sd keys)
  then have "cache_ok p (u\<lparr>bufs := bs'\<rparr>)"
    using ok lr ready_upd(2)[OF cache_okD(1)[OF ok], of bs'] by (auto simp: cache_ok_def uniq_def keys)
  moreover have "bio_frame s (u\<lparr>bufs := bs'\<rparr>)"
    by (rule bio_frame_trans[OF steppedD(2)[OF st]]) (simp add: bio_frame_def)
  ultimately show ?thesis using st by (simp add: stepped_def abs ch)
qed

lemma brelse_exact:
  assumes ok: "cache_ok p s" and b: "blocked s k" "cached (bufs s) k = Some b"
    and bs: "bs = (bufs s)(b := (bufs s b)\<lparr>b_refcnt := b_refcnt (bufs s b) - 1\<rparr>)"
  shows "brelse b s = Ok () (s\<lparr>sleeplocks := (sleeplocks s)(SLbuf b := (sleeplocks s (SLbuf b))\<lparr>sl_locked := False, sl_pid := 0\<rparr>),
     bufs := (if refs s k = 1 then push_front b (unlink_buf b bs) else bs), hart := scrub (hart s)\<rparr>)"
proof -
  note v = blocked_valid[OF ok b] and so = solo_ready[OF cache_okD(1)[OF ok]]
  have "solo p (s\<lparr>hart := scrub (hart s)\<rparr>)" by (rule solo_cong[OF so]) simp_all
  note rel = releasesleep_run[OF this, of "SLbuf b"]
  have u: "unat (b_refcnt (bufs s b) - 1) = refs s k - 1" using v(2,7) by (simp add: unat_minus_one)
  have "b_refcnt (bufs s b) - 1 = 0 \<longleftrightarrow> unat (b_refcnt (bufs s b) - 1) = 0" by (simp only: unat_eq_zero)
  then have z: "b_refcnt (bufs s b) - 1 = 0 \<longleftrightarrow> refs s k = 1" using u v(8) by linarith
  show ?thesis
    using holdingsleep_run[OF so, of "SLbuf b"] v(5,6) rel soloD[OF so] z
    by (simp add: brelse_def kbind_def kthen_def kwhen_def kret_def acquire_run set_buf_def get_buf_def to_front_run
        release_run bs)
qed

lemma brelse_run:
  assumes ok: "cache_ok p s" and b: "blocked s k" "cached (bufs s) k = Some b"
    and cl: "refs s k = 1 \<Longrightarrow> content s k = disk_block (disk_img s) k"
  shows "\<exists>s'. brelse b s = Ok () s' \<and> disk_img s' = disk_img s \<and> stepped p s s' k b (content s k) (refs s k - 1) False"
proof -
  note v = blocked_valid[OF ok b] and so = solo_ready[OF cache_okD(1)[OF ok]]
  let ?l = "(sleeplocks s (SLbuf b))\<lparr>sl_locked := False, sl_pid := 0\<rparr>"
  let ?x = "(bufs s b)\<lparr>b_refcnt := b_refcnt (bufs s b) - 1\<rparr>"
  define bs where "bs = (bufs s)(b := ?x)"
  define bs' where "bs' = (if refs s k = 1 then push_front b (unlink_buf b bs) else bs)"
  let ?u = "s\<lparr>sleeplocks := (sleeplocks s)(SLbuf b := ?l), bufs := bs, hart := scrub (hart s)\<rparr>"
  have run: "brelse b s = Ok () (?u\<lparr>bufs := bs'\<rparr>)"
    using brelse_exact[OF ok b bs_def] by (simp add: bs'_def)
  have u: "unat (b_refcnt (bufs s b) - 1) = refs s k - 1" using v(2,7) by (simp add: unat_minus_one)
  have z: "b_refcnt (bufs s b) - 1 = 0 \<longleftrightarrow> refs s k = 1"
  proof -
    have "b_refcnt (bufs s b) - 1 = 0 \<longleftrightarrow> unat (b_refcnt (bufs s b) - 1) = 0" by (simp only: unat_eq_zero)
    then show ?thesis using u v(8) by linarith
  qed
  have bn: "key (bufs s b) = Some k" using b cached_Some[OF cache_okD(3)[OF ok]] by auto
  have "key ?x = key (bufs s b)" by (simp add: key_def)
  then have kx: "key ?x = Some k" using bn by simp
  have "stepped p s ?u k b (if b_valid ?x then b_data ?x else disk_block (disk_img s) k) (unat (b_refcnt ?x)) (sl_locked ?l)"
  proof (rule cache_step[OF ok])
    show "takes (bufs s) b ?x k" using v(10) kx bn by (simp add: takes_def)
    show "bio_frame s ?u" by (simp add: bio_frame_def)
    show "disk_ready p ?u" by (rule disk_ready_cong[OF cache_okD(1)[OF ok]])
      (use cache_okD(1)[OF ok] in \<open>simp_all add: disk_ready_def\<close>)
    show "buf_ok (disk_img s) (p_pid (procs s p)) ?l ?x"
      using v kx cl z by (auto simp: buf_ok_def)
  qed (simp_all add: bs_def)
  then have st: "stepped p s ?u k b (content s k) (refs s k - 1) False" using v u by simp
  have "stepped p s (?u\<lparr>bufs := bs'\<rparr>) k b (content s k) (refs s k - 1) False"
  proof -
    obtain xs where xs: "lru (bufs ?u) xs" using cache_okD(2)[OF steppedD(1)[OF st]] by blast
    have "\<exists>ys. lru bs' ys" using xs lru_to_front[OF _ v(10), of bs xs] by (auto simp: bs'_def)
    moreover have "same_data (bufs ?u) bs'" using same_data_to_front[of bs b] by (simp add: bs'_def same_data_def)
    ultimately show ?thesis using relink_step[OF st] by blast
  qed
  then show ?thesis using run by auto
qed

section \<open>Initialisation\<close>

text \<open>The buffers as the loader leaves them: no references and no data.\<close>

definition fresh_bufs :: "'z disk_machine_scheme \<Rightarrow> bool" where
  "fresh_bufs s \<longleftrightarrow> (\<forall>b. b_refcnt (bufs s b) = 0 \<and> \<not> b_valid (bufs s b) \<and> b_dev (bufs s b) = 0
     \<and> length (b_data (bufs s b)) = BSIZE) \<and> (\<forall>sec. length (img_read (disk_img s) sec) = BSIZE)"

definition unlock :: "lockid \<Rightarrow> string \<Rightarrow> harts \<Rightarrow> harts" where
  "unlock lk nm h = h\<lparr>locks := (locks h)(lk := (locks h lk)\<lparr>lock_name := nm, locked := False, lock_cpu := None\<rparr>)\<rparr>"

lemma initlock_run: "initlock lk nm s = Ok () (s\<lparr>hart := unlock lk nm (hart s)\<rparr>)"
  by (simp add: initlock_def set_lock_def unlock_def Let_def)

lemma unlock_simps [simp]:
  "hart_ok (unlock lk nm h) = hart_ok h" "cpu_proc (cur (unlock lk nm h)) = cpu_proc (cur h)"
  "lock_free l h \<Longrightarrow> lock_free l (unlock lk nm h)"
  by (auto simp: unlock_def hart_ok_def cur_def lock_free_def)

lemma binit_one_run:
  "binit_one b s = Ok () (s\<lparr>hart := unlock (Lsleep (SLbuf b)) ''sleep lock'' (hart s), sleeplocks := (sleeplocks s)(SLbuf b :=
     (sleeplocks s (SLbuf b))\<lparr>sl_name := ''buffer'', sl_locked := False, sl_pid := 0\<rparr>), bufs := push_front b (bufs s)\<rparr>)"
  by (simp add: binit_one_def kbind_def kthen_def get_buf_def set_buf_def initsleeplock_def initlock_run set_sleeplock_def
      push_front_def Let_def)

lemma ready_unlock:
  "disk_ready p t \<Longrightarrow> disk_ready p (t\<lparr>hart := unlock lk nm (hart t), sleeplocks := sl, bufs := bs\<rparr>)"
  "disk_ready p t \<Longrightarrow> disk_ready p (t\<lparr>hart := unlock lk nm (hart t), bufs := bs\<rparr>)"
  by (simp_all add: disk_ready_def solo_def can_print_def)

lemma same_data_push: "same_data bs (push_front b bs)"
  unfolding push_front_def Let_def
  by (rule same_data_trans[OF same_data_trans[OF same_data_link(3) same_data_link(1)] same_data_link(2)])

lemma wp_binit:
  assumes rd: "disk_ready p s"
  shows "wp binit (\<lambda>_ t. lru (bufs t) (rev [0..<NBUF]) \<and> same_data (bufs s) (bufs t) \<and> disk_ready p t
    \<and> disk_img t = disk_img s \<and> (\<forall>b<NBUF. \<not> sl_locked (sleeplocks t (SLbuf b)))) s"
proof -
  let ?s = "s\<lparr>hart := unlock Lbcache ''bcache'' (hart s),
    bufs := (bufs s)(NBUF := (bufs s NBUF)\<lparr>b_prev := NBUF, b_next := NBUF\<rparr>)\<rparr>"
  let ?I = "\<lambda>done t. linked (bufs t) (NBUF # rev done @ [NBUF]) \<and> same_data (bufs s) (bufs t) \<and> disk_ready p t
    \<and> disk_img t = disk_img s \<and> (\<forall>b\<in>set done. \<not> sl_locked (sleeplocks t (SLbuf b)))"
  have "wp (kfor [0..<NBUF] binit_one) (\<lambda>_. ?I [0..<NBUF]) ?s"
  proof (rule wp_kfor_inv[where I = ?I])
    show "?I [] ?s" using ready_unlock(2)[OF rd] by (simp add: same_data_def)
  next
    fix dn b t
    assume I: "?I dn t" and "\<exists>rest. [0..<NBUF] = dn @ b # rest"
    then obtain rest where e: "[0..<NBUF] = dn @ b # rest" by blast
    have "distinct (dn @ b # rest)" "set (dn @ b # rest) = {0..<NBUF}"
      using e by (metis distinct_upt, metis set_upt)
    then have "linked (push_front b (bufs t)) (NBUF # b # rev dn @ [NBUF])"
      using I by (intro push_front_linked) auto
    then show "wp (binit_one b) (\<lambda>_. ?I (dn @ [b])) t"
      using I ready_unlock(1)[of p t] same_data_trans[OF _ same_data_push]
      by (simp add: wp_def binit_one_run)
  qed simp
  then have "wp (kfor [0..<NBUF] binit_one) (\<lambda>_ t. lru (bufs t) (rev [0..<NBUF]) \<and> same_data (bufs s) (bufs t)
    \<and> disk_ready p t \<and> disk_img t = disk_img s \<and> (\<forall>b<NBUF. \<not> sl_locked (sleeplocks t (SLbuf b)))) ?s"
    by (rule wp_mono) (auto simp: lru_def)
  then show ?thesis by (simp add: binit_def wp_def kthen_def kbind_def initlock_run set_buf_def)
qed

section \<open>The contract\<close>

text \<open>The state without what the cache may change, and the view of a client.\<close>

definition outside :: "'z disk_machine_scheme \<Rightarrow> 'z disk_machine_scheme" where
  "outside s = s\<lparr>hart := hart demo_disk, con := con demo_disk, sleeplocks := sleeplocks demo_disk, vdisk := vdisk demo_disk,
     bufs := bufs demo_disk, disk_img := disk_img demo_disk, mmio_writes := mmio_writes demo_disk\<rparr>"

definition bio_view :: "'z disk_machine_scheme \<Rightarrow> 'z disk_machine_scheme bview" where
  "bio_view s = \<lparr>v_data = content s, v_refs = refs s, v_held = (\<lambda>k. if blocked s k then cached (bufs s) k else None),
     v_img = disk_img s, v_rest = outside s\<rparr>"

lemma outside_frame: "bio_frame s s' \<Longrightarrow> outside s' = outside s"
proof -
  assume "bio_frame s s'"
  from arg_cong[OF this[unfolded bio_frame_def], of outside] show ?thesis by (rule trans) (simp add: outside_def)
qed

lemma outsideD:
  assumes "outside s' = outside s"
  shows "procs s' = procs s" "device s' = device s" "disk_machine.more s' = disk_machine.more s"
    "mem s' = mem s" "kmem s' = kmem s"
  using arg_cong[OF assms, of procs] arg_cong[OF assms, of device] arg_cong[OF assms, of disk_machine.more]
    arg_cong[OF assms, of mem] arg_cong[OF assms, of kmem] by (simp_all add: outside_def)

lemma heldD:
  assumes "v_held (bio_view s) k = Some b"
  shows "blocked s k" "cached (bufs s) k = Some b"
  using assms by (simp_all add: bio_view_def split: if_splits)

lemma cached_blocked: "cached (bufs s) k = None \<Longrightarrow> \<not> blocked s k"
  by (simp add: blocked_def)

lemma held_None: "v_held (bio_view s) k = None \<longleftrightarrow> \<not> blocked s k"
  using cached_blocked[of s k] by (auto simp: bio_view_def)

lemma view_step:
  assumes ok: "cache_ok p s" and st: "stepped p s s' k b d r l" and im: "disk_img s' = disk_img s"
  shows "bio_view s' = (bio_view s)\<lparr>v_data := (content s)(k := d), v_refs := (refs s)(k := r),
     v_held := (v_held (bio_view s))(k := if l then Some b else None)\<rparr>"
proof -
  note d = steppedD[OF st]
  have "v_held (bio_view s') j = ((v_held (bio_view s))(k := if l then Some b else None)) j" for j
  proof (cases "j = k \<or> \<not> blocked s j")
    case True
    then show ?thesis using d(3,6) by (auto simp: bio_view_def)
  next
    case False
    then obtain c where "cached (bufs s) j = Some c" using cached_blocked[of s j] by (cases "cached (bufs s) j") auto
    then have "0 < refs s j" using blocked_valid(8)[OF ok] False by blast
    then show ?thesis using d(6,7) False by (simp add: bio_view_def)
  qed
  then have "v_held (bio_view s') = (v_held (bio_view s))(k := if l then Some b else None)" by (rule ext)
  then show ?thesis using d(4,5) im outside_frame[OF d(2)] by (simp add: bio_view_def)
qed

lemma finite_refs: "finite {k. 0 < refs s k}" "cache_ok p s \<Longrightarrow> \<not> free_buf s \<Longrightarrow> card {k. 0 < refs s k} = NBUF"
proof -
  have sub: "{k. 0 < refs s k} \<subseteq> {k. \<exists>b<NBUF. key (bufs s b) = Some k}"
    by (fastforce simp: refs_def cached_def dest: find_SomeD split: option.splits)
  have im: "{k. \<exists>b<NBUF. key (bufs s b) = Some k} \<subseteq> (\<lambda>b. the (key (bufs s b))) ` {..<NBUF}" by force
  show "finite {k. 0 < refs s k}" by (rule finite_subset[OF sub finite_subset[OF im]]) simp
  assume ok: "cache_ok p s" and no: "\<not> free_buf s"
  have k: "key (bufs s b) \<noteq> None" "b_refcnt (bufs s b) \<noteq> 0" if "b < NBUF" for b
    using cache_okD(5)[OF ok that] no that by (auto simp: buf_ok_def free_buf_def)
  have inj: "inj_on (\<lambda>b. the (key (bufs s b))) {..<NBUF}"
    using k(1) cache_okD(3)[OF ok] unfolding inj_on_def uniq_def by (metis lessThan_iff option.expand)
  have "{k. 0 < refs s k} = (\<lambda>b. the (key (bufs s b))) ` {..<NBUF}"
  proof
    show "{k. 0 < refs s k} \<subseteq> (\<lambda>b. the (key (bufs s b))) ` {..<NBUF}" using sub im by (rule subset_trans)
    have "0 < refs s (the (key (bufs s b)))" if b: "b < NBUF" for b
    proof -
      have "cached (bufs s) (the (key (bufs s b))) = Some b"
        using cached_Some[OF cache_okD(3)[OF ok]] k(1)[OF b] b by auto
      then show ?thesis using k(2)[OF b] by (simp add: refs_def unat_gt_0)
    qed
    then show "(\<lambda>b. the (key (bufs s b))) ` {..<NBUF} \<subseteq> {k. 0 < refs s k}" by auto
  qed
  then show "card {k. 0 < refs s k} = NBUF" using card_image[OF inj] by simp
qed

lemma room_free: "cache_ok p s \<Longrightarrow> in_use (bio_view s) < NBUF \<Longrightarrow> free_buf s"
  using finite_refs(2)[of p s] by (auto simp: in_use_def bio_view_def)

lemma bio_view_sel [simp]:
  "v_data (bio_view s) = content s" "v_refs (bio_view s) = refs s" "v_img (bio_view s) = disk_img s"
  "v_rest (bio_view s) = outside s"
  by (simp_all add: bio_view_def)

lemma content_clean: "cache_ok p s \<Longrightarrow> refs s k = 0 \<Longrightarrow> content s k = disk_block (disk_img s) k"
  using cached_Some[OF cache_okD(3)] cache_okD(5)[of p s]
  by (fastforce simp: content_def refs_def buf_ok_def unat_eq_zero split: option.splits)

lemma content_length: "cache_ok p s \<Longrightarrow> k < 2 ^ 31 \<Longrightarrow> length (content s k) = BSIZE"
  using cached_Some[OF cache_okD(3)] cache_okD(4,5)[of p s]
  by (fastforce simp: content_def buf_ok_def disk_block_def split: option.splits)

text \<open>What a client does with a buffer: read a block into it, look at its data, change its data.\<close>

definition root_bread :: "blk \<Rightarrow> ('z disk_machine_scheme, nat) kern" where
  "root_bread k = bread ROOTDEV (of_nat k)"

definition buf_look :: "nat \<Rightarrow> ('z disk_machine_scheme, u8 list) kern" where
  "buf_look b = kbind (get_buf b) (\<lambda>x. kret (b_data x))"

definition buf_edit :: "nat \<Rightarrow> (u8 list \<Rightarrow> u8 list) \<Rightarrow> ('z disk_machine_scheme, unit) kern" where
  "buf_edit b f = set_buf b (\<lambda>x. x\<lparr>b_data := f (b_data x)\<rparr>)"

lemma root_bread_run:
  assumes "cache_ok p s" "k < 2 ^ 31" "\<not> blocked s k" "refs s k < 2 ^ 32 - 1" "0 < refs s k \<or> free_buf s"
  shows "\<exists>b s'. root_bread k s = Ok b s' \<and> disk_img s' = disk_img s \<and> stepped p s s' k b (content s k) (refs s k + 1) True"
proof -
  have "unat (of_nat k :: u32) = k" using assms(2) by (simp add: unat_of_nat take_bit_nat_eq_self)
  then show ?thesis using bread_run[OF assms(1), of "of_nat k"] assms by (simp add: root_bread_def)
qed

interpretation bio: block_cache "cache_ok p" bio_view root_bread buf_look buf_edit bwrite brelse bpin bunpin for p
proof
  fix s :: "'z disk_machine_scheme" and k
  assume a: "cache_ok p s" "k < 2 ^ 31" "v_held (bio_view s) k = None" "v_refs (bio_view s) k < 2 ^ 32 - 1"
    "0 < v_refs (bio_view s) k \<or> in_use (bio_view s) < NBUF"
  obtain b s' where r: "root_bread k s = Ok b s'" "disk_img s' = disk_img s" "stepped p s s' k b (content s k) (refs s k + 1) True"
    using root_bread_run[of p s k] a room_free[OF a(1)] by (auto simp: held_None)
  then show "\<exists>b s'. root_bread k s = Ok b s' \<and> cache_ok p s' \<and> bio_view s' = (bio_view s)\<lparr>
      v_refs := (v_refs (bio_view s))(k := v_refs (bio_view s) k + 1), v_held := (v_held (bio_view s))(k := Some b)\<rparr>"
    using view_step[OF a(1) r(3,2)] steppedD(1)[OF r(3)] by (intro exI[of _ b] exI[of _ s']) (simp add: bio_view_def)
next
  fix s :: "'z disk_machine_scheme" and k b
  assume a: "cache_ok p s" "v_held (bio_view s) k = Some b"
  note h = heldD[OF a(2)] and v = blocked_valid[OF a(1) heldD[OF a(2)]]
  show "buf_look b s = Ok (v_data (bio_view s) k) s"
    using v(3) by (simp add: buf_look_def get_buf_def kbind_def kret_def)
  have up: "(refs s)(k := refs s k) = refs s" "(v_held (bio_view s))(k := Some b) = v_held (bio_view s)" using a(2) by auto
  fix f :: "u8 list \<Rightarrow> u8 list"
  assume l: "length (f (v_data (bio_view s) k)) = BSIZE"
  then obtain s' where r: "buf_edit b f s = Ok () s'" "disk_img s' = disk_img s" "stepped p s s' k b (f (content s k)) (refs s k) True"
    using edit_run[OF a(1) h, of f] by (auto simp: buf_edit_def)
  then show "\<exists>s'. buf_edit b f s = Ok () s' \<and> cache_ok p s'
     \<and> bio_view s' = (bio_view s)\<lparr>v_data := (v_data (bio_view s))(k := f (v_data (bio_view s) k))\<rparr>"
    using view_step[OF a(1) r(3,2)] steppedD(1)[OF r(3)] up by (intro exI[of _ s']) (simp add: bio_view_def)
next
  fix s :: "'z disk_machine_scheme" and k b
  assume a: "cache_ok p s" "v_held (bio_view s) k = Some b"
  obtain s' where r: "bwrite b s = Ok () s'" "written p s s' k" using bwrite_run[OF a(1) heldD[OF a(2)]] by blast
  then show "\<exists>s'. bwrite b s = Ok () s' \<and> cache_ok p s' \<and> bio_view s' =
      (bio_view s)\<lparr>v_img := put_block k (v_data (bio_view s) k) (v_img (bio_view s))\<rparr>"
    using outside_frame[of s s'] by (intro exI[of _ s']) (simp add: written_def bio_view_def put_block_def cong: if_cong)
next
  fix s :: "'z disk_machine_scheme" and k b
  assume a: "cache_ok p s" "v_held (bio_view s) k = Some b"
    "v_refs (bio_view s) k = 1 \<longrightarrow> v_data (bio_view s) k = disk_block (v_img (bio_view s)) k"
  obtain s' where r: "brelse b s = Ok () s'" "disk_img s' = disk_img s" "stepped p s s' k b (content s k) (refs s k - 1) False"
    using brelse_run[OF a(1) heldD[OF a(2)]] a(3) by auto
  then show "\<exists>s'. brelse b s = Ok () s' \<and> cache_ok p s' \<and> bio_view s' = (bio_view s)\<lparr>
      v_refs := (v_refs (bio_view s))(k := v_refs (bio_view s) k - 1), v_held := (v_held (bio_view s))(k := None)\<rparr>"
    using view_step[OF a(1) r(3,2)] steppedD(1)[OF r(3)] by (intro exI[of _ s']) (simp add: bio_view_def)
next
  fix s :: "'z disk_machine_scheme" and k b
  assume a: "cache_ok p s" "v_held (bio_view s) k = Some b" "v_refs (bio_view s) k < 2 ^ 32 - 1"
  obtain s' where r: "bpin b s = Ok () s'" "disk_img s' = disk_img s" "stepped p s s' k b (content s k) (refs s k + 1) True"
    using bpin_run[OF a(1) heldD[OF a(2)]] a(3) by auto
  have up: "(v_held (bio_view s))(k := Some b) = v_held (bio_view s)" using a(2) by auto
  from r show "\<exists>s'. bpin b s = Ok () s' \<and> cache_ok p s' \<and> bio_view s' = (bio_view s)\<lparr>
      v_refs := (v_refs (bio_view s))(k := v_refs (bio_view s) k + 1)\<rparr>"
    using view_step[OF a(1) r(3,2)] steppedD(1)[OF r(3)] up by (intro exI[of _ s']) (simp add: bio_view_def)
next
  fix s :: "'z disk_machine_scheme" and k b
  assume a: "cache_ok p s" "v_held (bio_view s) k = Some b" "1 < v_refs (bio_view s) k"
  obtain s' where r: "bunpin b s = Ok () s'" "disk_img s' = disk_img s" "stepped p s s' k b (content s k) (refs s k - 1) True"
    using bunpin_run[OF a(1) heldD[OF a(2)]] a(3) by auto
  have up: "(v_held (bio_view s))(k := Some b) = v_held (bio_view s)" using a(2) by auto
  from r show "\<exists>s'. bunpin b s = Ok () s' \<and> cache_ok p s' \<and> bio_view s' = (bio_view s)\<lparr>
      v_refs := (v_refs (bio_view s))(k := v_refs (bio_view s) k - 1)\<rparr>"
    using view_step[OF a(1) r(3,2)] steppedD(1)[OF r(3)] up by (intro exI[of _ s']) (simp add: bio_view_def)
next
  fix s :: "'z disk_machine_scheme" and k
  assume a: "cache_ok p s"
  show "v_refs (bio_view s) k = 0 \<Longrightarrow> v_data (bio_view s) k = disk_block (v_img (bio_view s)) k"
    using content_clean[OF a] by simp
  show "k < 2 ^ 31 \<Longrightarrow> length (v_data (bio_view s) k) = BSIZE" using content_length[OF a] by simp
  show "finite {k. 0 < v_refs (bio_view s) k}" using finite_refs(1) by simp
qed

lemma bread_full:
  assumes "cache_ok p s" "unat bno < 2 ^ 31" "cached (bufs s) (unat bno) = None" "\<not> free_buf s"
  shows "\<exists>s'. bread ROOTDEV bno s = Stop (Panic ''bget: no buffers'') s'"
proof -
  obtain xs where l: "lru (bufs s) xs" using cache_okD(2)[OF assms(1)] by blast
  note e = linked_ends[OF lruD(1)[OF l]]
  let ?s1 = "s\<lparr>hart := acq Lbcache (hart s)\<rparr>"
  have sc: "scan_next (NBUF + 1) (hd (xs @ [NBUF])) (\<lambda>x. b_dev x = ROOTDEV \<and> b_blockno x = bno) ?s1 = Ok None ?s1"
    using scan_next_run[of ?s1 xs "NBUF + 1" "\<lambda>x. b_dev x = ROOTDEV \<and> b_blockno x = bno"] e(3) lruD(4,5)[OF l]
      find_lru[OF l cache_okD(3)[OF assms(1)] assms(2)] assms(3) by simp
  have "List.find (\<lambda>b. b_refcnt (bufs s b) = 0) (rev xs) = None"
    using assms(4) lruD(3)[OF l] by (auto simp: find_None_iff free_buf_def)
  then have sp: "scan_prev (NBUF + 1) (last (NBUF # xs)) (\<lambda>x. b_refcnt x = 0) ?s1 = Ok None ?s1"
    using scan_prev_run[of ?s1 xs "NBUF + 1" "\<lambda>x. b_refcnt x = 0"] e(4) lruD(4,5)[OF l] by simp
  show ?thesis using soloD[OF solo_ready[OF cache_okD(1)[OF assms(1)]]] e(1,2) sc sp
    by (simp add: bread_def bget_def kthen_def kbind_def kstop_def acquire_run get_buf_def)
qed

lemma binit_run:
  assumes "disk_ready p s" "fresh_bufs s"
  shows "\<exists>s'. binit s = Ok () s' \<and> cache_ok p s' \<and> lru (bufs s') (rev [0..<NBUF]) \<and> disk_img s' = disk_img s
     \<and> (\<forall>k. content s' k = disk_block (disk_img s) k \<and> refs s' k = 0 \<and> \<not> blocked s' k)
     \<and> (\<forall>b. b_refcnt (bufs s' b) = 0 \<and> \<not> b_valid (bufs s' b) \<and> length (b_data (bufs s' b)) = BSIZE)
     \<and> (\<forall>b<NBUF. \<not> sl_locked (sleeplocks s' (SLbuf b)))"
proof -
  obtain s' where r: "binit s = Ok () s'" and l: "lru (bufs s') (rev [0..<NBUF])" and sd: "same_data (bufs s) (bufs s')"
    and rd: "disk_ready p s'" "disk_img s' = disk_img s" "\<forall>b<NBUF. \<not> sl_locked (sleeplocks s' (SLbuf b))"
    using wp_binit[OF assms(1)] unfolding wp_iff by auto
  have f: "b_refcnt (bufs s' b) = 0" "\<not> b_valid (bufs s' b)" "b_dev (bufs s' b) = 0" "length (b_data (bufs s' b)) = BSIZE" for b
    using assms(2) sd by (simp_all add: fresh_bufs_def same_data_def)
  have k: "key (bufs s' b) = None" for b using f(3)[of b] by (simp add: key_def ROOTDEV_def)
  have "cached (bufs s') j = None" for j by (simp add: cached_None k)
  moreover have "cache_ok p s'"
    using l rd f k assms(2) by (auto simp: cache_ok_def uniq_def buf_ok_def fresh_bufs_def)
  ultimately show ?thesis using r l rd f by (simp add: content_def refs_def blocked_def)
qed

text \<open>The machine of \<^const>\<open>demo_disk\<close> after \<^verbatim>\<open>binit\<close>.\<close>

definition booted :: disk_machine where
  "booted = (case binit demo_disk of Ok _ s \<Rightarrow> s | Stop _ s \<Rightarrow> s)"

lemma demo_disk_fresh: "disk_ready 0 demo_disk" "fresh_bufs demo_disk"
proof -
  have "bufs demo_disk = (\<lambda>_. buf0)" by (simp add: demo_disk_def)
  then have "demo_disk = demo_disk\<lparr>bufs := \<lambda>_. buf0\<rparr>" by simp
  then show "disk_ready 0 demo_disk" using demo_disk_ready[of "\<lambda>_. buf0"] by simp
  show "fresh_bufs demo_disk"
    by (simp add: fresh_bufs_def demo_disk_def buf0_def img_read_def blank_disk_def)
qed

lemma booted_ok:
  "cache_ok 0 booted" "lru (bufs booted) (rev [0..<NBUF])" "refs booted k = 0" "\<not> blocked booted k"
  "content booted k = disk_block blank_disk k" "b_refcnt (bufs booted b) = 0" "\<not> b_valid (bufs booted b)"
  "length (b_data (bufs booted b)) = BSIZE" "b < NBUF \<Longrightarrow> \<not> sl_locked (sleeplocks booted (SLbuf b))"
  "disk_img booted = blank_disk" "free_buf booted"
proof -
  obtain s' where r: "binit demo_disk = Ok () s'" and f: "cache_ok 0 s'" "lru (bufs s') (rev [0..<NBUF])"
     "disk_img s' = disk_img demo_disk" "\<forall>k. content s' k = disk_block (disk_img demo_disk) k \<and> refs s' k = 0 \<and> \<not> blocked s' k"
     "\<forall>b. b_refcnt (bufs s' b) = 0 \<and> \<not> b_valid (bufs s' b) \<and> length (b_data (bufs s' b)) = BSIZE"
     "\<forall>b<NBUF. \<not> sl_locked (sleeplocks s' (SLbuf b))"
    using binit_run[OF demo_disk_fresh] by blast
  have "booted = s'" by (simp add: booted_def r)
  then show "cache_ok 0 booted" "lru (bufs booted) (rev [0..<NBUF])" "refs booted k = 0" "\<not> blocked booted k"
    "content booted k = disk_block blank_disk k" "b_refcnt (bufs booted b) = 0" "\<not> b_valid (bufs booted b)"
    "length (b_data (bufs booted b)) = BSIZE" "b < NBUF \<Longrightarrow> \<not> sl_locked (sleeplocks booted (SLbuf b))"
    "disk_img booted = blank_disk" "free_buf booted"
    using f by (auto simp: demo_disk_def free_buf_def NBUF_def MAXOPBLOCKS_def intro: exI[of _ 0])
qed

section \<open>Properties\<close>



text \<open>
  C20: \<^verbatim>\<open>bread\<close> of a block that is not locked, when it is cached or some buffer is unused, returns a locked
  buffer that holds the content of that block: what the cache holds if it is there, else what the disk
  holds. No block changes its content, the block gains one reference, and the buffers of all other
  referenced blocks stay in place.
\<close>

theorem bread_returns_block:
  assumes "cache_ok p s" "unat bno < 2 ^ 31" "\<not> blocked s (unat bno)"
    and "refs s (unat bno) < 2 ^ 32 - 1" "0 < refs s (unat bno) \<or> free_buf s"
  shows "\<exists>b s'. bread ROOTDEV bno s = Ok b s' \<and> b < NBUF \<and> b_valid (bufs s' b) \<and> b_blockno (bufs s' b) = bno
     \<and> b_data (bufs s' b) = content s (unat bno) \<and> sl_locked (sleeplocks s' (SLbuf b))
     \<and> sl_pid (sleeplocks s' (SLbuf b)) = p_pid (procs s p) \<and> content s' = content s
     \<and> refs s' = (refs s)(unat bno := refs s (unat bno) + 1) \<and> disk_img s' = disk_img s
     \<and> (\<forall>k. 0 < refs s k \<and> k \<noteq> unat bno \<longrightarrow> cached (bufs s') k = cached (bufs s) k) \<and> cache_ok p s'"
proof -
  obtain b s' where r: "bread ROOTDEV bno s = Ok b s'" "disk_img s' = disk_img s"
    and st: "stepped p s s' (unat bno) b (content s (unat bno)) (refs s (unat bno) + 1) True"
    using bread_run[OF assms] by blast
  note d = steppedD[OF st]
  have "blocked s' (unat bno)" using d(6) by simp
  note v = blocked_valid[OF d(1) this d(3)]
  have "content s' = content s" using d(4) by simp
  then show ?thesis using r d v bio_frameD(1)[OF d(2)] by (intro exI[of _ b] exI[of _ s']) simp
qed

theorem bread_returns_block_witness:
  "\<exists>b s'. bread ROOTDEV 5 booted = Ok b s' \<and> b_data (bufs s' b) = replicate BSIZE 0 \<and> cache_ok 0 s'"
proof -
  have "content booted 5 = replicate BSIZE 0"
    by (simp add: booted_ok disk_block_def blank_disk_def img_read_def)
  then show ?thesis using bread_returns_block[OF booted_ok(1), of 5] booted_ok(3,4,11) by auto
qed

text \<open>
  C21: \<^verbatim>\<open>brelse\<close> of the last reference to a block whose content is on the disk refines the move of the
  buffer to the front of the list of recently used buffers; with other references left the list is unchanged.
\<close>

theorem brelse_refines_lru:
  assumes "cache_ok p s" "blocked s k" "cached (bufs s) k = Some b" "lru (bufs s) xs"
    and "refs s k = 1 \<longrightarrow> content s k = disk_block (disk_img s) k"
  shows "\<exists>s'. brelse b s = Ok () s' \<and> lru (bufs s') (if refs s k = 1 then b # remove1 b xs else xs)
     \<and> refs s' = (refs s)(k := refs s k - 1) \<and> blocked s' = (blocked s)(k := False) \<and> content s' = content s \<and> cache_ok p s'"
proof -
  let ?bs = "(bufs s)(b := (bufs s b)\<lparr>b_refcnt := b_refcnt (bufs s b) - 1\<rparr>)"
  have l: "lru ?bs xs" using assms(4) by (subst lru_upd) simp_all
  obtain s' where r: "brelse b s = Ok () s'" and st: "stepped p s s' k b (content s k) (refs s k - 1) False"
    using brelse_run[OF assms(1-3)] assms(5) by blast
  have "bufs s' = (if refs s k = 1 then push_front b (unlink_buf b ?bs) else ?bs)"
    using r brelse_exact[OF assms(1-3) refl] by auto
  then have "lru (bufs s') (if refs s k = 1 then b # remove1 b xs else xs)"
    using l lru_to_front[OF l] blocked_valid(10)[OF assms(1-3)] by simp
  then show ?thesis using r steppedD[OF st] by auto
qed

theorem brelse_refines_lru_witness:
  "\<exists>(s :: disk_machine) b s'. cached (bufs s) 5 = Some b \<and> refs s 5 = 1 \<and> brelse b s = Ok () s' \<and> (\<exists>xs. lru (bufs s') (b # xs))"
proof -
  obtain b s where r: "bread ROOTDEV 5 booted = Ok b s" "disk_img s = disk_img booted"
    and st: "stepped 0 booted s 5 b (content booted 5) (refs booted 5 + 1) True"
    using bread_run[OF booted_ok(1), of 5] booted_ok(3,4,11) by auto
  note d = steppedD[OF st]
  obtain xs where xs: "lru (bufs s) xs" using cache_okD(2)[OF d(1)] by blast
  have "blocked s 5" "refs s 5 = 1" "content s 5 = disk_block (disk_img s) 5"
    using d booted_ok r(2) by simp_all
  then have "\<exists>s'. brelse b s = Ok () s' \<and> (\<exists>ys. lru (bufs s') (b # ys))" "refs s 5 = 1"
    using brelse_refines_lru[OF d(1) _ d(3) xs] by auto
  with d(3) show ?thesis by blast
qed

text \<open>
  C34: With every buffer referenced, \<^verbatim>\<open>bread\<close> of a block that is not cached panics.
\<close>

theorem bread_no_buffers:
  assumes "cache_ok p s" "unat bno < 2 ^ 31" "cached (bufs s) (unat bno) = None" "\<not> free_buf s"
  shows "\<exists>s'. bread ROOTDEV bno s = Stop (Panic ''bget: no buffers'') s'"
  by (rule bread_full[OF assms])

text \<open>Thirty blocks, each in its own buffer and referenced once.\<close>

definition all_busy :: disk_machine where
  "all_busy = booted\<lparr>bufs := \<lambda>b. (bufs booted b)\<lparr>b_dev := ROOTDEV, b_blockno := of_nat b, b_refcnt := 1\<rparr>\<rparr>"

lemma all_busy_ok: "cache_ok 0 all_busy" "cached (bufs all_busy) 100 = None" "\<not> free_buf all_busy"
proof -
  have k: "key (bufs all_busy b) = Some b" if "b < NBUF" for b
    using that by (simp add: all_busy_def key_def unat_of_nat NBUF_def MAXOPBLOCKS_def take_bit_nat_eq_self)
  have "linked (bufs all_busy) (NBUF # rev [0..<NBUF] @ [NBUF]) = linked (bufs booted) (NBUF # rev [0..<NBUF] @ [NBUF])"
    by (rule linked_cong) (simp_all add: all_busy_def)
  then have "lru (bufs all_busy) (rev [0..<NBUF])" using booted_ok(2) by (simp add: lru_def)
  moreover have "disk_ready 0 all_busy" using ready_upd(2)[OF cache_okD(1)[OF booted_ok(1)]] by (simp add: all_busy_def)
  moreover have "uniq (bufs all_busy)" by (auto simp: uniq_def k)
  moreover have "length (img_read (disk_img all_busy) sec) = BSIZE" for sec
    using cache_okD(4)[OF booted_ok(1)] by (simp add: all_busy_def)
  moreover have "buf_ok (disk_img all_busy) pd (sleeplocks all_busy (SLbuf b)) (bufs all_busy b)" if "b < NBUF" for b pd
    using that k[OF that] booted_ok(8,9) by (simp add: buf_ok_def all_busy_def)
  ultimately show "cache_ok 0 all_busy" by (auto simp: cache_ok_def)
  show "cached (bufs all_busy) 100 = None" by (auto simp: cached_None k NBUF_def MAXOPBLOCKS_def)
  show "\<not> free_buf all_busy" by (simp add: free_buf_def all_busy_def)
qed

theorem bread_no_buffers_witness: "\<exists>s'. bread ROOTDEV 100 all_busy = Stop (Panic ''bget: no buffers'') s'"
  using bread_no_buffers[OF all_busy_ok(1), of 100] all_busy_ok by simp

end
