(* ===== verification/Log.thy ===== *)
theory Log
  imports Bio
begin

text \<open>
  The write-ahead log, \<^verbatim>\<open>kernel/log.c\<close>: transactions of file-system calls, the commit, and the recovery
  after a crash. The header block on the disk holds the count and the block numbers as little-endian
  32-bit integers.
\<close>

section \<open>State\<close>

record log_machine = disk_machine +
  log_start :: int
  log_outstanding :: int
  log_committing :: bool
  log_dev :: int
  lh_n :: int
  lh_block :: "int list"

text \<open>Integers in the bytes of a block.\<close>

definition get32 :: "nat \<Rightarrow> u8 list \<Rightarrow> u32" where
  "get32 i bs = le_word (take 4 (drop i bs))"

definition put32 :: "nat \<Rightarrow> u32 \<Rightarrow> u8 list \<Rightarrow> u8 list" where
  "put32 i v bs = patch i (le_bytes 4 v) bs"

text \<open>\<^verbatim>\<open>log.lh.block[i]\<close>; an index outside the array is undefined in C.\<close>

definition lh_get :: "nat \<Rightarrow> ('z log_machine_scheme, int) kern" where
  "lh_get i = (if i < LOGBLOCKS then kget (\<lambda>s. lh_block s ! i) else kstop Undef)"

definition lh_set :: "nat \<Rightarrow> int \<Rightarrow> ('z log_machine_scheme, unit) kern" where
  "lh_set i v = (if i < LOGBLOCKS then kmod (\<lambda>s. s\<lparr>lh_block := (lh_block s)[i := v]\<rparr>) else kstop Undef)"

definition log_bread :: "int \<Rightarrow> ('z log_machine_scheme, nat) kern" where
  "log_bread bno = kbind (kget log_dev) (\<lambda>d. bread (word_of_int d) (word_of_int bno))"

section \<open>Recovery\<close>

definition recover_fmt :: string where
  "recover_fmt = ''recovering tail %d dst %d'' @ [CHR 0x0A]"

definition copy_block :: "nat \<Rightarrow> nat \<Rightarrow> ('z log_machine_scheme, unit) kern" where
  "copy_block to from = kbind (get_buf from) (\<lambda>x. set_buf to (\<lambda>y. y\<lparr>b_data := b_data x\<rparr>))"

definition install_one :: "bool \<Rightarrow> nat \<Rightarrow> ('z log_machine_scheme, unit) kern" where
  "install_one recovering tail =
     kthen (kwhen recovering (kbind (lh_get tail) (\<lambda>d.
              printf recover_fmt [VaI (of_nat tail), VaI (word_of_int d)]))) (
     kbind (kget log_start) (\<lambda>start.
     kbind (log_bread (start + int tail + 1)) (\<lambda>lbuf.
     kbind (lh_get tail) (\<lambda>d.
     kbind (log_bread d) (\<lambda>dbuf.
     kthen (copy_block dbuf lbuf) (
     kthen (bwrite dbuf) (
     kthen (kwhen (\<not> recovering) (bunpin dbuf)) (
     kthen (brelse lbuf)
           (brelse dbuf)))))))))"

definition install_trans :: "bool \<Rightarrow> ('z log_machine_scheme, unit) kern" where
  "install_trans recovering =
     kbind (kget lh_n) (\<lambda>n. kfor [0..<nat n] (install_one recovering))"

definition read_head :: "('z log_machine_scheme, unit) kern" where
  "read_head =
     kbind (kget log_start) (\<lambda>start.
     kbind (log_bread start) (\<lambda>b.
     kbind (get_buf b) (\<lambda>x.
     kthen (kmod (\<lambda>s. s\<lparr>lh_n := sint (get32 0 (b_data x))\<rparr>)) (
     kbind (kget lh_n) (\<lambda>n.
     kthen (kfor [0..<nat n] (\<lambda>i. lh_set i (sint (get32 (4 + 4 * i) (b_data x)))))
           (brelse b))))))"

definition write_head :: "('z log_machine_scheme, unit) kern" where
  "write_head =
     kbind (kget log_start) (\<lambda>start.
     kbind (log_bread start) (\<lambda>b.
     kbind (kget lh_n) (\<lambda>n.
     kthen (set_buf b (\<lambda>x. x\<lparr>b_data := put32 0 (word_of_int n) (b_data x)\<rparr>)) (
     kthen (kfor [0..<nat n] (\<lambda>i. kbind (lh_get i) (\<lambda>v.
              set_buf b (\<lambda>x. x\<lparr>b_data := put32 (4 + 4 * i) (word_of_int v) (b_data x)\<rparr>)))) (
     kthen (bwrite b)
           (brelse b))))))"

definition recover_from_log :: "('z log_machine_scheme, unit) kern" where
  "recover_from_log =
     kthen read_head (
     kthen (install_trans True) (
     kthen (kmod (\<lambda>s. s\<lparr>lh_n := 0\<rparr>))
           write_head))"

text \<open>\<^verbatim>\<open>sizeof(struct logheader)\<close> is 124 bytes, below the block size.\<close>

definition initlog :: "int \<Rightarrow> u32 \<Rightarrow> ('z log_machine_scheme, unit) kern" where
  "initlog dev logstart =
     (if BSIZE \<le> 4 + 4 * LOGBLOCKS then kpanic ''initlog: too big logheader'' else
      kthen (initlock Llog ''log'') (
      kthen (kmod (\<lambda>s. s\<lparr>log_start := sint logstart, log_dev := dev\<rparr>))
            recover_from_log))"

section \<open>Transactions\<close>

text \<open>One pass of the loop of \<^verbatim>\<open>begin_op\<close>: it sleeps, or takes the space and leaves.\<close>

definition begin_op_loop :: "('z log_machine_scheme, unit) kern" where
  "begin_op_loop =
     kbind (kget (\<lambda>s. (log_committing s, lh_n s, log_outstanding s))) (\<lambda>(committing, n, outstanding).
     if committing then sleep ChLog Llog
     else if int LOGBLOCKS < n + (outstanding + 1) * int MAXOPBLOCKS then sleep ChLog Llog
     else kthen (kmod (\<lambda>s. s\<lparr>log_outstanding := log_outstanding s + 1\<rparr>))
                (release Llog))"

definition begin_op :: "('z log_machine_scheme, unit) kern" where
  "begin_op = kthen (acquire Llog) begin_op_loop"

definition begin_op_resume :: "nat \<Rightarrow> bool \<Rightarrow> ('z log_machine_scheme, unit) kern" where
  "begin_op_resume p saved = kthen (sleep_resume p Llog saved) begin_op_loop"

definition write_log_one :: "nat \<Rightarrow> ('z log_machine_scheme, unit) kern" where
  "write_log_one tail =
     kbind (kget log_start) (\<lambda>start.
     kbind (log_bread (start + int tail + 1)) (\<lambda>to.
     kbind (lh_get tail) (\<lambda>d.
     kbind (log_bread d) (\<lambda>from.
     kthen (copy_block to from) (
     kthen (bwrite to) (
     kthen (brelse from)
           (brelse to)))))))"

definition write_log :: "('z log_machine_scheme, unit) kern" where
  "write_log = kbind (kget lh_n) (\<lambda>n. kfor [0..<nat n] write_log_one)"

definition commit :: "('z log_machine_scheme, unit) kern" where
  "commit =
     kbind (kget lh_n) (\<lambda>n.
     kwhen (0 < n) (
       kthen write_log (
       kthen write_head (
       kthen (install_trans False) (
       kthen (kmod (\<lambda>s. s\<lparr>lh_n := 0\<rparr>))
             write_head)))))"

definition end_op :: "('z log_machine_scheme, unit) kern" where
  "end_op =
     kthen (acquire Llog) (
     kthen (kmod (\<lambda>s. s\<lparr>log_outstanding := log_outstanding s - 1\<rparr>)) (
     kbind (kget (\<lambda>s. (log_committing s, log_outstanding s))) (\<lambda>(committing, outstanding).
     if committing then kpanic ''log.committing'' else
     if outstanding = 0 then
       kthen (kmod (\<lambda>s. s\<lparr>log_committing := True\<rparr>)) (
       kthen (release Llog) (
       kthen commit (
       kthen (acquire Llog) (
       kthen (kmod (\<lambda>s. s\<lparr>log_committing := False\<rparr>)) (
       kthen (wakeup ChLog)
             (release Llog))))))
     else
       kthen (wakeup ChLog)
             (release Llog))))"

text \<open>The position of the block in the header, or the end of the header.\<close>

definition absorb_index :: "int list \<Rightarrow> nat \<Rightarrow> u32 \<Rightarrow> nat" where
  "absorb_index bl n bno =
     (case List.find (\<lambda>i. word_of_int (bl ! i) = bno) [0..<n] of Some i \<Rightarrow> i | None \<Rightarrow> n)"

definition log_write :: "nat \<Rightarrow> ('z log_machine_scheme, unit) kern" where
  "log_write b =
     kthen (acquire Llog) (
     kbind (kget (\<lambda>s. (lh_n s, log_outstanding s))) (\<lambda>(n, outstanding).
     if int LOGBLOCKS \<le> n then kpanic ''too big a transaction''
     else if outstanding < 1 then kpanic ''log_write outside of trans'' else
     kbind (get_buf b) (\<lambda>x.
     kbind (kget (\<lambda>s. absorb_index (lh_block s) (nat n) (b_blockno x))) (\<lambda>i.
     kthen (lh_set i (sint (b_blockno x))) (
     kthen (kwhen (int i = n) (
              kthen (bpin b)
                    (kmod (\<lambda>s. s\<lparr>lh_n := lh_n s + 1\<rparr>))))
           (release Llog))))))"

section \<open>Integers in a block\<close>

lemma length_put32 [simp]: "i + 4 \<le> length d \<Longrightarrow> length (put32 i v d) = length d"
  by (simp add: put32_def)

lemma get32_put32_same: "i + 4 \<le> length d \<Longrightarrow> get32 i (put32 i v d) = v"
  by (simp add: get32_def put32_def patch_read_same le_word_le_bytes)

lemma get32_put32_other: "i + 4 \<le> length d \<Longrightarrow> j + 4 \<le> i \<or> i + 4 \<le> j \<Longrightarrow> get32 j (put32 i v d) = get32 j d"
  unfolding get32_def put32_def by (subst patch_read_other) auto

text \<open>The header block after \<^verbatim>\<open>write_head\<close> has stored the count and the block numbers in it.\<close>

definition head_bytes :: "int list \<Rightarrow> u8 list \<Rightarrow> u8 list" where
  "head_bytes bl d = fold (\<lambda>i. put32 (4 + 4 * i) (word_of_int (bl ! i))) [0..<length bl] (put32 0 (word_of_int (int (length bl))) d)"

lemma fold_put32_length:
  "4 + 4 * m \<le> length d \<Longrightarrow> length (fold (\<lambda>i. put32 (4 + 4 * i) (g i)) [0..<m] d) = length d"
  by (induction m) auto

lemma fold_put32_first:
  "4 + 4 * m \<le> length d \<Longrightarrow> get32 0 (fold (\<lambda>i. put32 (4 + 4 * i) (g i)) [0..<m] d) = get32 0 d"
  by (induction m) (auto simp: get32_put32_other fold_put32_length)

lemma fold_put32_get:
  "4 + 4 * m \<le> length d \<Longrightarrow> i < m \<Longrightarrow> get32 (4 + 4 * i) (fold (\<lambda>i. put32 (4 + 4 * i) (g i)) [0..<m] d) = g i"
proof (induction m)
  case (Suc m)
  let ?e = "fold (\<lambda>i. put32 (4 + 4 * i) (g i)) [0..<m] d"
  have l: "length ?e = length d" using Suc.prems fold_put32_length[of m d g] by simp
  show ?case
  proof (cases "i = m")
    case True
    then show ?thesis using Suc.prems l get32_put32_same[of "4 + 4 * m" ?e] by simp
  next
    case False
    then have "get32 (4 + 4 * i) (put32 (4 + 4 * m) (g m) ?e) = get32 (4 + 4 * i) ?e"
      using Suc.prems l by (intro get32_put32_other) auto
    then show ?thesis using Suc False by simp
  qed
qed simp

lemma head_bytes_length: "4 + 4 * length bl \<le> length d \<Longrightarrow> length (head_bytes bl d) = length d"
  by (simp add: head_bytes_def fold_put32_length)

lemma sint_small: "- (2 ^ 31) \<le> x \<Longrightarrow> x < 2 ^ 31 \<Longrightarrow> sint (word_of_int x :: u32) = x"
  by (simp add: sint_sbintrunc' signed_take_bit_int_eq_self)

lemma head_bytes_count:
  "4 + 4 * length bl \<le> length d \<Longrightarrow> length bl < 2 ^ 31 \<Longrightarrow> sint (get32 0 (head_bytes bl d)) = int (length bl)"
  using sint_small[of "int (length bl)"] by (simp add: head_bytes_def fold_put32_first get32_put32_same)

lemma head_bytes_entry:
  "4 + 4 * length bl \<le> length d \<Longrightarrow> i < length bl \<Longrightarrow> 0 \<le> bl ! i \<Longrightarrow> bl ! i < 2 ^ 31 \<Longrightarrow>
   sint (get32 (4 + 4 * i) (head_bytes bl d)) = bl ! i"
  by (simp add: head_bytes_def fold_put32_get sint_small)

section \<open>The log in memory\<close>

text \<open>
  The blocks of the log on the disk are the header at \<open>st\<close> and the \<open>LOGBLOCKS\<close> blocks after it. A machine whose log is
  set up: the entries of the header are different blocks outside the log.
\<close>

definition log_region :: "blk \<Rightarrow> blk set" where
  "log_region st = {st..st + LOGBLOCKS}"

definition log_base :: "'z log_machine_scheme \<Rightarrow> blk" where
  "log_base s = nat (log_start s)"

definition logged :: "'z log_machine_scheme \<Rightarrow> blk list" where
  "logged s = map nat (take (nat (lh_n s)) (lh_block s))"

definition entries_ok :: "blk \<Rightarrow> int list \<Rightarrow> bool" where
  "entries_ok st bl \<longleftrightarrow> length bl \<le> LOGBLOCKS \<and> distinct bl \<and> (\<forall>x\<in>set bl. 0 \<le> x \<and> x < 2 ^ 31 \<and> nat x \<notin> log_region st)"

definition log_ok :: "'z log_machine_scheme \<Rightarrow> bool" where
  "log_ok s \<longleftrightarrow> log_dev s = 1 \<and> 0 \<le> log_start s \<and> log_start s + int LOGBLOCKS < 2 ^ 31 \<and> length (lh_block s) = LOGBLOCKS
     \<and> 0 \<le> lh_n s \<and> lh_n s \<le> int LOGBLOCKS \<and> entries_ok (log_base s) (take (nat (lh_n s)) (lh_block s))"

text \<open>A cache in which nobody holds a block, and one more block can be read.\<close>

definition quiet :: "nat \<Rightarrow> 'z disk_machine_scheme \<Rightarrow> bool" where
  "quiet p s \<longleftrightarrow> cache_ok p s \<and> (\<forall>k. \<not> blocked s k) \<and> (\<forall>k. refs s k < 2 ^ 32 - 1) \<and> in_use (bio_view s) < NBUF"

lemma quietD:
  assumes "quiet p s"
  shows "cache_ok p s" "v_held (bio_view s) k = None" "v_refs (bio_view s) k < 2 ^ 32 - 1"
    "0 < v_refs (bio_view s) k \<or> in_use (bio_view s) < NBUF"
  using assms by (simp_all add: quiet_def held_None)

text \<open>A step of the cache leaves the log in memory as it is.\<close>

lemma log_fields:
  assumes "outside s' = outside s"
  shows "log_start s' = log_start s" "log_outstanding s' = log_outstanding s" "log_committing s' = log_committing s"
    "log_dev s' = log_dev s" "lh_n s' = lh_n s" "lh_block s' = lh_block s"
  using arg_cong[OF assms, of log_start] arg_cong[OF assms, of log_outstanding] arg_cong[OF assms, of log_committing]
    arg_cong[OF assms, of log_dev] arg_cong[OF assms, of lh_n] arg_cong[OF assms, of lh_block] by (simp_all add: outside_def)

lemma log_frame:
  assumes "outside s' = outside s"
  shows "log_ok s' = log_ok s" "logged s' = logged s" "log_base s' = log_base s"
  using log_fields[OF assms] by (simp_all add: log_ok_def logged_def log_base_def)

lemma log_bread_root: "log_dev s = 1 \<Longrightarrow> 0 \<le> x \<Longrightarrow> log_bread x s = root_bread (nat x) s"
  by (simp add: log_bread_def root_bread_def kbind_def ROOTDEV_def)

lemma copy_block_run:
  "buf_look from s = Ok d t \<Longrightarrow> copy_block to from s = buf_edit to (\<lambda>_. d) s"
  by (auto simp: copy_block_def buf_look_def buf_edit_def get_buf_def set_buf_def kbind_def kret_def)

lemma log_okD:
  assumes "log_ok s" "i < length (logged s)"
  shows "log_dev s = 1" "0 \<le> log_start s" "log_start s = int (log_base s)" "log_base s + LOGBLOCKS < 2 ^ 31"
    "i < LOGBLOCKS" "int i < lh_n s" "lh_block s ! i = int (logged s ! i)" "logged s ! i < 2 ^ 31" "logged s ! i \<notin> log_region (log_base s)"
proof -
  have l: "i < nat (lh_n s)" "nat (lh_n s) \<le> LOGBLOCKS" "length (lh_block s) = LOGBLOCKS"
    using assms by (auto simp: log_ok_def logged_def)
  have "lh_block s ! i \<in> set (take (nat (lh_n s)) (lh_block s))" using l by (auto simp: in_set_conv_nth intro!: exI[of _ i])
  then have "0 \<le> lh_block s ! i \<and> lh_block s ! i < 2 ^ 31 \<and> nat (lh_block s ! i) \<notin> log_region (log_base s)"
    using assms(1) unfolding log_ok_def entries_ok_def by blast
  moreover have "logged s ! i = nat (lh_block s ! i)" using l by (simp add: logged_def)
  ultimately show "lh_block s ! i = int (logged s ! i)" "logged s ! i < 2 ^ 31" "logged s ! i \<notin> log_region (log_base s)" by auto
  show "log_dev s = 1" "0 \<le> log_start s" "log_start s = int (log_base s)" "log_base s + LOGBLOCKS < 2 ^ 31" "i < LOGBLOCKS" "int i < lh_n s"
    using assms(1) l by (auto simp: log_ok_def log_base_def)
qed

section \<open>One block of the log\<close>

lemma region_neq: "k \<notin> log_region st \<Longrightarrow> i < LOGBLOCKS \<Longrightarrow> st + 1 + i \<noteq> k"
  by (auto simp: log_region_def)

lemma held_restore: "\<forall>k. \<not> blocked s k \<Longrightarrow> (v_held (bio_view s))(i := None, k := None) = v_held (bio_view s)"
  using held_None[of s] by auto

lemma quiet_view:
  fixes s t :: "'z disk_machine_scheme"
  assumes q: "quiet p s" and t: "cache_ok p t" and r: "\<And>k. v_refs (bio_view t) k \<le> refs s k" and h: "v_held (bio_view t) = v_held (bio_view s)"
  shows "quiet p t"
proof -
  have "\<not> blocked t k" for k using q h held_None[of t k] held_None[of s k] by (simp add: quiet_def)
  moreover have "refs t k < 2 ^ 32 - 1" for k
    by (rule le_less_trans[of _ "refs s k"]) (use q r[of k] in \<open>simp_all add: quiet_def\<close>)
  moreover have "card {k. 0 < refs t k} \<le> card {k. 0 < refs s k}"
    by (rule card_mono) (use finite_refs(1) r in \<open>auto intro: less_le_trans\<close>)
  ultimately show ?thesis using q t by (simp add: quiet_def in_use_def)
qed

lemma quiet_refs:
  assumes "quiet p s" "cache_ok p s'" "bio_view s' = (write_thru ws (bio_view s))\<lparr>v_refs := r\<rparr>" "\<And>k. r k \<le> refs s k"
  shows "quiet p s'" "refs s' = r" "content s' = upds ws (content s)" "disk_img s' = put_blocks ws (disk_img s)"
    "outside s' = outside s"
proof -
  have e: "v_refs (bio_view s') = r" "v_data (bio_view s') = upds ws (content s)"
    "v_held (bio_view s') = v_held (bio_view s)" "v_img (bio_view s') = put_blocks ws (disk_img s)" "v_rest (bio_view s') = outside s"
    unfolding assms(3) by simp_all
  show r: "refs s' = r" "content s' = upds ws (content s)" "disk_img s' = put_blocks ws (disk_img s)" "outside s' = outside s"
    using e by simp_all
  show "quiet p s'" by (rule quiet_view[OF assms(1,2)]) (use assms(4) in \<open>simp_all only: e\<close>)
qed

lemma quiet_write_thru:
  assumes "quiet p s" "cache_ok p s'" "bio_view s' = write_thru ws (bio_view s)"
  shows "quiet p s'" "refs s' = refs s" "content s' = upds ws (content s)" "disk_img s' = put_blocks ws (disk_img s)"
    "outside s' = outside s"
proof -
  have "bio_view s' = (write_thru ws (bio_view s))\<lparr>v_refs := refs s\<rparr>" using assms(3) by (simp add: write_thru_def)
  from quiet_refs[OF assms(1,2) this] show "quiet p s'" "refs s' = refs s" "content s' = upds ws (content s)"
    "disk_img s' = put_blocks ws (disk_img s)" "outside s' = outside s" by simp_all
qed

text \<open>\<^verbatim>\<open>write_log\<close> copies a pinned block to its place in the log.\<close>

lemma write_log_one_run:
  assumes q: "quiet p s" and l: "log_ok s" and i: "i < length (logged s)" and pin: "0 < refs s (logged s ! i)"
  shows "\<exists>s'. write_log_one i s = Ok () s' \<and> cache_ok p s'
     \<and> bio_view s' = write_thru [(log_base s + 1 + i, content s (logged s ! i))] (bio_view s)"
proof -
  note d = log_okD[OF l i] and c = quietD[OF q]
  let ?j = "log_base s + 1 + i" and ?k = "logged s ! i"
  have ne: "?j \<noteq> ?k" "?k \<noteq> ?j" using region_neq[OF d(9,5)] by auto
  have j: "?j < 2 ^ 31" using d(4,5) by simp
  obtain a b t u where o: "root_bread ?j s = Ok a t" "outside t = outside s" "root_bread ?k t = Ok b u" "cache_ok p u"
    and vu: "bio_view u = (bio_view s)\<lparr>v_refs := (refs s)(?j := refs s ?j + 1, ?k := refs s ?k + 1),
        v_held := (v_held (bio_view s))(?j := Some a, ?k := Some b)\<rparr>"
    using bio.open_two[OF c(1) j d(8) ne(1) c(2,2,3,3,4)] pin by auto
  have h: "v_held (bio_view u) ?k = Some b" "v_held (bio_view u) ?j = Some a" using vu ne by simp_all
  obtain v w where w: "buf_look b u = Ok (content u ?k) u" "buf_edit a (\<lambda>_. content u ?k) u = Ok () v" "bwrite a v = Ok () w" "cache_ok p w"
    and vw: "bio_view w = (bio_view u)\<lparr>v_data := (content u)(?j := content u ?k), v_img := put_block ?j (content u ?k) (disk_img u)\<rparr>"
    using bio.copy_write[OF o(4) h d(8)] by auto
  have cu: "content u = content s" "disk_img u = disk_img s" using arg_cong[OF vu, of v_data] arg_cong[OF vu, of v_img] by simp_all
  have h': "v_held (bio_view w) ?k = Some b" "v_held (bio_view w) ?j = Some a" using h vw by simp_all
  have r: "v_refs (bio_view w) ?k \<noteq> 1" "v_data (bio_view w) ?j = disk_block (v_img (bio_view w)) ?j"
    using vw vu pin ne j by (simp_all add: disk_block_put)
  obtain x s' where x: "brelse b w = Ok () x" "brelse a x = Ok () s'" "cache_ok p s'" "bio_view s' = (bio_view w)\<lparr>
     v_refs := (v_refs (bio_view w))(?k := v_refs (bio_view w) ?k - 1, ?j := v_refs (bio_view w) ?j - 1),
     v_held := (v_held (bio_view w))(?k := None, ?j := None)\<rparr>"
    using bio.close_two[OF w(4) ne(2) h'] r by auto
  have nb: "\<forall>k. \<not> blocked s k" using q by (simp add: quiet_def)
  have "bio_view s' = write_thru [(?j, content s ?k)] (bio_view s)"
    using x(4) vw vu ne held_restore[OF nb] cu by (simp add: write_thru_def fun_upd_twist)
  moreover have "write_log_one i s = Ok () s'"
    using o w x d log_fields[OF o(2)] copy_block_run[OF w(1), of a]
    by (simp add: write_log_one_def kbind_def kthen_def log_bread_root lh_get_def nat_add_distrib)
  ultimately show ?thesis using x(3) by blast
qed

text \<open>\<^verbatim>\<open>install_trans\<close> reads a block of the log, copies it over its home block and writes that.\<close>

lemma install_open:
  assumes q: "quiet p s" and l: "log_ok s" and i: "i < length (logged s)" and j: "j = log_base s + 1 + i" and k: "k = logged s ! i"
    and room: "0 < refs s k \<or> Suc (in_use (bio_view s)) < NBUF"
  shows "\<exists>a b t u v w. root_bread j s = Ok a t \<and> outside t = outside s \<and> root_bread k t = Ok b u
     \<and> buf_look a u = Ok (content s j) u \<and> buf_edit b (\<lambda>_. content s j) u = Ok () v \<and> bwrite b v = Ok () w \<and> cache_ok p w
     \<and> bio_view w = (write_thru [(k, content s j)] (bio_view s))\<lparr>v_refs := (refs s)(j := refs s j + 1, k := refs s k + 1),
          v_held := (v_held (bio_view s))(j := Some a, k := Some b)\<rparr>"
proof -
  note d = log_okD[OF l i] and c = quietD[OF q]
  have ne: "j \<noteq> k" using region_neq[OF d(9,5)] by (auto simp: j k)
  have jk: "j < 2 ^ 31" "k < 2 ^ 31" using d by (simp_all add: j k)
  obtain a b t u where o: "root_bread j s = Ok a t" "outside t = outside s" "root_bread k t = Ok b u" "cache_ok p u"
    and vu: "bio_view u = (bio_view s)\<lparr>v_refs := (refs s)(j := refs s j + 1, k := refs s k + 1),
        v_held := (v_held (bio_view s))(j := Some a, k := Some b)\<rparr>"
    using bio.open_two[OF c(1) jk ne c(2,2,3,3,4)] room by auto
  have h: "v_held (bio_view u) j = Some a" "v_held (bio_view u) k = Some b" using vu ne by simp_all
  obtain v w where w: "buf_look a u = Ok (content u j) u" "buf_edit b (\<lambda>_. content u j) u = Ok () v" "bwrite b v = Ok () w" "cache_ok p w"
    and vw: "bio_view w = (bio_view u)\<lparr>v_data := (content u)(k := content u j), v_img := put_block k (content u j) (disk_img u)\<rparr>"
    using bio.copy_write[OF o(4) h jk(1)] by auto
  have cu: "content u = content s" "disk_img u = disk_img s" using arg_cong[OF vu, of v_data] arg_cong[OF vu, of v_img] by simp_all
  then have "bio_view w = (write_thru [(k, content s j)] (bio_view s))\<lparr>v_refs := (refs s)(j := refs s j + 1, k := refs s k + 1),
          v_held := (v_held (bio_view s))(j := Some a, k := Some b)\<rparr>"
    using vw vu by (simp add: write_thru_def)
  then show ?thesis using o w cu by (intro exI[of _ a] exI[of _ b] exI[of _ t] exI[of _ u] exI[of _ v] exI[of _ w]) simp
qed

lemma install_unpin_run:
  assumes q: "quiet p s" and l: "log_ok s" and i: "i < length (logged s)" and pin: "0 < refs s (logged s ! i)"
  shows "\<exists>s'. install_one False i s = Ok () s' \<and> cache_ok p s'
     \<and> bio_view s' = (write_thru [(logged s ! i, content s (log_base s + 1 + i))] (bio_view s))\<lparr>
          v_refs := (refs s)(logged s ! i := refs s (logged s ! i) - 1)\<rparr>"
proof -
  define j k where jk: "j = log_base s + 1 + i" "k = logged s ! i"
  note d = log_okD[OF l i] and c = quietD[OF q]
  have ne: "j \<noteq> k" using region_neq[OF d(9,5)] by (auto simp: jk)
  obtain a b t u v w where o: "root_bread j s = Ok a t" "outside t = outside s" "root_bread k t = Ok b u"
    "buf_look a u = Ok (content s j) u" "buf_edit b (\<lambda>_. content s j) u = Ok () v" "bwrite b v = Ok () w" "cache_ok p w"
    and vw: "bio_view w = (write_thru [(k, content s j)] (bio_view s))\<lparr>v_refs := (refs s)(j := refs s j + 1, k := refs s k + 1),
          v_held := (v_held (bio_view s))(j := Some a, k := Some b)\<rparr>"
    using install_open[OF q l i jk] pin jk(2) by blast
  have h: "v_held (bio_view w) k = Some b" "1 < v_refs (bio_view w) k" using vw pin jk by simp_all
  obtain x where x: "bunpin b w = Ok () x" "cache_ok p x"
    and vx: "bio_view x = (bio_view w)\<lparr>v_refs := (v_refs (bio_view w))(k := v_refs (bio_view w) k - 1)\<rparr>"
    using bio.unpin_law[OF o(7) h] by blast
  have hx: "v_held (bio_view x) j = Some a" "v_held (bio_view x) k = Some b" using vx vw ne by simp_all
  have "v_refs (bio_view x) j = 1 \<longrightarrow> v_data (bio_view x) j = disk_block (v_img (bio_view x)) j"
    using vx vw ne content_clean[OF c(1), of j] d(8) by (simp add: write_thru_def disk_block_put jk)
  moreover have "v_data (bio_view x) k = disk_block (v_img (bio_view x)) k"
    using vx vw d(8) by (simp add: write_thru_def disk_block_put jk)
  ultimately obtain y s' where y: "brelse a x = Ok () y" "brelse b y = Ok () s'" "cache_ok p s'" "bio_view s' = (bio_view x)\<lparr>
     v_refs := (v_refs (bio_view x))(j := v_refs (bio_view x) j - 1, k := v_refs (bio_view x) k - 1),
     v_held := (v_held (bio_view x))(j := None, k := None)\<rparr>"
    using bio.close_two[OF x(2) ne hx] by auto
  have nb: "\<forall>k. \<not> blocked s k" using q by (simp add: quiet_def)
  have "bio_view s' = (write_thru [(k, content s j)] (bio_view s))\<lparr>v_refs := (refs s)(k := refs s k - 1)\<rparr>"
    using y(4) vx vw ne held_restore[OF nb] by (simp add: write_thru_def fun_upd_twist)
  moreover have "install_one False i s = Ok () s'"
    using o x y d log_fields[OF o(2)] copy_block_run[OF o(4), of b]
    by (simp add: install_one_def kbind_def kthen_def log_bread_root lh_get_def nat_add_distrib jk)
  ultimately show ?thesis using y(3) by (auto simp: jk)
qed

lemma cache_ok_cong:
  "cache_ok p s \<Longrightarrow> disk_ready p t \<Longrightarrow> bufs t = bufs s \<Longrightarrow> disk_img t = disk_img s \<Longrightarrow> sleeplocks t = sleeplocks s \<Longrightarrow>
   procs t = procs s \<Longrightarrow> cache_ok p t"
  by (simp add: cache_ok_def)

lemma bio_view_cong:
  assumes e: "bufs t = bufs s" "disk_img t = disk_img s" "sleeplocks t = sleeplocks s"
  shows "bio_view t = (bio_view s)\<lparr>v_rest := outside t\<rparr>"
proof -
  have "content t = content s" "refs t = refs s" "blocked t = blocked s"
    by (intro ext; simp only: content_def refs_def blocked_def e)+
  then show ?thesis by (simp add: bio_view_def e cong: if_cong)
qed

lemma printf_view:
  assumes "cache_ok p s"
  shows "\<exists>t. printf fmt args s = Ok () t \<and> cache_ok p t \<and> bio_view t = bio_view s"
proof -
  note so = soloD[OF solo_ready[OF cache_okD(1)[OF assms]]]
  let ?t = "s\<lparr>hart := scrub (hart s), con := outs (printed fmt args) (con s)\<rparr>"
  have "disk_ready p ?t" by (rule disk_ready_cong[OF cache_okD(1)[OF assms]])
    (use cache_okD(1)[OF assms] in \<open>simp_all add: disk_ready_def\<close>)
  then have "cache_ok p ?t" by (rule cache_ok_cong[OF assms]) simp_all
  moreover have "outside ?t = outside s" by (simp add: outside_def)
  then have "bio_view ?t = bio_view s" using bio_view_cong[of ?t s] by (simp add: bio_view_def)
  ultimately show ?thesis using printf_run[OF so(4,1,3)] by blast
qed

lemma install_recover_run:
  assumes q: "quiet p s" and l: "log_ok s" and i: "i < length (logged s)" and room: "Suc (in_use (bio_view s)) < NBUF"
  shows "\<exists>s'. install_one True i s = Ok () s' \<and> cache_ok p s'
     \<and> bio_view s' = write_thru [(logged s ! i, content s (log_base s + 1 + i))] (bio_view s)"
proof -
  define j k where jk: "j = log_base s + 1 + i" "k = logged s ! i"
  note d = log_okD[OF l i]
  have ne: "j \<noteq> k" using region_neq[OF d(9,5)] by (auto simp: jk)
  obtain r where r: "printf recover_fmt [VaI (of_nat i), VaI (word_of_int (lh_block s ! i))] s = Ok () r" "cache_ok p r"
     "bio_view r = bio_view s" using printf_view[OF quietD(1)[OF q]] by blast
  have vr: "bio_view r = write_thru [] (bio_view s)" using r(3) by simp
  note f = quiet_write_thru[OF q r(2) vr]
  note lf = log_frame[OF f(5)]
  have ir: "i < length (logged r)" "log_ok r" "j = log_base r + 1 + i" "k = logged r ! i" using i l jk lf by simp_all
  obtain a b t u v w where o: "root_bread j r = Ok a t" "outside t = outside r" "root_bread k t = Ok b u"
    "buf_look a u = Ok (content r j) u" "buf_edit b (\<lambda>_. content r j) u = Ok () v" "bwrite b v = Ok () w" "cache_ok p w"
    and vw: "bio_view w = (write_thru [(k, content r j)] (bio_view r))\<lparr>v_refs := (refs r)(j := refs r j + 1, k := refs r k + 1),
          v_held := (v_held (bio_view r))(j := Some a, k := Some b)\<rparr>"
    using install_open[OF f(1) ir(2,1,3,4)] room r(3) by auto
  have h: "v_held (bio_view w) j = Some a" "v_held (bio_view w) k = Some b" using vw ne by simp_all
  have "v_refs (bio_view w) j = 1 \<longrightarrow> v_data (bio_view w) j = disk_block (v_img (bio_view w)) j"
    using vw ne content_clean[OF r(2), of j] d(8) by (simp add: write_thru_def disk_block_put jk)
  moreover have "v_data (bio_view w) k = disk_block (v_img (bio_view w)) k"
    using vw d(8) by (simp add: write_thru_def disk_block_put jk)
  ultimately obtain y s' where y: "brelse a w = Ok () y" "brelse b y = Ok () s'" "cache_ok p s'" "bio_view s' = (bio_view w)\<lparr>
     v_refs := (v_refs (bio_view w))(j := v_refs (bio_view w) j - 1, k := v_refs (bio_view w) k - 1),
     v_held := (v_held (bio_view w))(j := None, k := None)\<rparr>"
    using bio.close_two[OF o(7) ne h] by auto
  have nb: "\<forall>k. \<not> blocked r k" using f(1) by (simp add: quiet_def)
  have "bio_view s' = write_thru [(k, content s j)] (bio_view s)"
    using y(4) vw ne held_restore[OF nb] r(3) f(2,3) by (simp add: write_thru_def fun_upd_twist)
  moreover have "install_one True i s = Ok () s'"
    using r(1) o y d log_fields[OF o(2)] log_fields[OF f(5)] copy_block_run[OF o(4), of b]
    by (simp add: install_one_def kbind_def kthen_def log_bread_root lh_get_def nat_add_distrib jk)
  ultimately show ?thesis using y(3) by (auto simp: jk)
qed

section \<open>The loops\<close>

text \<open>The writes of \<^verbatim>\<open>write_log\<close>, and those of \<^verbatim>\<open>install_trans\<close> from the log blocks \<open>f\<close>.\<close>

definition log_writes :: "blk \<Rightarrow> blk list \<Rightarrow> (blk \<Rightarrow> u8 list) \<Rightarrow> (blk \<times> u8 list) list" where
  "log_writes st ks f = map (\<lambda>i. (st + 1 + i, f (ks ! i))) [0..<length ks]"

definition home_writes :: "blk \<Rightarrow> blk list \<Rightarrow> (blk \<Rightarrow> u8 list) \<Rightarrow> (blk \<times> u8 list) list" where
  "home_writes st ks f = map (\<lambda>i. (ks ! i, f (st + 1 + i))) [0..<length ks]"

lemma upt_split: "[0..<n] = xs @ i # ys \<Longrightarrow> i = length xs \<and> i < n \<and> xs = [0..<i]"
proof -
  assume a: "[0..<n] = xs @ i # ys"
  from arg_cong[OF a, of length] have l: "length xs < n" by simp
  from arg_cong[OF a, of "\<lambda>zs. zs ! length xs"] l have "i = length xs" by simp
  moreover from arg_cong[OF a, of "take (length xs)"] l have "xs = [0..<length xs]" by simp
  ultimately show ?thesis using l by simp
qed

lemma length_logged: "log_ok s \<Longrightarrow> length (logged s) = nat (lh_n s)"
  by (auto simp: log_ok_def logged_def)

lemma distinct_logged: "log_ok s \<Longrightarrow> distinct (logged s)"
  unfolding log_ok_def entries_ok_def logged_def distinct_map by (auto intro!: inj_onI simp: eq_nat_nat_iff)

lemma log_not_home:
  assumes "log_ok s" "i < length (logged s)" "\<forall>x\<in>set xs. x < length (logged s)"
  shows "log_base s + 1 + i \<notin> fst ` set (map (\<lambda>i. (logged s ! i, f i)) xs)"
proof
  assume "log_base s + 1 + i \<in> fst ` set (map (\<lambda>i. (logged s ! i, f i)) xs)"
  then obtain x where "x \<in> set xs" "log_base s + 1 + i = logged s ! x" by auto
  then show False using region_neq[OF log_okD(9)[OF assms(1)] log_okD(5)[OF assms(1,2)]] assms(3) by blast
qed

lemma write_log_run:
  assumes q: "quiet p s" and l: "log_ok s" and pin: "\<forall>k\<in>set (logged s). 0 < refs s k"
  shows "\<exists>s'. write_log s = Ok () s' \<and> cache_ok p s'
     \<and> bio_view s' = write_thru (log_writes (log_base s) (logged s) (content s)) (bio_view s)"
proof -
  let ?w = "\<lambda>i. (log_base s + 1 + i, content s (logged s ! i))"
  have "wp (kfor [0..<nat (lh_n s)] write_log_one) (\<lambda>_ t. cache_ok p t \<and> bio_view t = write_thru (map ?w [0..<nat (lh_n s)]) (bio_view s)) s"
  proof (rule wp_kfor_inv[where I = "\<lambda>dn t. cache_ok p t \<and> bio_view t = write_thru (map ?w dn) (bio_view s)"])
    show "cache_ok p s \<and> bio_view s = write_thru (map ?w []) (bio_view s)" using quietD(1)[OF q] by simp
  next
    fix dn i t
    assume t: "cache_ok p t \<and> bio_view t = write_thru (map ?w dn) (bio_view s)"
      and "\<exists>rest. [0..<nat (lh_n s)] = dn @ i # rest"
    then have i: "i < nat (lh_n s)" "dn = [0..<i]" using upt_split by blast+
    then have il: "i < length (logged s)" by (simp add: length_logged[OF l])
    note f = quiet_write_thru[OF q conjunct1[OF t] conjunct2[OF t]] and d = log_okD[OF l il]
    note lf = log_frame[OF f(5)]
    have "content t (logged s ! i) = content s (logged s ! i)"
      unfolding f(3) by (rule upds_other) (use d(9) i(2) d(5) in \<open>auto simp: log_region_def\<close>)
    then obtain s' where "write_log_one i t = Ok () s'" "cache_ok p s'" "bio_view s' = write_thru [?w i] (bio_view t)"
      using write_log_one_run[OF f(1), of i] l il pin lf f(2) by auto
    then show "wp (write_log_one i) (\<lambda>_ t. cache_ok p t \<and> bio_view t = write_thru (map ?w (dn @ [i])) (bio_view s)) t"
      using t by (simp add: wp_def)
  qed
  then show ?thesis
    unfolding wp_iff by (auto simp: write_log_def kbind_def log_writes_def length_logged[OF l])
qed

lemma install_trans_unpin:
  assumes q: "quiet p s" and l: "log_ok s" and pin: "\<forall>k\<in>set (logged s). 0 < refs s k"
  shows "\<exists>s'. install_trans False s = Ok () s' \<and> cache_ok p s'
     \<and> bio_view s' = (write_thru (home_writes (log_base s) (logged s) (content s)) (bio_view s))\<lparr>
          v_refs := (\<lambda>k. refs s k - (if k \<in> set (logged s) then 1 else 0))\<rparr>"
proof -
  let ?w = "\<lambda>i. (logged s ! i, content s (log_base s + 1 + i))"
  let ?V = "\<lambda>dn. (write_thru (map ?w dn) (bio_view s))\<lparr>v_refs := (\<lambda>k. refs s k - (if k \<in> (!) (logged s) ` set dn then 1 else 0))\<rparr>"
  have "wp (kfor [0..<nat (lh_n s)] (install_one False)) (\<lambda>_ t. cache_ok p t \<and> bio_view t = ?V [0..<nat (lh_n s)]) s"
  proof (rule wp_kfor_inv[where I = "\<lambda>dn t. cache_ok p t \<and> bio_view t = ?V dn"])
    show "cache_ok p s \<and> bio_view s = ?V []" using quietD(1)[OF q] by (simp add: bio_view_def write_thru_def)
  next
    fix dn i t
    assume t: "cache_ok p t \<and> bio_view t = ?V dn" and "\<exists>rest. [0..<nat (lh_n s)] = dn @ i # rest"
    then have i: "i < nat (lh_n s)" "dn = [0..<i]" using upt_split by blast+
    then have il: "i < length (logged s)" by (simp add: length_logged[OF l])
    have "bio_view t = ?V dn" using t by blast
    note f = quiet_refs[OF q conjunct1[OF t] this] and d = log_okD[OF l il]
    note f = f(1-5)[OF diff_le_self]
    note lf = log_frame[OF f(5)]
    have new: "logged s ! i \<notin> (!) (logged s) ` set dn"
      using distinct_logged[OF l] il i(2) by (auto simp: nth_eq_iff_index_eq)
    then have pi: "0 < refs t (logged t ! i)" using pin il lf(2) f(2) by simp
    have ct: "content t (log_base s + 1 + i) = content s (log_base s + 1 + i)"
      unfolding f(3) by (rule upds_other, rule log_not_home[OF l il]) (use il i(2) in auto)
    obtain s' where "install_one False i t = Ok () s'" "cache_ok p s'"
      "bio_view s' = (write_thru [?w i] (bio_view t))\<lparr>v_refs := (refs t)(logged s ! i := refs t (logged s ! i) - 1)\<rparr>"
      using install_unpin_run[OF f(1), of i] l il pi ct unfolding lf by auto
    moreover have "(refs t)(logged s ! i := refs t (logged s ! i) - 1) = v_refs (?V (dn @ [i]))"
      using new f(2) by auto
    ultimately show "wp (install_one False i) (\<lambda>_ t. cache_ok p t \<and> bio_view t = ?V (dn @ [i])) t"
      using t by (simp add: wp_def write_thru_def)
  qed
  moreover have "(!) (logged s) ` {0..<nat (lh_n s)} = set (logged s)"
    unfolding length_logged[OF l, symmetric] by (auto simp: in_set_conv_nth)
  ultimately show ?thesis
    unfolding wp_iff by (auto simp: install_trans_def kbind_def home_writes_def length_logged[OF l])
qed

lemma install_trans_recover:
  assumes q: "quiet p s" and l: "log_ok s" and room: "Suc (in_use (bio_view s)) < NBUF"
  shows "\<exists>s'. install_trans True s = Ok () s' \<and> cache_ok p s'
     \<and> bio_view s' = write_thru (home_writes (log_base s) (logged s) (content s)) (bio_view s)"
proof -
  let ?w = "\<lambda>i. (logged s ! i, content s (log_base s + 1 + i))"
  have "wp (kfor [0..<nat (lh_n s)] (install_one True)) (\<lambda>_ t. cache_ok p t \<and> bio_view t = write_thru (map ?w [0..<nat (lh_n s)]) (bio_view s)) s"
  proof (rule wp_kfor_inv[where I = "\<lambda>dn t. cache_ok p t \<and> bio_view t = write_thru (map ?w dn) (bio_view s)"])
    show "cache_ok p s \<and> bio_view s = write_thru (map ?w []) (bio_view s)" using quietD(1)[OF q] by simp
  next
    fix dn i t
    assume t: "cache_ok p t \<and> bio_view t = write_thru (map ?w dn) (bio_view s)"
      and "\<exists>rest. [0..<nat (lh_n s)] = dn @ i # rest"
    then have i: "i < nat (lh_n s)" "dn = [0..<i]" using upt_split by blast+
    then have il: "i < length (logged s)" by (simp add: length_logged[OF l])
    note f = quiet_write_thru[OF q conjunct1[OF t] conjunct2[OF t]] and d = log_okD[OF l il]
    note lf = log_frame[OF f(5)]
    have ct: "content t (log_base s + 1 + i) = content s (log_base s + 1 + i)"
      unfolding f(3) by (rule upds_other, rule log_not_home[OF l il]) (use il i(2) in auto)
    have "Suc (in_use (bio_view t)) < NBUF" using room f(2) by (simp add: in_use_def)
    then obtain s' where "install_one True i t = Ok () s'" "cache_ok p s'" "bio_view s' = write_thru [?w i] (bio_view t)"
      using install_recover_run[OF f(1), of i] l il ct unfolding lf by auto
    then show "wp (install_one True i) (\<lambda>_ t. cache_ok p t \<and> bio_view t = write_thru (map ?w (dn @ [i])) (bio_view s)) t"
      using t by (simp add: wp_def)
  qed
  then show ?thesis
    unfolding wp_iff by (auto simp: install_trans_def kbind_def home_writes_def length_logged[OF l])
qed

section \<open>The header block\<close>

lemma head_loop_run:
  "\<forall>i\<in>set xs. i < LOGBLOCKS \<Longrightarrow>
   kfor xs (\<lambda>i. kbind (lh_get i) (\<lambda>v. set_buf b (\<lambda>x. x\<lparr>b_data := put32 (4 + 4 * i) (word_of_int v) (b_data x)\<rparr>))) s
   = Ok () (s\<lparr>bufs := (bufs s)(b := (bufs s b)\<lparr>b_data :=
       fold (\<lambda>i. put32 (4 + 4 * i) (word_of_int (lh_block s ! i))) xs (b_data (bufs s b))\<rparr>)\<rparr>)"
proof (induction xs arbitrary: s)
  case (Cons i xs)
  then have r: "\<forall>i\<in>set xs. i < LOGBLOCKS"
    "kbind (lh_get i) (\<lambda>v. set_buf b (\<lambda>x. x\<lparr>b_data := put32 (4 + 4 * i) (word_of_int v) (b_data x)\<rparr>)) s = Ok ()
     (s\<lparr>bufs := (bufs s)(b := (bufs s b)\<lparr>b_data := put32 (4 + 4 * i) (word_of_int (lh_block s ! i)) (b_data (bufs s b))\<rparr>)\<rparr>)"
    by (simp_all add: kbind_def lh_get_def set_buf_def)
  show ?case unfolding kfor.simps run_kthen r(2) result.case Cons.IH[OF r(1)] by (simp add: fun_upd_def cong: if_cong)
qed (simp add: kret_def)

text \<open>The entries of the header in memory.\<close>

abbreviation lh_entries :: "'z log_machine_scheme \<Rightarrow> int list" where
  "lh_entries s \<equiv> take (nat (lh_n s)) (lh_block s)"

lemma log_ok_entries:
  assumes "log_ok s"
  shows "length (lh_entries s) = nat (lh_n s)" "nat (lh_n s) \<le> LOGBLOCKS" "0 \<le> lh_n s" "log_dev s = 1" "0 \<le> log_start s"
    "log_start s = int (log_base s)" "log_base s + LOGBLOCKS < 2 ^ 31" "entries_ok (log_base s) (lh_entries s)"
    "map nat (lh_entries s) = logged s"
  using assms by (auto simp: log_ok_def log_base_def logged_def)

lemma LOGBLOCKS_val: "LOGBLOCKS = 30" "NBUF = 30"
  by (simp_all add: LOGBLOCKS_def NBUF_def MAXOPBLOCKS_def)

lemma write_head_run:
  assumes q: "quiet p s" and l: "log_ok s"
  shows "\<exists>s'. write_head s = Ok () s' \<and> cache_ok p s'
     \<and> bio_view s' = write_thru [(log_base s, head_bytes (lh_entries s) (content s (log_base s)))] (bio_view s)"
proof -
  note e = log_ok_entries[OF l] and c = quietD[OF q]
  let ?f = "head_bytes (lh_entries s)" and ?k = "log_base s"
  have k: "?k < 2 ^ 31" using e(7) by simp
  have "length (?f (v_data (bio_view s) ?k)) = BSIZE"
    using head_bytes_length[of "lh_entries s" "content s ?k"] content_length[OF c(1) k] e(1,2) by (simp add: LOGBLOCKS_val BSIZE_def)
  then obtain b t u w s' where o: "root_bread ?k s = Ok b t" "outside t = outside s" "buf_edit b ?f t = Ok () u" "bwrite b u = Ok () w"
     "brelse b w = Ok () s'" "cache_ok p s'" "bio_view s' = (bio_view s)\<lparr>v_data := (content s)(?k := ?f (content s ?k)),
       v_img := put_block ?k (?f (content s ?k)) (disk_img s)\<rparr>"
    using bio.write_through[OF c(1) k c(2,3,4), of ?f] by auto
  note lf = log_fields[OF o(2)]
  have fb: "fold (\<lambda>i. put32 (4 + 4 * i) (word_of_int (lh_block s ! i))) [0..<nat (lh_n s)] (put32 0 (word_of_int (lh_n s)) d) = ?f d" for d
    unfolding head_bytes_def e(1) using e(3) by (intro fold_cong) simp_all
  let ?g = "\<lambda>i. kbind (lh_get i) (\<lambda>v. set_buf b (\<lambda>x. x\<lparr>b_data := put32 (4 + 4 * i) (word_of_int v) (b_data x)\<rparr>))"
  let ?t = "t\<lparr>bufs := (bufs t)(b := (bufs t b)\<lparr>b_data := put32 0 (word_of_int (lh_n s)) (b_data (bufs t b))\<rparr>)\<rparr>"
  have "set_buf b (\<lambda>x. x\<lparr>b_data := put32 0 (word_of_int (lh_n s)) (b_data x)\<rparr>) t = Ok () ?t"
    by (simp add: set_buf_def)
  moreover have "kfor [0..<nat (lh_n s)] ?g ?t = Ok () u"
    using o(3) e(2) fb[of "b_data (bufs t b)"] lf by (subst head_loop_run) (auto simp: buf_edit_def set_buf_def)
  ultimately have "write_head s = Ok () s'"
    using o(1,4,5) e lf by (simp add: write_head_def run_kbind run_kthen log_bread_root)
  then show ?thesis using o(6,7) by (simp add: write_thru_def)
qed

lemma lh_set_loop_run:
  "\<forall>i\<in>set xs. i < LOGBLOCKS \<Longrightarrow> kfor xs (\<lambda>i. lh_set i (g i)) s = Ok () (s\<lparr>lh_block := fold (\<lambda>i bl. bl[i := g i]) xs (lh_block s)\<rparr>)"
  by (induction xs arbitrary: s) (simp_all add: kthen_def kbind_def kret_def lh_set_def)

lemma fold_update_upt: "n \<le> length bl \<Longrightarrow> fold (\<lambda>i bl. bl[i := g i]) [0..<n] bl = map g [0..<n] @ drop n bl"
proof (induction n)
  case (Suc n)
  then have "drop n bl = bl ! n # drop (Suc n) bl" by (simp add: Cons_nth_drop_Suc)
  then show ?case using Suc by (simp add: list_update_append)
qed simp

text \<open>What \<^verbatim>\<open>read_head\<close> finds in a block.\<close>

definition head_count :: "u8 list \<Rightarrow> int" where
  "head_count d = sint (get32 0 d)"

definition head_entries :: "u8 list \<Rightarrow> int list" where
  "head_entries d = map (\<lambda>i. sint (get32 (4 + 4 * i) d)) [0..<nat (head_count d)]"

lemma read_head_run:
  assumes q: "quiet p s" and st: "log_dev s = 1" "0 \<le> log_start s" "log_base s < 2 ^ 31" and bl: "length (lh_block s) = LOGBLOCKS"
    and n: "head_count (content s (log_base s)) \<le> int LOGBLOCKS"
  shows "\<exists>s'. read_head s = Ok () s' \<and> cache_ok p s' \<and> bio_view s' = (bio_view s)\<lparr>v_rest := (outside s)\<lparr>
       lh_n := head_count (content s (log_base s)),
       lh_block := head_entries (content s (log_base s)) @ drop (nat (head_count (content s (log_base s)))) (lh_block s)\<rparr>\<rparr>"
proof -
  let ?k = "log_base s" and ?d = "content s (log_base s)"
  note c = quietD[OF q]
  obtain b t where t: "root_bread ?k s = Ok b t" "cache_ok p t"
    and vt: "bio_view t = (bio_view s)\<lparr>v_refs := (refs s)(?k := refs s ?k + 1), v_held := (v_held (bio_view s))(?k := Some b)\<rparr>"
    using bio.rd_law[OF c(1) st(3) c(2,3,4)] by auto
  have ot: "outside t = outside s" using arg_cong[OF vt, of v_rest] by simp
  note lf = log_fields[OF ot]
  have h: "v_held (bio_view t) ?k = Some b" using vt by simp
  have "b_data (bufs t b) = ?d" using bio.look_law[OF t(2) h] arg_cong[OF vt, of v_data]
    by (simp add: buf_look_def get_buf_def kbind_def kret_def)
  then have db: "get_buf b t = Ok (bufs t b) t" "b_data (bufs t b) = ?d" by (simp_all add: get_buf_def)
  define u where "u = t\<lparr>lh_n := head_count ?d, lh_block := head_entries ?d @ drop (nat (head_count ?d)) (lh_block s)\<rparr>"
  have "cache_ok p u" by (rule cache_ok_cong[OF t(2)]) (use disk_ready_cong[OF cache_okD(1)[OF t(2)], of u] cache_okD(1)[OF t(2)]
      in \<open>simp_all add: u_def disk_ready_def\<close>)
  moreover have vu: "bio_view u = (bio_view t)\<lparr>v_rest := outside u\<rparr>" by (rule bio_view_cong) (simp_all add: u_def)
  moreover have cl: "v_refs (bio_view u) ?k = 1 \<longrightarrow> v_data (bio_view u) ?k = disk_block (v_img (bio_view u)) ?k"
    using content_clean[OF c(1), of ?k] by (simp only: vu vt) simp
  ultimately obtain s' where s': "brelse b u = Ok () s'" "cache_ok p s'" "bio_view s' = (bio_view u)\<lparr>v_refs := (v_refs (bio_view u))(?k := v_refs (bio_view u) ?k - 1),
        v_held := (v_held (bio_view u))(?k := None)\<rparr>" using bio.rel_law[of p u ?k b] h by auto
  have ou: "outside u = (outside s)\<lparr>lh_n := head_count ?d, lh_block := head_entries ?d @ drop (nat (head_count ?d)) (lh_block s)\<rparr>"
    unfolding ot[symmetric] by (simp add: u_def outside_def)
  have "bio_view s' = (bio_view s)\<lparr>v_rest := outside u\<rparr>"
    using held_restore[of s ?k ?k] q by (simp only: s'(3) vu vt) (simp add: quiet_def)
  moreover have "read_head s = Ok () s'"
  proof -
    have "kfor [0..<nat (head_count ?d)] (\<lambda>i. lh_set i (sint (get32 (4 + 4 * i) ?d))) (t\<lparr>lh_n := head_count ?d\<rparr>) = Ok () u"
      using n bl lf by (subst lh_set_loop_run) (auto simp: u_def fold_update_upt head_entries_def)
    then show ?thesis using t(1) db s'(1) st lf
      by (simp add: read_head_def run_kbind run_kthen log_bread_root log_base_def head_count_def)
  qed
  ultimately show ?thesis using s'(2) unfolding ou by blast
qed

section \<open>The commit\<close>

text \<open>
  The writes of \<^verbatim>\<open>commit\<close> in order: the log blocks, the header with the entries \<open>bl\<close>, the home blocks, the empty header.
\<close>

definition commit_writes :: "blk \<Rightarrow> int list \<Rightarrow> (blk \<Rightarrow> u8 list) \<Rightarrow> (blk \<times> u8 list) list" where
  "commit_writes st bl f = log_writes st (map nat bl) f @ [(st, head_bytes bl (f st))]
     @ map (\<lambda>k. (k, f k)) (map nat bl) @ [(st, head_bytes [] (head_bytes bl (f st)))]"

lemma distinct_log_writes: "distinct (map fst (log_writes st ks f))"
  by (simp add: log_writes_def distinct_map comp_def inj_on_def)

lemma fst_log_writes: "fst ` set (log_writes st ks f) = {st + 1..<st + 1 + length ks}"
  by (auto simp: log_writes_def image_image) (metis le_Suc_ex less_diff_conv2 add_Suc add_less_cancel_left atLeast0LessThan image_eqI lessThan_iff)

lemma upds_log_writes: "i < length ks \<Longrightarrow> upds (log_writes st ks f) g (st + 1 + i) = f (ks ! i)"
proof -
  assume "i < length ks"
  then have "(st + 1 + i, f (ks ! i)) \<in> set (log_writes st ks f)" by (auto simp: log_writes_def)
  then have "map_of (log_writes st ks f) (st + 1 + i) = Some (f (ks ! i))"
    using distinct_log_writes by (rule map_of_is_SomeI[rotated])
  then show ?thesis using upds_at[OF distinct_log_writes, of st ks f g "st + 1 + i"] by simp
qed

lemma quiet_cong:
  fixes s t :: "'z disk_machine_scheme"
  assumes "quiet p s" "disk_ready p t" "bufs t = bufs s" "disk_img t = disk_img s" "sleeplocks t = sleeplocks s" "procs t = procs s"
  shows "quiet p t" "content t = content s" "refs t = refs s"
proof -
  note v = bio_view_cong[OF assms(3-5)]
  have "cache_ok p t" by (rule cache_ok_cong[OF quietD(1)[OF assms(1)] assms(2-6)])
  then show "quiet p t" by (rule quiet_view[OF assms(1)]) (simp_all add: v)
  show "content t = content s" "refs t = refs s" using arg_cong[OF v, of v_data] arg_cong[OF v, of v_refs] by simp_all
qed

lemma set_count_run:
  assumes "quiet p s"
  shows "quiet p (s\<lparr>lh_n := n\<rparr>)" "bio_view (s\<lparr>lh_n := n\<rparr>) = (bio_view s)\<lparr>v_rest := (outside s)\<lparr>lh_n := n\<rparr>\<rparr>"
    "content (s\<lparr>lh_n := n\<rparr>) = content s" "refs (s\<lparr>lh_n := n\<rparr>) = refs s"
proof -
  let ?t = "s\<lparr>lh_n := n\<rparr>"
  have "disk_ready p ?t" using disk_ready_cong[OF cache_okD(1)[OF quietD(1)[OF assms]], of ?t] cache_okD(1)[OF quietD(1)[OF assms]]
    by (simp add: disk_ready_def)
  note q = quiet_cong[OF assms this]
  show "quiet p ?t" "content ?t = content s" "refs ?t = refs s" by (rule q; simp)+
  show "bio_view ?t = (bio_view s)\<lparr>v_rest := (outside s)\<lparr>lh_n := n\<rparr>\<rparr>"
    using bio_view_cong[of ?t s] by (simp add: outside_def)
qed

lemma log_ok_cleared: "log_ok s \<Longrightarrow> log_ok (s\<lparr>lh_n := 0\<rparr>)"
  by (simp add: log_ok_def entries_ok_def log_base_def)

lemma base_not_home: "log_ok s \<Longrightarrow> log_base s \<notin> set (logged s)"
proof
  assume l: "log_ok s" and "log_base s \<in> set (logged s)"
  then obtain i where "i < length (logged s)" "logged s ! i = log_base s" by (auto simp: in_set_conv_nth)
  then show False using log_okD(9)[OF l] by (fastforce simp: log_region_def)
qed

lemma commit_run:
  assumes q: "quiet p s" and l: "log_ok s" and pin: "\<forall>k\<in>set (logged s). 0 < refs s k" and n: "0 < lh_n s"
  shows "\<exists>s'. commit s = Ok () s' \<and> cache_ok p s' \<and> bio_view s' =
     (write_thru (commit_writes (log_base s) (lh_entries s) (content s)) (bio_view s))\<lparr>
        v_refs := (\<lambda>k. refs s k - (if k \<in> set (logged s) then 1 else 0)), v_rest := (outside s)\<lparr>lh_n := 0\<rparr>\<rparr>"
proof -
  let ?st = "log_base s" and ?ks = "logged s" and ?E = "lh_entries s"
  let ?H = "head_bytes ?E (content s ?st)"
  obtain s1 where s1: "write_log s = Ok () s1" "cache_ok p s1" "bio_view s1 = write_thru (log_writes ?st ?ks (content s)) (bio_view s)"
    using write_log_run[OF q l pin] by blast
  note f1 = quiet_write_thru[OF q s1(2,3)]
  note g1 = log_frame[OF f1(5)] log_fields[OF f1(5)]
  have c1: "content s1 ?st = content s ?st" unfolding f1(3) by (rule upds_other) (simp add: fst_log_writes)
  have l1: "log_ok s1" using l g1 by simp
  obtain s2 where s2: "write_head s1 = Ok () s2" "cache_ok p s2" "bio_view s2 = write_thru [(?st, ?H)] (bio_view s1)"
    using write_head_run[OF f1(1) l1] c1 unfolding g1 by auto
  note f2 = quiet_write_thru[OF f1(1) s2(2,3)]
  have o2: "outside s2 = outside s" using f1(5) f2(5) by simp
  note g2 = log_frame[OF o2] log_fields[OF o2]
  have l2: "log_ok s2" "\<forall>k\<in>set (logged s2). 0 < refs s2 k" using l g2 pin f1(2) f2(2) by simp_all
  have c2: "content s2 (?st + 1 + i) = content s (?ks ! i)" if "i < length ?ks" for i
    using that unfolding f2(3) f1(3) by (simp add: upds_log_writes[simplified])
  obtain s3 where s3: "install_trans False s2 = Ok () s3" "cache_ok p s3" "bio_view s3 = (write_thru (home_writes ?st ?ks (content s2)) (bio_view s2))\<lparr>
          v_refs := (\<lambda>k. refs s k - (if k \<in> set ?ks then 1 else 0))\<rparr>"
    using install_trans_unpin[OF f2(1) l2] f1(2) f2(2) unfolding g2 by auto
  have hw: "home_writes ?st ?ks (content s2) = map (\<lambda>k. (k, content s k)) ?ks"
    by (rule nth_equalityI) (use c2 in \<open>simp_all add: home_writes_def\<close>)
  note f3 = quiet_refs[OF f2(1) s3(2,3)[unfolded hw]]
  have f3': "quiet p s3" "content s3 = upds (map (\<lambda>k. (k, content s k)) ?ks) (content s2)" "outside s3 = outside s"
    using f3 f1(2) f2(2) o2 by simp_all
  note g3 = log_frame[OF f3'(3)] log_fields[OF f3'(3)]
  have c3: "content s3 ?st = ?H" unfolding f3'(2)
    by (subst upds_other) (use base_not_home[OF l] f2(3) in \<open>auto simp: image_image\<close>)
  have l3: "log_ok s3" using l g3 by simp
  note f4 = set_count_run[OF f3'(1), of 0] and l4 = log_ok_cleared[OF l3]
  have "log_base (s3\<lparr>lh_n := 0\<rparr>) = ?st" using g3 by (simp add: log_base_def)
  then obtain s5 where s5: "write_head (s3\<lparr>lh_n := 0\<rparr>) = Ok () s5" "cache_ok p s5" "bio_view s5 = write_thru [(?st, head_bytes [] ?H)] (bio_view (s3\<lparr>lh_n := 0\<rparr>))"
    using write_head_run[OF f4(1) l4] c3 f4(3) by auto
  have "commit s = Ok () s5" using n s1(1) s2(1) s3(1) s5(1) by (simp add: commit_def run_kbind run_kthen)
  moreover have "bio_view s5 = (write_thru (commit_writes ?st ?E (content s)) (bio_view s))\<lparr>
        v_refs := (\<lambda>k. refs s k - (if k \<in> set ?ks then 1 else 0)), v_rest := (outside s)\<lparr>lh_n := 0\<rparr>\<rparr>"
    unfolding s5(3) f4(2) s3(3) hw s2(3) s1(3) f3'(3) commit_writes_def log_ok_entries(9)[OF l] by (simp add: write_thru_def)
  ultimately show ?thesis using s5(2) by blast
qed

end
