(* ===== verification/Mapping_Laws.thy ===== *)
theory Mapping_Laws
  imports Pagetable
begin

text \<open>
  What the page-table operations of \<^verbatim>\<open>kernel/vm.c\<close> do to the mappings of a well-formed table and
  to the allocator: walks that allocate table pages leave every mapping alone, \<^verbatim>\<open>mappages\<close> adds
  exactly its range or reports that memory ran out, and the unmapping loop removes exactly its
  range and gives the frames back.
\<close>

section \<open>Walking\<close>

lemma wp_kload [simp, wp_eqs]: "wp (kload a) Q s = Q (load64 (mem s) a) s"
  by (simp add: kload_def)

lemma wp_kstore [simp, wp_eqs]: "wp (kstore a v) Q s = Q () (s\<lparr>mem := store64 a v (mem s)\<rparr>)"
  by (simp add: kstore_def)

lemma wp_zero_page [simp, wp_eqs]: "wp (zero_page a) Q s = Q () (s\<lparr>mem := memset a 0 4096 (mem s)\<rparr>)"
  by (simp add: zero_page_def PGSIZE_def)

lemma walk_from_noalloc:
  "walk_from l p va False s = Ok (case pte_of (mem s) l p va of None \<Rightarrow> 0 | Some a \<Rightarrow> a) s"
  by (induction l arbitrary: p)
    (simp_all add: kret_def kbind_def kload_def Let_def pte_valid_bit split: option.splits)

lemma walk_noalloc:
  "va < MAXVA \<Longrightarrow> walk p va False s = Ok (case pte_of (mem s) 2 p va of None \<Rightarrow> 0 | Some a \<Rightarrow> a) s"
  by (simp add: walk_def walk_from_noalloc flip: not_less)

text \<open>
  A table together with the allocator: the pages of the table are owned and none of them is free.
  \<open>vm_grow\<close> is what any number of new table pages leaves unchanged: every mapping, the memory
  outside the table, and the state outside the allocator.
\<close>

definition vm_inv :: "'z mem_machine_scheme \<Rightarrow> (u64 \<Rightarrow> nat) \<Rightarrow> u64 set \<Rightarrow> u64 \<Rightarrow> u64 list \<Rightarrow> bool" where
  "vm_inv s lev T root fl \<longleftrightarrow> alloc_ready s \<and> kmem_inv s fl \<and> pt_wf (mem s) lev T root
     \<and> (\<forall>p\<in>T. owned_page s p)"

definition vm_frame :: "'z mem_machine_scheme \<Rightarrow> 'z mem_machine_scheme \<Rightarrow> bool" where
  "vm_frame s s' \<longleftrightarrow> scrub (hart s') = scrub (hart s) \<and> mem_machine.more s' = mem_machine.more s
     \<and> kend s' = kend s \<and> (\<forall>b. owned_page s b \<longrightarrow> owned_page s' b)"

definition vm_grow ::
  "'z mem_machine_scheme \<Rightarrow> (u64 \<Rightarrow> nat) \<Rightarrow> u64 set \<Rightarrow> u64 list \<Rightarrow> u64 \<Rightarrow>
   'z mem_machine_scheme \<Rightarrow> (u64 \<Rightarrow> nat) \<Rightarrow> u64 set \<Rightarrow> u64 list \<Rightarrow> bool" where
  "vm_grow s lev T fl root s' lev' T' fl' \<longleftrightarrow>
     vm_frame s s' \<and> T \<subseteq> T' \<and> T' \<union> set fl' = T \<union> set fl \<and> (\<forall>q\<in>T. lev' q = lev q)
     \<and> (\<forall>va. lookup (mem s') root va = lookup (mem s) root va)
     \<and> (\<forall>q\<in>T. \<forall>k va. lev q = Suc k \<longrightarrow> bit (load64 (mem s) (pte_addr q (Suc k) va)) 0 \<longrightarrow>
          load64 (mem s') (pte_addr q (Suc k) va) = load64 (mem s) (pte_addr q (Suc k) va))
     \<and> (\<forall>x. pgno x \<notin> pgno ` T' \<longrightarrow> mem s' x = mem s x)"

lemma vm_frame_refl [simp]: "vm_frame s s"
  by (simp add: vm_frame_def)

lemma vm_frame_trans: "vm_frame s t \<Longrightarrow> vm_frame t u \<Longrightarrow> vm_frame s u"
  by (simp add: vm_frame_def)

lemma vm_grow_refl [simp]: "vm_grow s lev T fl root s lev T fl"
  by (simp add: vm_grow_def)

lemma vm_grow_trans:
  assumes "vm_grow s lev T fl root s1 lev1 T1 fl1" "vm_grow s1 lev1 T1 fl1 root s2 lev2 T2 fl2"
  shows "vm_grow s lev T fl root s2 lev2 T2 fl2"
proof -
  have "load64 (mem s2) (pte_addr q (Suc k) va) = load64 (mem s) (pte_addr q (Suc k) va)"
    if q: "q \<in> T" "lev q = Suc k" "bit (load64 (mem s) (pte_addr q (Suc k) va)) 0" for q k va
  proof -
    have "load64 (mem s1) (pte_addr q (Suc k) va) = load64 (mem s) (pte_addr q (Suc k) va)"
      using assms(1) q unfolding vm_grow_def by blast
    moreover have "load64 (mem s2) (pte_addr q (Suc k) va) = load64 (mem s1) (pte_addr q (Suc k) va)"
      using assms q calculation unfolding vm_grow_def by (metis subsetD)
    ultimately show ?thesis by simp
  qed
  moreover have "vm_frame s s2" using assms vm_frame_trans unfolding vm_grow_def by blast
  moreover have "mem s2 x = mem s x" if "pgno x \<notin> pgno ` T2" for x
    using assms that unfolding vm_grow_def by (metis image_mono subsetD)
  ultimately show ?thesis using assms unfolding vm_grow_def by auto
qed

lemma vm_inv_disjoint: "vm_inv s lev T root fl \<Longrightarrow> a \<in> set fl \<Longrightarrow> a \<notin> T"
  by (auto simp: vm_inv_def dest: phys.pool_not_owned)

lemma same_on_after_kalloc:
  assumes "vm_inv s lev T root (a # fl)"
  shows "same_on T (mem s) (mem (after_kalloc s))"
proof -
  have "good_page s a" using assms by (auto simp: vm_inv_def kmem_inv_def)
  then have "pgno q \<noteq> pgno a" if "q \<in> T" for q
    using that assms vm_inv_disjoint[OF assms, of a] pt_wf_page[of "mem s" lev T root q]
    by (intro page_neq) (auto simp: vm_inv_def good_page_aligned)
  then show ?thesis
    using assms mem_after_kalloc[of s a fl] by (auto simp: same_on_def vm_inv_def)
qed

text \<open>One allocation of \<^verbatim>\<open>walk\<close>: the page, zeroed and hung under its parent entry.\<close>

lemma vm_frame_kalloc:
  assumes "vm_inv s lev T root fl"
  shows "vm_frame s ((after_kalloc s)\<lparr>mem := m\<rparr>)"
  using assms owned_after_kalloc[of s fl]
  by (auto simp: vm_frame_def vm_inv_def owned_page_def good_page_def ref_of_def after_kalloc_def)

lemma vm_inv_mem:
  "alloc_ready (s\<lparr>mem := m\<rparr>) = alloc_ready s" "owned_page (s\<lparr>mem := m\<rparr>) b = owned_page s b"
  by (simp_all add: alloc_ready_def can_print_def owned_page_def good_page_def ref_of_def)

lemma kmem_inv_mem:
  assumes "kmem_inv s fl" "same_on (set fl) (mem s) m"
  shows "kmem_inv (s\<lparr>mem := m\<rparr>) fl"
proof -
  have "free_list m (freelist (kmem s)) fl = free_list (mem s) (freelist (kmem s)) fl"
    using assms kmem_inv_aligned[OF assms(1)] by (intro free_list_cong) (auto simp: same_on_def)
  then show ?thesis using assms by (simp add: kmem_inv_def good_page_def ref_of_def)
qed

lemma store_pte_page:
  assumes "p mod 4096 = 0" "pgno x \<noteq> pgno p"
  shows "store64 (pte_addr p l va) v m x = m x"
proof -
  have "\<not> unat (x - pte_addr p l va) < 8"
  proof
    assume lt: "unat (x - pte_addr p l va) < 8"
    have "unat (8 * PX l va + (x - pte_addr p l va)) < 4096"
      using PX_less[of l va] lt by (subst unat_add_no_wrap) (simp_all add: unat_8_PX)
    then have "pgno (p + (8 * PX l va + (x - pte_addr p l va))) = pgno p"
      using pgno_add_offset[OF assms(1)] by blast
    then show False using assms(2) by (simp add: pte_addr_def)
  qed
  then show ?thesis by (simp add: store64_apply)
qed

lemma grown_other:
  "p mod 4096 = 0 \<Longrightarrow> pg mod 4096 = 0 \<Longrightarrow> pgno x \<noteq> pgno p \<Longrightarrow> pgno x \<noteq> pgno pg \<Longrightarrow>
   grown p l va pg m x = m x"
  by (simp add: with_child_def store_pte_page memset_page)

lemma vm_inv_pages:
  assumes "vm_inv s lev T root fl" "p \<in> T" "a \<in> set fl"
  shows "pgno a \<noteq> pgno p"
  using assms vm_inv_disjoint[OF assms(1,3)] kmem_inv_aligned[of s fl] pt_wf_page[of "mem s" lev T root p]
  by (intro page_neq) (auto simp: vm_inv_def)

lemma vm_alloc_child:
  assumes inv: "vm_inv s lev T root (pg # fl)" and p: "p \<in> T" "lev p = Suc l"
    and no: "\<not> bit (load64 (mem s) (pte_addr p (Suc l) va)) 0"
  defines "s1 \<equiv> (after_kalloc s)\<lparr>mem := grown p l va pg (mem (after_kalloc s))\<rparr>"
  shows "vm_inv s1 (lev(pg := l)) (insert pg T) root fl"
    "vm_grow s lev T (pg # fl) root s1 (lev(pg := l)) (insert pg T) fl"
proof -
  let ?m = "mem (after_kalloc s)"
  have so: "same_on T (mem s) ?m" by (rule same_on_after_kalloc[OF inv])
  have wf: "pt_wf (mem s) lev T root" and k: "kmem_inv s (pg # fl)" and g: "good_page s pg"
    and own: "\<forall>p\<in>T. owned_page s p"
    using inv by (auto simp: vm_inv_def kmem_inv_def)
  have pgT: "pg \<notin> T" using vm_inv_disjoint[OF inv] by simp
  have fc: "fresh_child ?m lev T root p l va pg"
    unfolding fresh_child_def
    using pt_wf_cong[OF wf so] p no load_same[OF so wf p(1)] pgT good_page_aligned[OF g]
      good_page_nonzero[OF g] k by (simp add: kmem_inv_def)
  note d = fresh_childD[OF fc]
  have fl: "pgno a \<noteq> pgno pg" if "a \<in> set fl" for a
    using k that kmem_inv_aligned[OF k] by (intro page_neq) (auto simp: kmem_inv_def)
  have "kmem_inv s1 fl"
    unfolding s1_def
    using after_kalloc_inv(1)[OF k] d fl vm_inv_pages[OF inv p(1)]
    by (intro kmem_inv_mem) (auto simp: same_on_def grown_other)
  moreover have "owned_page (after_kalloc s) pg"
    using after_kalloc_inv(3)[OF k] g by (simp add: owned_page_def)
  ultimately show "vm_inv s1 (lev(pg := l)) (insert pg T) root fl"
    using pt_wf_grown[OF fc] inv own owned_after_kalloc[OF k]
    by (auto simp: vm_inv_def s1_def vm_inv_mem alloc_ready_after)
  have "lookup (mem s1) root vb = lookup (mem s) root vb" for vb
    using look_grown[OF fc] look_cong[OF wf so] pt_wf_root[OF wf] by (simp add: s1_def)
  moreover have "load64 (mem s1) (pte_addr q (Suc i) vb) = load64 (mem s) (pte_addr q (Suc i) vb)"
    if "q \<in> T" "bit (load64 (mem s) (pte_addr q (Suc i) vb)) 0" for q i vb
  proof -
    have "\<not> (q = p \<and> PX (Suc i) vb = PX (Suc l) va)" using no that(2) by (auto simp: pte_addr_def)
    then show ?thesis
      using load_grown_other[OF fc that(1)] load_same[OF so wf that(1)] by (simp add: s1_def)
  qed
  moreover have "mem s1 x = mem s x" if x: "pgno x \<notin> pgno ` insert pg T" for x
  proof -
    have "pgno x \<noteq> pgno p" "pgno x \<noteq> pgno pg" using x p(1) by auto
    then show ?thesis using d mem_after_kalloc[OF k] by (simp add: s1_def grown_other)
  qed
  ultimately show "vm_grow s lev T (pg # fl) root s1 (lev(pg := l)) (insert pg T) fl"
    using pgT vm_frame_kalloc[OF inv] by (auto simp: vm_grow_def s1_def)
qed

lemma wp_kalloc_page:
  "vm_inv s lev T root (pg # fl) \<Longrightarrow> wp kalloc Q s = Q pg (after_kalloc s)"
  using kalloc_run[of s] by (simp add: wp_def vm_inv_def kmem_inv_def)

lemma wp_kalloc_none:
  "vm_inv s lev T root [] \<Longrightarrow> wp kalloc Q s = Q 0 (after_kalloc s)"
  using kalloc_run[of s] by (simp add: wp_def vm_inv_def kmem_inv_def)

lemma vm_alloc_none:
  assumes "vm_inv s lev T root []"
  shows "vm_inv (after_kalloc s) lev T root []" "vm_grow s lev T [] root (after_kalloc s) lev T []"
proof -
  have k: "kmem_inv s []" using assms by (simp add: vm_inv_def)
  have m: "mem (after_kalloc s) = mem s" by (rule kmem_inv_empty(2)[OF k])
  show "vm_inv (after_kalloc s) lev T root []"
    using assms kmem_inv_empty[OF k] owned_after_kalloc[OF k]
    by (auto simp: vm_inv_def alloc_ready_after)
  have "vm_frame s (after_kalloc s)" using vm_frame_kalloc[OF assms, of "mem (after_kalloc s)"] by simp
  then show "vm_grow s lev T [] root (after_kalloc s) lev T []" by (simp add: vm_grow_def m)
qed

definition walked ::
  "'z mem_machine_scheme \<Rightarrow> (u64 \<Rightarrow> nat) \<Rightarrow> u64 set \<Rightarrow> u64 list \<Rightarrow> u64 \<Rightarrow> nat \<Rightarrow> u64 \<Rightarrow> u64 \<Rightarrow>
   u64 \<Rightarrow> 'z mem_machine_scheme \<Rightarrow> bool" where
  "walked s lev T fl root l p va r s' \<longleftrightarrow>
     (\<exists>lev' T' fl'. vm_inv s' lev' T' root fl' \<and> vm_grow s lev T fl root s' lev' T' fl'
        \<and> (if r = 0 then fl' = [] else pte_of (mem s') l p va = Some r))"

lemma pte_addr_nonzero: "pt mod 4096 = 0 \<Longrightarrow> pt \<noteq> 0 \<Longrightarrow> pte_addr pt l va \<noteq> 0"
  using pte_addr_page[of pt l va] page_neq[of pt 0] by (auto simp: pgno_def)

lemma walked_step:
  assumes "vm_grow s lev T fl root s1 lev1 T1 fl1" "walked s1 lev1 T1 fl1 root l c va r s'"
    "p \<in> T1" "lev1 p = Suc l" "load64 (mem s1) (pte_addr p (Suc l) va) = v" "bit v 0" "PTE2PA v = c"
  shows "walked s lev T fl root (Suc l) p va r s'"
proof -
  obtain lev' T' fl' where w: "vm_inv s' lev' T' root fl'" "vm_grow s1 lev1 T1 fl1 root s' lev' T' fl'"
    "if r = 0 then fl' = [] else pte_of (mem s') l c va = Some r"
    using assms(2) unfolding walked_def by blast
  have "load64 (mem s') (pte_addr p (Suc l) va) = v"
    using w(2) assms(3-6) unfolding vm_grow_def by blast
  then show ?thesis
    unfolding walked_def using w vm_grow_trans[OF assms(1) w(2)] assms(6,7)
    by (intro exI[of _ lev'] exI[of _ T'] exI[of _ fl']) simp
qed

lemma wp_walk_from:
  "vm_inv s lev T root fl \<Longrightarrow> p \<in> T \<Longrightarrow> lev p = l \<Longrightarrow>
   wp (walk_from l p va True) (walked s lev T fl root l p va) s"
proof (induction l arbitrary: s lev T fl p)
  case 0
  then have "pte_addr p 0 va \<noteq> 0"
    using pt_wf_page[of "mem s" lev T root p] by (intro pte_addr_nonzero) (auto simp: vm_inv_def)
  then show ?case
    using 0(1) by (simp add: walked_def) (blast intro: vm_grow_refl)
next
  case (Suc l)
  let ?v = "load64 (mem s) (pte_addr p (Suc l) va)"
  show ?case
  proof (cases "bit ?v 0")
    case True
    have "pt_wf (mem s) lev T root" using Suc.prems(1) by (simp add: vm_inv_def)
    from pt_wf_child[OF this Suc.prems(2,3) refl True]
    have "PTE2PA ?v \<in> T \<and> lev (PTE2PA ?v) = l" .
    then have "wp (walk_from l (PTE2PA ?v) va True) (walked s lev T fl root l (PTE2PA ?v) va) s"
      using Suc.IH Suc.prems by blast
    then show ?thesis
      using True walked_step[OF vm_grow_refl[of s lev T fl root] _ Suc.prems(2,3), of "PTE2PA ?v" va _ _ ?v]
      by (simp add: pte_valid_bit Let_def) (blast intro: wp_mono)
  next
    case no: False
    show ?thesis
    proof (cases fl)
      case Nil
      then show ?thesis
        using no vm_alloc_none[of s lev T root] Suc.prems
        by (simp add: pte_valid_bit Let_def wp_kalloc_none walked_def) blast
    next
      case (Cons pg gl)
      define s1 where "s1 = (after_kalloc s)\<lparr>mem := grown p l va pg (mem (after_kalloc s))\<rparr>"
      note ac = vm_alloc_child[OF Suc.prems(1)[unfolded Cons] Suc.prems(2,3) no, folded s1_def]
      have pg: "pg \<noteq> 0" "pg mod 4096 = 0" "pg \<noteq> p"
        using Suc.prems Cons vm_inv_disjoint[OF Suc.prems(1), of pg]
        by (auto simp: vm_inv_def kmem_inv_def good_page_aligned)
      have v: "load64 (mem s1) (pte_addr p (Suc l) va) = PA2PTE pg OR PTE_V"
        by (simp add: s1_def load_grown_new)
      have "wp (walk_from l pg va True) (walked s1 (lev(pg := l)) (insert pg T) gl root l pg va) s1"
        by (rule Suc.IH[OF ac(1)]) simp_all
      then have "wp (walk_from l pg va True) (walked s lev T fl root (Suc l) p va) s1"
        using walked_step[OF ac(2) _ _ _ v] pg Suc.prems(2,3) unfolding Cons
        by (auto elim!: wp_mono)
      then show ?thesis
        using no pg Suc.prems(1)[unfolded Cons] unfolding Cons
        by (simp add: pte_valid_bit Let_def wp_kalloc_page s1_def with_child_def)
    qed
  qed
qed

lemma wp_walk_alloc:
  assumes "vm_inv s lev T root fl" "va < MAXVA"
  shows "wp (walk root va True) (walked s lev T fl root 2 root va) s"
proof -
  have "root \<in> T" "lev root = 2" using assms(1) pt_wf_root by (auto simp: vm_inv_def)
  then show ?thesis using wp_walk_from[OF assms(1)] assms(2) by (simp add: walk_def flip: not_less)
qed

section \<open>Mapping\<close>

text \<open>A store into a leaf entry keeps the table and the allocator intact.\<close>

lemma vm_inv_leaf_store:
  assumes inv: "vm_inv s lev T root fl" and a: "pte_of (mem s) 2 root va = Some a"
  shows "vm_inv (s\<lparr>mem := store64 a v (mem s)\<rparr>) lev T root fl"
    "pgno x \<notin> pgno ` T \<Longrightarrow> store64 a v (mem s) x = mem s x"
proof -
  have wf: "pt_wf (mem s) lev T root" and k: "kmem_inv s fl" using inv by (auto simp: vm_inv_def)
  obtain q where q: "q \<in> T" "lev q = 0" "a = pte_addr q 0 va"
    using pte_of_leaf[OF wf _ _ a] pt_wf_root[OF wf] by blast
  have al: "q mod 4096 = 0" using pt_wf_page[OF wf q(1)] by simp
  show "store64 a v (mem s) x = mem s x" if "pgno x \<notin> pgno ` T" for x
  proof -
    have "pgno x \<noteq> pgno q" using that q(1) by auto
    then show ?thesis using al q(3) by (simp add: store_pte_page)
  qed
  have "same_on (set fl) (mem s) (store64 a v (mem s))"
    using vm_inv_pages[OF inv q(1)] al q(3) by (auto simp: same_on_def store_pte_page)
  then show "vm_inv (s\<lparr>mem := store64 a v (mem s)\<rparr>) lev T root fl"
    using inv kmem_inv_mem[OF k] leaf_store_wf[OF wf q(1,2)] q(3)
    by (simp add: vm_inv_def vm_inv_mem)
qed

text \<open>
  The effect of mapping \<open>n\<close> pages: on success every page of the range has its entry and every other
  mapping is as before; on failure memory ran out and a prefix of the range is mapped.
\<close>

definition leaf_entry :: "u64 \<Rightarrow> u64 \<Rightarrow> u64" where
  "leaf_entry pa perm = PA2PTE pa OR perm OR PTE_V"

lemma leaf_entry_valid [simp]: "bit (leaf_entry pa perm) 0"
  by (simp add: leaf_entry_def PTE_V_def bit_simps)

definition mapped_range ::
  "memory \<Rightarrow> u64 \<Rightarrow> nat \<Rightarrow> u64 \<Rightarrow> u64 \<Rightarrow> u64 \<Rightarrow> memory \<Rightarrow> bool" where
  "mapped_range m root n va pa perm m' \<longleftrightarrow>
     (\<forall>vb<MAXVA. lookup m' root vb =
        (if pgno va \<le> pgno vb \<and> pgno vb < pgno va + n
         then Some (leaf_entry (pa + of_nat (pgno vb - pgno va) * 4096) perm)
         else lookup m root vb))"

lemma vm_grow_mem:
  assumes "vm_grow s lev T fl root s1 lev1 T1 fl1"
  shows "x \<notin> pgno ` (T \<union> set fl) \<Longrightarrow> x = pgno y \<Longrightarrow> mem s1 y = mem s y"
  using assms unfolding vm_grow_def by (metis Un_iff image_Un)

definition mapped_ok ::
  "'z mem_machine_scheme \<Rightarrow> u64 set \<Rightarrow> u64 list \<Rightarrow> u64 \<Rightarrow> nat \<Rightarrow> u64 \<Rightarrow> u64 \<Rightarrow> u64 \<Rightarrow>
   int \<Rightarrow> 'z mem_machine_scheme \<Rightarrow> bool" where
  "mapped_ok s T fl root n va pa perm r s' \<longleftrightarrow>
     (\<exists>lev' T' fl' k. vm_inv s' lev' T' root fl' \<and> vm_frame s s' \<and> T \<subseteq> T' \<and> T' \<union> set fl' = T \<union> set fl
        \<and> (\<forall>x. pgno x \<notin> pgno ` T' \<longrightarrow> mem s' x = mem s x)
        \<and> mapped_range (mem s) root k va pa perm (mem s')
        \<and> (if r = 0 then k = n else r = - 1 \<and> fl' = [] \<and> k < n))"

lemma mapped_range_0: "(\<And>vb. lookup m' root vb = lookup m root vb) \<Longrightarrow> mapped_range m root 0 va pa perm m'"
  by (auto simp: mapped_range_def)

lemma mapped_range_Suc:
  assumes "\<And>vb. lookup m1 root vb = lookup m root vb"
    and "\<And>vb. vb < MAXVA \<Longrightarrow> lookup m2 root vb =
      (if pgno vb = pgno va then Some (leaf_entry pa perm) else lookup m1 root vb)"
    and "mapped_range m2 root k (va + 4096) (pa + 4096) perm m3" "pgno (va + 4096) = Suc (pgno va)"
  shows "mapped_range m root (Suc k) va pa perm m3"
  unfolding mapped_range_def
proof (intro allI impI)
  fix vb assume vb: "vb < MAXVA"
  have "pa + 4096 + of_nat (pgno vb - Suc (pgno va)) * 4096 = pa + of_nat (pgno vb - pgno va) * 4096"
    if "Suc (pgno va) \<le> pgno vb"
  proof -
    have "pgno vb - pgno va = Suc (pgno vb - Suc (pgno va))" using that by simp
    then show ?thesis by (simp add: algebra_simps)
  qed
  then show "lookup m3 root vb = (if pgno va \<le> pgno vb \<and> pgno vb < pgno va + Suc k
      then Some (leaf_entry (pa + of_nat (pgno vb - pgno va) * 4096) perm) else lookup m root vb)"
    using assms(1,2,3) vb by (auto simp: mapped_range_def assms(4))
qed

lemma page_succ:
  assumes "va mod 4096 = 0" "unat va + 4096 \<le> unat MAXVA"
  shows "(va + 4096) mod 4096 = 0" "unat (va + 4096) = unat va + 4096" "pgno (va + 4096) = Suc (pgno va)"
    "va < MAXVA"
proof -
  show u: "unat (va + 4096) = unat va + 4096"
    using assms(2) by (subst unat_add_no_wrap) (simp_all add: MAXVA_val)
  then show "(va + 4096) mod 4096 = 0" "pgno (va + 4096) = Suc (pgno va)"
    using assms(1) by (simp_all add: aligned_unat pgno_def)
  show "va < MAXVA" using assms(2) by (simp add: word_less_nat_alt)
qed

lemma mapped_ok_step:
  assumes grow: "vm_grow s lev T fl root s1 lev1 T1 fl1"
    and inv: "vm_inv s1 lev1 T1 root fl1"
    and pte: "pte_of (mem s1) 2 root va = Some a"
    and va: "va mod 4096 = 0" "unat va + 4096 \<le> unat MAXVA"
    and ok: "mapped_ok (s1\<lparr>mem := store64 a (leaf_entry pa perm) (mem s1)\<rparr>) T1 fl1 root n
      (va + 4096) (pa + 4096) perm r s'"
  shows "mapped_ok s T fl root (Suc n) va pa perm r s'"
proof -
  let ?s2 = "s1\<lparr>mem := store64 a (leaf_entry pa perm) (mem s1)\<rparr>"
  obtain lev' T' fl' k where o: "vm_inv s' lev' T' root fl'" "vm_frame ?s2 s'" "T1 \<subseteq> T'"
    "T' \<union> set fl' = T1 \<union> set fl1" "\<forall>x. pgno x \<notin> pgno ` T' \<longrightarrow> mem s' x = mem ?s2 x"
    "mapped_range (mem ?s2) root k (va + 4096) (pa + 4096) perm (mem s')"
    "if r = 0 then k = n else r = - 1 \<and> fl' = [] \<and> k < n"
    using ok unfolding mapped_ok_def by blast
  have wf: "pt_wf (mem s1) lev1 T1 root" using inv by (simp add: vm_inv_def)
  have g: "vm_frame s s1" "T \<subseteq> T1" "T1 \<union> set fl1 = T \<union> set fl"
    "\<And>vb. lookup (mem s1) root vb = lookup (mem s) root vb"
    "\<And>x. pgno x \<notin> pgno ` T1 \<Longrightarrow> mem s1 x = mem s x"
    using grow unfolding vm_grow_def by blast+
  have "mapped_range (mem s) root (Suc k) va pa perm (mem s')"
    using lookup_leaf_store[OF wf pte page_succ(4)[OF va]] o(6) page_succ(3)[OF va] g(4)
    by (intro mapped_range_Suc[of "mem s1" root "mem s" "mem ?s2"]) simp_all
  moreover have "vm_frame s1 ?s2" by (simp add: vm_frame_def vm_inv_mem)
  then have "vm_frame s s'" using g(1) o(2) vm_frame_trans by blast
  moreover have "mem s' x = mem s x" if "pgno x \<notin> pgno ` T'" for x
  proof -
    have "pgno x \<notin> pgno ` T1" using that o(3) by auto
    then show ?thesis using that o(5) vm_inv_leaf_store(2)[OF inv pte] g(5) by simp
  qed
  ultimately show ?thesis
    unfolding mapped_ok_def using o(1,3,4,7) g(2,3)
    by (intro exI[of _ lev'] exI[of _ T'] exI[of _ fl'] exI[of _ "Suc k"]) auto
qed

lemma wp_mappages_loop:
  "vm_inv s lev T root fl \<Longrightarrow> va mod 4096 = 0 \<Longrightarrow> unat va + 4096 * n \<le> unat MAXVA \<Longrightarrow>
   (\<And>vb. vb < MAXVA \<Longrightarrow> pgno va \<le> pgno vb \<Longrightarrow> pgno vb < pgno va + n \<Longrightarrow> lookup (mem s) root vb = None) \<Longrightarrow>
   wp (mappages_loop n root va pa perm) (mapped_ok s T fl root n va pa perm) s"
proof (induction n arbitrary: s lev T fl va pa)
  case 0
  then show ?case by (auto simp: mapped_ok_def intro!: exI[of _ lev] exI[of _ T] exI[of _ fl] mapped_range_0)
next
  case (Suc n)
  have va: "unat va + 4096 \<le> unat MAXVA" using Suc.prems(3) by simp
  note ps = page_succ[OF Suc.prems(2) va]
  have rest: "wp (if r = 0 then kret (- 1) else
     kbind (kload r) (\<lambda>v.
     if v AND PTE_V \<noteq> 0 then kpanic ''mappages: remap'' else
     kthen (kstore r (PA2PTE pa OR perm OR PTE_V))
           (mappages_loop n root (va + PGSIZE) (pa + PGSIZE) perm)))
     (mapped_ok s T fl root (Suc n) va pa perm) s1"
    if w: "walked s lev T fl root 2 root va r s1" for r s1
  proof -
    obtain lev1 T1 fl1 where o: "vm_inv s1 lev1 T1 root fl1" "vm_grow s lev T fl root s1 lev1 T1 fl1"
      "if r = 0 then fl1 = [] else pte_of (mem s1) 2 root va = Some r"
      using w unfolding walked_def by blast
    have wf: "pt_wf (mem s1) lev1 T1 root" using o(1) by (simp add: vm_inv_def)
    have same: "lookup (mem s1) root vb = lookup (mem s) root vb" for vb using o(2) unfolding vm_grow_def by blast
    show ?thesis
    proof (cases "r = 0")
      case True
      then show ?thesis
        using o same unfolding mapped_ok_def vm_grow_def
        by (auto intro!: exI[of _ lev1] exI[of _ T1] exI[of _ fl1] exI[of _ 0] mapped_range_0)
    next
      case False
      then have pte: "pte_of (mem s1) 2 root va = Some r" using o(3) by simp
      then have "\<not> bit (load64 (mem s1) r) 0"
        using Suc.prems(4)[of va] ps(4) same[of va] by (simp add: look_pte_of Let_def split: if_splits)
      moreover define s2 where "s2 = s1\<lparr>mem := store64 r (leaf_entry pa perm) (mem s1)\<rparr>"
      have "wp (mappages_loop n root (va + 4096) (pa + 4096) perm)
          (mapped_ok s2 T1 fl1 root n (va + 4096) (pa + 4096) perm) s2"
      proof (rule Suc.IH)
        show "vm_inv s2 lev1 T1 root fl1" unfolding s2_def by (rule vm_inv_leaf_store(1)[OF o(1) pte])
        show "lookup (mem s2) root vb = None"
          if vb: "vb < MAXVA" "pgno (va + 4096) \<le> pgno vb" "pgno vb < pgno (va + 4096) + n" for vb
          using lookup_leaf_store[OF wf pte ps(4), of vb] Suc.prems(4)[of vb] same[of vb] vb
          by (simp add: s2_def ps(3))
      qed (use ps Suc.prems in simp_all)
      then have "wp (mappages_loop n root (va + 4096) (pa + 4096) perm)
          (mapped_ok s T fl root (Suc n) va pa perm) s2"
        using mapped_ok_step[OF o(2,1) pte Suc.prems(2) va] by (auto simp: s2_def elim!: wp_mono)
      ultimately show ?thesis
        using False by (simp add: pte_valid_bit s2_def leaf_entry_def PGSIZE_def)
    qed
  qed
  show ?case
    unfolding mappages_loop.simps
    by (subst wp_kbind, rule wp_mono[OF wp_walk_alloc[OF Suc.prems(1) ps(4)]], rule rest)
qed

section \<open>Reading and removing mappings\<close>

lemma pte_of_nonzero:
  assumes "pt_wf m lev T root" "pte_of m 2 root va = Some a"
  shows "a \<noteq> 0"
proof -
  obtain q where "q \<in> T" "a = pte_addr q 0 va"
    using pte_of_leaf[OF assms(1) _ _ assms(2)] pt_wf_root[OF assms(1)] by blast
  then show ?thesis using pt_wf_page[OF assms(1)] by (simp add: pte_addr_nonzero)
qed

lemma walkaddr_run:
  assumes "pt_wf (mem s) lev T root"
  shows "walkaddr root va s = Ok (if va < MAXVA then
      (case lookup (mem s) root va of None \<Rightarrow> 0 | Some v \<Rightarrow> if v AND PTE_U = 0 then 0 else PTE2PA v)
      else 0) s"
proof (cases "va < MAXVA")
  case True
  show ?thesis
  proof (cases "pte_of (mem s) 2 root va")
    case None
    then show ?thesis
      using True by (simp add: walkaddr_def kbind_def kret_def walk_noalloc look_pte_of flip: not_less)
  next
    case (Some a)
    then show ?thesis
      using True pte_of_nonzero[OF assms Some]
      by (simp add: walkaddr_def kbind_def kret_def kload_def walk_noalloc look_pte_of Let_def
          pte_invalid_bit flip: not_less)
  qed
next
  case False
  then show ?thesis by (simp add: walkaddr_def kret_def flip: not_less)
qed

lemma ismapped_run:
  assumes "pt_wf (mem s) lev T root" "va < MAXVA"
  shows "ismapped root va s = Ok (lookup (mem s) root va \<noteq> None) s"
proof (cases "pte_of (mem s) 2 root va")
  case None
  then show ?thesis using assms(2) by (simp add: ismapped_def kbind_def kret_def walk_noalloc look_pte_of)
next
  case (Some a)
  then show ?thesis
    using assms(2) pte_of_nonzero[OF assms(1) Some]
    by (simp add: ismapped_def kbind_def kret_def kload_def walk_noalloc look_pte_of Let_def pte_valid_bit)
qed

text \<open>Freeing a page outside the table.\<close>

lemma vm_inv_kfree:
  assumes inv: "vm_inv s lev T root fl" and a: "owned_page s a" "a \<notin> T"
  shows "vm_inv (after_kfree a s) lev T root (a # fl)" "kfree a s = Ok () (after_kfree a s)"
    "same_on T (mem s) (mem (after_kfree a s))"
proof -
  have k: "kmem_inv s fl" and wf: "pt_wf (mem s) lev T root" and g: "good_page s a" "ref_of s a = 1"
    using assms by (auto simp: vm_inv_def owned_page_def)
  have "pgno p \<noteq> pgno a" if "p \<in> T" for p
    using that pt_wf_page[OF wf that] a(2) good_page_aligned[OF g(1)] by (intro page_neq) auto
  then show so: "same_on T (mem s) (mem (after_kfree a s))"
    using mem_after_kfree[OF g(1)] by (auto simp: same_on_def)
  have "owned_page (after_kfree a s) p" if "p \<in> T" for p
    using that inv a(2) g by (auto simp: vm_inv_def owned_page_def ref_of_after_kfree ref_index_inj)
  then show "vm_inv (after_kfree a s) lev T root (a # fl)"
    using inv after_kfree_inv[OF k g] pt_wf_cong[OF wf so] by (simp add: vm_inv_def alloc_ready_after)
  show "kfree a s = Ok () (after_kfree a s)"
    using inv g by (intro kfree_run) (auto simp: vm_inv_def alloc_ready_def)
qed

text \<open>Removing one page from a table, with and without freeing its frame.\<close>

definition unmapped_ok ::
  "'z mem_machine_scheme \<Rightarrow> (u64 \<Rightarrow> nat) \<Rightarrow> u64 set \<Rightarrow> u64 \<Rightarrow> u64 list \<Rightarrow> u64 list \<Rightarrow> u64 list \<Rightarrow>
   'z mem_machine_scheme \<Rightarrow> bool" where
  "unmapped_ok s lev T root fl F V s' \<longleftrightarrow>
     vm_inv s' lev T root (F @ fl) \<and> kend s' = kend s \<and> mem_machine.more s' = mem_machine.more s
     \<and> scrub (hart s') = scrub (hart s) \<and> (\<forall>b. owned_page s b \<and> b \<notin> set F \<longrightarrow> owned_page s' b)
     \<and> (\<forall>vb<MAXVA. lookup (mem s') root vb =
          (if pgno vb \<in> pgno ` set V then None else lookup (mem s) root vb))"

lemma unmap_page_absent:
  assumes "vm_inv s lev T root fl" "va < MAXVA" "lookup (mem s) root va = None"
  shows "unmap_page root f va s = Ok () s"
proof -
  have wf: "pt_wf (mem s) lev T root" using assms(1) by (simp add: vm_inv_def)
  show ?thesis
  proof (cases "pte_of (mem s) 2 root va")
    case None
    then show ?thesis using assms(2) by (simp add: unmap_page_def kbind_def kret_def walk_noalloc)
  next
    case (Some a)
    then have "\<not> bit (load64 (mem s) a) 0" using assms(3) by (simp add: look_pte_of Let_def split: if_splits)
    then show ?thesis
      using assms(2) Some
      by (simp add: unmap_page_def kbind_def kret_def kload_def walk_noalloc pte_invalid_bit)
  qed
qed

lemma unmap_page_present:
  assumes inv: "vm_inv s lev T root fl" and va: "va < MAXVA" and v: "lookup (mem s) root va = Some v"
    and own: "f \<Longrightarrow> owned_page s (PTE2PA v) \<and> PTE2PA v \<notin> T"
  shows "wp (unmap_page root f va)
    (\<lambda>_. unmapped_ok s lev T root fl (if f then [PTE2PA v] else []) [va]) s"
proof -
  have wf: "pt_wf (mem s) lev T root" using inv by (simp add: vm_inv_def)
  obtain a where a: "pte_of (mem s) 2 root va = Some a" "load64 (mem s) a = v" "bit v 0"
    using v by (auto simp: look_pte_of Let_def split: option.splits if_splits)
  define F where "F = (if f then [PTE2PA v] else [])"
  define t where "t = (if f then after_kfree (PTE2PA v) s else s)"
  have t: "vm_inv t lev T root (F @ fl)" "same_on T (mem s) (mem t)"
    "kend t = kend s" "mem_machine.more t = mem_machine.more s" "scrub (hart t) = scrub (hart s)"
    using inv own vm_inv_kfree[OF inv, of "PTE2PA v"]
    by (auto simp: t_def F_def same_on_def after_kfree_def Let_def)
  have keep: "owned_page t b" if "owned_page s b" "b \<notin> set F" for b
    using that own by (auto simp: t_def F_def owned_page_def ref_of_after_kfree ref_index_inj split: if_splits)
  have run: "kwhen f (kfree (PTE2PA v)) s = Ok () t"
    using own vm_inv_kfree(2)[OF inv, of "PTE2PA v"] by (simp add: t_def)
  have root: "root \<in> T" "lev root = 2" using pt_wf_root[OF wf] by auto
  have pt: "pte_of (mem t) 2 root va = Some a" using look_cong[OF wf t(2) root] a(1) by simp
  have wft: "pt_wf (mem t) lev T root" using t(1) by (simp add: vm_inv_def)
  have "unmap_page root f va s = Ok () (t\<lparr>mem := store64 a 0 (mem t)\<rparr>)"
    using va a pte_of_nonzero[OF wf a(1)] run
    by (simp add: unmap_page_def kbind_def kthen_def kload_def kstore_def walk_noalloc pte_invalid_bit)
  moreover have "unmapped_ok s lev T root fl F [va] (t\<lparr>mem := store64 a 0 (mem t)\<rparr>)"
    using vm_inv_leaf_store(1)[OF t(1) pt, of 0] t keep lookup_leaf_store[OF wft pt va, of _ 0]
      look_cong[OF wf t(2) root]
    by (simp add: unmapped_ok_def vm_inv_mem)
  ultimately show ?thesis by (simp add: wp_def F_def)
qed

text \<open>
  A range of pages. \<open>frames\<close> lists the frames the range maps, last page first; \<open>frames_ok\<close> says that they
  are owned by the table alone, which freeing them needs.
\<close>

definition frames :: "memory \<Rightarrow> u64 \<Rightarrow> u64 list \<Rightarrow> u64 list" where
  "frames m root as = rev (map PTE2PA (List.map_filter (lookup m root) as))"

definition frames_ok :: "'z mem_machine_scheme \<Rightarrow> u64 set \<Rightarrow> u64 \<Rightarrow> u64 list \<Rightarrow> bool" where
  "frames_ok s T root as \<longleftrightarrow>
     distinct (frames (mem s) root as) \<and> (\<forall>a\<in>set (frames (mem s) root as). owned_page s a \<and> a \<notin> T)"

lemma frames_simps [simp]:
  "frames m root [] = []"
  "frames m root (a # as) = frames m root as @ (case lookup m root a of None \<Rightarrow> [] | Some v \<Rightarrow> [PTE2PA v])"
  by (simp_all add: frames_def List.map_filter_simps split: option.splits)

lemma frames_cong: "(\<And>a. a \<in> set as \<Longrightarrow> lookup m' root a = lookup m root a) \<Longrightarrow> frames m' root as = frames m root as"
  by (induction "as") auto

lemma unmapped_ok_trans:
  assumes "unmapped_ok s lev T root fl F V s1" "unmapped_ok s1 lev T root (F @ fl) F' V' s2"
  shows "unmapped_ok s lev T root fl (F' @ F) (V @ V') s2"
proof -
  have "lookup (mem s2) root vb = (if pgno vb \<in> pgno ` set (V @ V') then None else lookup (mem s) root vb)"
    if "vb < MAXVA" for vb
    using assms that unfolding unmapped_ok_def image_Un set_append by simp
  then show ?thesis using assms unfolding unmapped_ok_def by simp
qed

lemma wp_unmap_pages:
  "vm_inv s lev T root fl \<Longrightarrow> \<forall>a\<in>set as. a < MAXVA \<Longrightarrow> distinct (map pgno as) \<Longrightarrow>
   (f \<Longrightarrow> frames_ok s T root as) \<Longrightarrow>
   wp (kfor as (unmap_page root f))
     (\<lambda>_. unmapped_ok s lev T root fl (if f then frames (mem s) root as else []) as) s"
proof (induction "as" arbitrary: s fl)
  case Nil
  then show ?case by (simp add: unmapped_ok_def)
next
  case (Cons a "as")
  define F where "F = (if f then (case lookup (mem s) root a of None \<Rightarrow> [] | Some v \<Rightarrow> [PTE2PA v]) else [])"
  have one: "wp (unmap_page root f a) (\<lambda>_. unmapped_ok s lev T root fl F [a]) s"
  proof (cases "lookup (mem s) root a")
    case None
    have same: "(if pgno vb \<in> pgno ` set [a] then None else lookup (mem s) root vb) = lookup (mem s) root vb" for vb
      using same_page_look(1)[of vb a "mem s" 2 root] None by auto
    have "F = []" using None by (simp add: F_def)
    then have "unmapped_ok s lev T root fl F [a] s"
      using Cons.prems(1) unfolding unmapped_ok_def same by simp
    then show ?thesis
      using unmap_page_absent[OF Cons.prems(1) _ None] Cons.prems(2) by (simp add: wp_def)
  next
    case (Some v)
    have "F = (if f then [PTE2PA v] else [])" using Some by (simp add: F_def)
    moreover have "owned_page s (PTE2PA v) \<and> PTE2PA v \<notin> T" if f
      using Cons.prems(4)[OF that] Some by (simp add: frames_ok_def)
    ultimately show ?thesis
      using unmap_page_present[OF Cons.prems(1) _ Some, of f] Cons.prems(2) by simp
  qed
  have rest: "wp (kfor as (unmap_page root f)) (\<lambda>_. unmapped_ok s lev T root fl
      (if f then frames (mem s) root (a # as) else []) (a # as)) s1"
    if u: "unmapped_ok s lev T root fl F [a] s1" for s1
  proof -
    have l: "lookup (mem s1) root b = lookup (mem s) root b" if "b \<in> set as" for b
    proof -
      have "pgno b \<noteq> pgno a" using that Cons.prems(3) by (auto simp: image_iff)
      then show ?thesis using u that Cons.prems(2) by (simp add: unmapped_ok_def)
    qed
    then have fr: "frames (mem s1) root as = frames (mem s) root as" by (rule frames_cong)
    have "wp (kfor as (unmap_page root f))
      (\<lambda>_. unmapped_ok s1 lev T root (F @ fl) (if f then frames (mem s1) root as else []) as) s1"
    proof (rule Cons.IH)
      show "frames_ok s1 T root as" if f
        using Cons.prems(4)[OF that] u that fr by (auto simp: frames_ok_def unmapped_ok_def F_def split: option.splits)
    qed (use u Cons.prems in \<open>auto simp: unmapped_ok_def\<close>)
    then show ?thesis
    proof (rule wp_mono)
      fix s2
      assume "unmapped_ok s1 lev T root (F @ fl) (if f then frames (mem s1) root as else []) as s2"
      from unmapped_ok_trans[OF u this] show "unmapped_ok s lev T root fl
          (if f then frames (mem s) root (a # as) else []) (a # as) s2"
        by (simp add: F_def fr split: if_splits)
    qed
  qed
  show ?case
    unfolding kfor.simps by (subst wp_kthen, rule wp_mono[OF one], rule rest)
qed

lemma pages_below_props:
  assumes "a mod 4096 = 0" "e mod 4096 = 0" "e \<le> MAXVA"
  shows "(\<forall>b\<in>set (pages_below a e). b mod 4096 = 0 \<and> a \<le> b \<and> b < e) \<and> distinct (map pgno (pages_below a e))
    \<and> (\<forall>vb. pgno vb \<in> pgno ` set (pages_below a e) \<longleftrightarrow> pgno a \<le> pgno vb \<and> pgno vb < pgno e)"
  using assms
proof (induction a e rule: pages_below.induct)
  case (1 a e)
  show ?case
  proof (cases "a < e")
    case True
    obtain q r where qr: "unat a = 4096 * q" "unat e = 4096 * r"
      using "1.prems"(1,2) by (auto simp: aligned_unat mod_eq_0_iff_dvd elim!: dvdE)
    then have "q < r" using True by (simp add: word_less_nat_alt)
    have le: "unat a + 4096 \<le> unat MAXVA"
      using qr \<open>q < r\<close> "1.prems"(3) by (simp add: word_le_nat_alt)
    note ps = page_succ[OF "1.prems"(1) le]
    have lt: "a < a + 4096" using ps(2) by (simp add: word_less_nat_alt)
    have r: "pages_below a e = a # pages_below (a + 4096) e"
      using True lt by (subst pages_below.simps) (simp add: PGSIZE_def)
    have ih: "(\<forall>b\<in>set (pages_below (a + 4096) e). b mod 4096 = 0 \<and> a + 4096 \<le> b \<and> b < e)
      \<and> distinct (map pgno (pages_below (a + 4096) e))
      \<and> (\<forall>vb. pgno vb \<in> pgno ` set (pages_below (a + 4096) e) \<longleftrightarrow> pgno (a + 4096) \<le> pgno vb \<and> pgno vb < pgno e)"
      using "1.IH" True lt ps(1) "1.prems" by (simp add: PGSIZE_def)
    have e: "pgno a < pgno e" using qr \<open>q < r\<close> by (simp add: pgno_def)
    have "a \<le> b" if "a + 4096 \<le> b" for b using lt that by simp
    then show ?thesis using ih True "1.prems"(1) e ps(3) unfolding r by auto
  next
    case False
    have "unat e div 4096 \<le> unat a div 4096" using False by (intro div_le_mono) (simp add: word_less_nat_alt)
    then show ?thesis using False by (subst (1 2 3) pages_below.simps) (auto simp: pgno_def)
  qed
qed

text \<open>
  C6: \<^verbatim>\<open>mappages\<close> on a well-formed table and an unmapped range either maps every page of the range to
  its frame with the given permissions, leaving every other mapping, every byte outside the
  table and the rest of the kernel state as they were, or returns -1 with the allocator
  exhausted and a prefix of the range mapped. It does not panic, and it takes table pages only
  from the free list.
\<close>

theorem mappages_maps:
  assumes "vm_inv s lev T root fl" "va mod PGSIZE = 0" "sz mod PGSIZE = 0" "0 < sz"
    "unat va + unat sz \<le> unat MAXVA"
    "\<And>vb. vb < MAXVA \<Longrightarrow> pgno va \<le> pgno vb \<Longrightarrow> pgno vb < pgno va + unat (sz div PGSIZE) \<Longrightarrow>
       lookup (mem s) root vb = None"
  shows "wp (mappages root va sz pa perm) (mapped_ok s T fl root (unat (sz div PGSIZE)) va pa perm) s"
proof -
  have "4096 * unat (sz div PGSIZE) \<le> unat sz" by (simp add: PGSIZE_def unat_div)
  then have "wp (mappages_loop (unat (sz div PGSIZE)) root va pa perm)
      (mapped_ok s T fl root (unat (sz div PGSIZE)) va pa perm) s"
    using assms by (intro wp_mappages_loop) (simp_all add: PGSIZE_def)
  then show ?thesis using assms(2-4) by (simp add: mappages_def)
qed


text \<open>A concrete machine: an empty table and two free pages.\<close>

definition vm_demo :: mem_machine where
  "vm_demo = \<lparr>hart = hart0, con = con0, mem = store64 0x87FFE000 0x87FFF000 (\<lambda>_. 0),
     kmem = \<lparr>freelist = 0x87FFE000, free_pages_count = 2\<rparr>,
     ref_counts = (\<lambda>i. if i = 0x87FFD then 1 else 0), kend = 0x87FFD000\<rparr>"

lemma vm_demo_load: "load64 (mem vm_demo) (pte_addr 0x87FFD000 l va) = 0"
proof -
  have "load64 (store64 0x87FFE000 0x87FFF000 (\<lambda>_. 0)) (pte_addr 0x87FFD000 l va)
      = load64 (\<lambda>_. 0) (pte_addr 0x87FFD000 l va)"
    by (rule load_pte_cong) (simp_all add: store64_page pgno_def)
  then show ?thesis by (simp add: vm_demo_def)
qed

lemma vm_demo_lookup: "lookup (mem vm_demo) 0x87FFD000 va = None"
  by (simp add: numeral_2_eq_2 vm_demo_load)

lemma vm_demo_inv: "vm_inv vm_demo (\<lambda>_. 2) {0x87FFD000} 0x87FFD000 [0x87FFE000, 0x87FFF000]"
proof -
  have "load64 (mem vm_demo) 0x87FFF000 = load64 (\<lambda>_. 0) 0x87FFF000"
    unfolding vm_demo_def by (simp add: load64_store64_other)
  moreover have "load64 (mem vm_demo) 0x87FFE000 = 0x87FFF000" by (simp add: vm_demo_def)
  ultimately have "free_list (mem vm_demo) 0x87FFE000 [0x87FFE000, 0x87FFF000]" by simp
  then have "kmem_inv vm_demo [0x87FFE000, 0x87FFF000]"
    by (simp add: kmem_inv_def) (simp add: vm_demo_def good_page_def ref_of_def get_ref_index_pgno
        PHYSTOP_val pgno_def)
  moreover have "pt_wf (mem vm_demo) (\<lambda>_. 2) {0x87FFD000} 0x87FFD000"
    by (rule pt_wfI) (auto simp: vm_demo_load)
  ultimately show ?thesis
    by (simp add: vm_inv_def) (simp add: vm_demo_def alloc_ready_def can_print_def con0_def
        owned_page_def good_page_def ref_of_def get_ref_index_pgno PHYSTOP_val pgno_def)
qed

theorem mappages_maps_witness:
  "wp (mappages 0x87FFD000 0 4096 0x80000000 PTE_R)
     (mapped_ok vm_demo {0x87FFD000} [0x87FFE000, 0x87FFF000] 0x87FFD000 1 0 0x80000000 PTE_R) vm_demo"
  using mappages_maps[OF vm_demo_inv, of 0 4096 "0x80000000" PTE_R]
  by (simp add: PGSIZE_def vm_demo_lookup MAXVA_val)


end
