(* ===== verification/User_Memory.thy ===== *)
theory User_Memory
  imports Proc_State Mapping_Laws
begin

text \<open>
  User memory as the kernel reaches it: lazy allocation (\<^verbatim>\<open>vmfault\<close>) and the copies between user
  and kernel space of \<^verbatim>\<open>kernel/vm.c\<close> and \<^verbatim>\<open>kernel/proc.c\<close>. A kernel buffer is a list of bytes: a copy to
  user space takes the bytes, a copy from user space returns the bytes it has copied together
  with its return value, so that a copy that fails in the middle still shows what it wrote.
\<close>

section \<open>Operations\<close>

definition vmfault :: "u64 \<Rightarrow> u64 \<Rightarrow> bool \<Rightarrow> ('z proc_machine_scheme, u64) kern" where
  "vmfault pagetable va read =
     kbind this_proc (\<lambda>p.
     kbind (get_proc p) (\<lambda>pr.
     if p_sz pr \<le> va then kret 0 else
     let va0 = PGROUNDDOWN va in
     kbind (ismapped pagetable va0) (\<lambda>mapped.
     if mapped then kret 0 else
     kbind kalloc (\<lambda>pg.
     if pg = 0 then kret 0 else
     kthen (zero_page pg) (
     kbind (mappages (p_pagetable pr) va0 PGSIZE pg (PTE_W OR PTE_U OR PTE_R)) (\<lambda>r.
     if r \<noteq> 0 then kthen (kfree pg) (kret 0)
     else kret pg))))))"

text \<open>The number of bytes from an address to the end of its page.\<close>

definition page_room :: "u64 \<Rightarrow> nat" where
  "page_room a = unat (PGSIZE - (a - PGROUNDDOWN a))"

lemma page_room_eq: "page_room a = 4096 - unat a mod 4096"
proof -
  have "a - PGROUNDDOWN a = a mod 4096" by (simp add: PGROUNDDOWN_eq)
  moreover have "unat (a mod 4096) < 4096" by (simp add: unat_mod)
  ultimately show ?thesis
    by (simp add: page_room_def PGSIZE_def unat_sub word_le_nat_alt unat_mod)
qed

lemma page_room_pos: "0 < page_room a" "page_room a \<le> 4096"
  by (simp_all add: page_room_eq)

text \<open>
  A physical address behind a user page, allocating it lazily; 0 if there is none. This is the
  head of the loops of \<^verbatim>\<open>copyout\<close> and \<^verbatim>\<open>copyin\<close>.
\<close>

definition user_page :: "u64 \<Rightarrow> u64 \<Rightarrow> ('z proc_machine_scheme, u64) kern" where
  "user_page pagetable va0 =
     kbind (walkaddr pagetable va0) (\<lambda>pa0.
     if pa0 = 0 then vmfault pagetable va0 False else kret pa0)"

function copyout :: "u64 \<Rightarrow> u64 \<Rightarrow> u8 list \<Rightarrow> ('z proc_machine_scheme, int) kern" where
  "copyout pagetable dstva src =
     (if src = [] then kret 0 else
      let va0 = PGROUNDDOWN dstva; n = min (page_room dstva) (length src) in
      if MAXVA \<le> va0 then kret (- 1) else
      kbind (user_page pagetable va0) (\<lambda>pa0.
      if pa0 = 0 then kret (- 1) else
      kbind (walk pagetable va0 False) (\<lambda>pte.
      if pte = 0 then kpanic ''kerneltrap'' else
      kbind (kload pte) (\<lambda>v.
      if v AND PTE_W = 0 then kret (- 1) else
      kthen (kmod (\<lambda>s. s\<lparr>mem := mem_write (pa0 + (dstva - va0)) (take n src) (mem s)\<rparr>))
            (copyout pagetable (va0 + PGSIZE) (drop n src))))))"
  by pat_completeness auto
termination
  by (relation "measure (\<lambda>(pt, va, src). length src)") (auto simp: page_room_pos)

declare copyout.simps [simp del]

function copyin :: "u64 \<Rightarrow> u64 \<Rightarrow> nat \<Rightarrow> ('z proc_machine_scheme, int \<times> u8 list) kern" where
  "copyin pagetable srcva len =
     (if len = 0 then kret (0, []) else
      let va0 = PGROUNDDOWN srcva; n = min (page_room srcva) len in
      kbind (user_page pagetable va0) (\<lambda>pa0.
      if pa0 = 0 then kret (- 1, []) else
      kbind (kget (\<lambda>s. mem_read (mem s) (pa0 + (srcva - va0)) n)) (\<lambda>bs.
      kbind (copyin pagetable (va0 + PGSIZE) (len - n)) (\<lambda>(r, rest).
      kret (r, bs @ rest)))))"
  by pat_completeness auto
termination
  by (relation "measure (\<lambda>(pt, va, len). len)") (auto simp: page_room_pos)

declare copyin.simps [simp del]

text \<open>The inner loop of \<^verbatim>\<open>copyinstr\<close> over the bytes of one page: what it stores, and whether it met the NUL.\<close>

definition scan_nul :: "u8 list \<Rightarrow> u8 list \<times> bool" where
  "scan_nul bs = (if 0 \<in> set bs then (takeWhile (\<lambda>b. b \<noteq> 0) bs @ [0], True) else (bs, False))"

function copyinstr :: "u64 \<Rightarrow> u64 \<Rightarrow> nat \<Rightarrow> ('z proc_machine_scheme, int \<times> u8 list) kern" where
  "copyinstr pagetable srcva left =
     (if left = 0 then kret (- 1, []) else
      let va0 = PGROUNDDOWN srcva; n = min (page_room srcva) left in
      kbind (walkaddr pagetable va0) (\<lambda>pa0.
      if pa0 = 0 then kret (- 1, []) else
      kbind (kget (\<lambda>s. scan_nul (mem_read (mem s) (pa0 + (srcva - va0)) n))) (\<lambda>(bs, got_null).
      if got_null then kret (0, bs) else
      kbind (copyinstr pagetable (va0 + PGSIZE) (left - n)) (\<lambda>(r, rest).
      kret (r, bs @ rest)))))"
  by pat_completeness auto
termination
  by (relation "measure (\<lambda>(pt, va, left). left)") (auto simp: page_room_pos)

declare copyinstr.simps [simp del]

text \<open>
  The two ends of a transfer between kernel and user space: a user virtual address, a kernel
  address, or a C variable of the caller, whose bytes are passed or returned.
\<close>

datatype dst = UserDst u64 | KernelDst u64 | LocalDst

datatype src = UserSrc u64 | LocalSrc "u8 list"

definition dst_add :: "dst \<Rightarrow> nat \<Rightarrow> dst" where
  "dst_add d n = (case d of UserDst a \<Rightarrow> UserDst (a + of_nat n) | KernelDst a \<Rightarrow> KernelDst (a + of_nat n)
     | LocalDst \<Rightarrow> LocalDst)"

definition src_add :: "src \<Rightarrow> nat \<Rightarrow> src" where
  "src_add s n = (case s of UserSrc a \<Rightarrow> UserSrc (a + of_nat n) | LocalSrc bs \<Rightarrow> LocalSrc (drop n bs))"

definition either_copyout :: "dst \<Rightarrow> u8 list \<Rightarrow> ('z proc_machine_scheme, int) kern" where
  "either_copyout d bs =
     kbind this_proc (\<lambda>p.
     kbind (get_proc p) (\<lambda>pr.
     case d of
       UserDst a \<Rightarrow> copyout (p_pagetable pr) a bs
     | KernelDst a \<Rightarrow> kthen (kmod (\<lambda>s. s\<lparr>mem := mem_write a bs (mem s)\<rparr>)) (kret 0)
     | LocalDst \<Rightarrow> kret 0))"

definition either_copyin :: "src \<Rightarrow> nat \<Rightarrow> ('z proc_machine_scheme, int \<times> u8 list) kern" where
  "either_copyin sr len =
     kbind this_proc (\<lambda>p.
     kbind (get_proc p) (\<lambda>pr.
     case sr of
       UserSrc a \<Rightarrow> copyin (p_pagetable pr) a len
     | LocalSrc bs \<Rightarrow> kret (0, take len bs)))"

end
