(* ===== verification/Fs.thy ===== *)
theory Fs
  imports Log User_Memory
begin

text \<open>
  The file system, \<^verbatim>\<open>kernel/fs.c\<close> and \<^verbatim>\<open>kernel/fs.h\<close>: the block allocator, inodes and their contents,
  directories and path names. An inode of the table is named by its index, a null inode pointer is
  \<open>None\<close>. A path is the list of the bytes of the C string before its NUL; the name of a directory entry
  is an array of 14 bytes.
\<close>

section \<open>State\<close>

definition FSMAGIC :: u32 where "FSMAGIC = 0x10203040"
definition NDIRECT :: nat where "NDIRECT = 12"
definition NINDIRECT :: nat where "NINDIRECT = BSIZE div 4"
definition MAXFILE :: nat where "MAXFILE = NDIRECT + NINDIRECT"
definition ROOTINO :: u32 where "ROOTINO = 1"
definition BPB :: nat where "BPB = BSIZE * 8"
definition DINODE :: nat where "DINODE = 64"
definition IPB :: nat where "IPB = BSIZE div DINODE"
definition DIRSIZ :: nat where "DIRSIZ = 14"
definition DIRENT :: nat where "DIRENT = 16"
definition T_DIR :: u16 where "T_DIR = 1"
definition T_FILE :: u16 where "T_FILE = 2"
definition T_DEVICE :: u16 where "T_DEVICE = 3"

record superblock =
  sb_magic :: u32
  sb_size :: u32
  sb_nblocks :: u32
  sb_ninodes :: u32
  sb_nlog :: u32
  sb_logstart :: u32
  sb_inodestart :: u32
  sb_bmapstart :: u32

record inode =
  i_dev :: u32
  i_inum :: u32
  i_ref :: int
  i_valid :: bool
  i_type :: u16
  i_major :: u16
  i_minor :: u16
  i_nlink :: u16
  i_size :: u32
  i_addrs :: "u32 list"

record fs_machine = log_machine +
  sb :: superblock
  inodes :: "nat \<Rightarrow> inode"

definition get_inode :: "nat \<Rightarrow> ('z fs_machine_scheme, inode) kern" where
  "get_inode ip = kget (\<lambda>s. inodes s ip)"

definition set_inode :: "nat \<Rightarrow> (inode \<Rightarrow> inode) \<Rightarrow> ('z fs_machine_scheme, unit) kern" where
  "set_inode ip f = kmod (\<lambda>s. s\<lparr>inodes := (inodes s)(ip := f (inodes s ip))\<rparr>)"

definition IBLOCK :: "u32 \<Rightarrow> superblock \<Rightarrow> u32" where
  "IBLOCK i b = i div of_nat IPB + sb_inodestart b"

definition BBLOCK :: "u32 \<Rightarrow> superblock \<Rightarrow> u32" where
  "BBLOCK b x = b div of_nat BPB + sb_bmapstart x"

section \<open>The super block\<close>

definition superblock_of :: "u8 list \<Rightarrow> superblock" where
  "superblock_of d = \<lparr>sb_magic = get32 0 d, sb_size = get32 4 d, sb_nblocks = get32 8 d, sb_ninodes = get32 12 d,
     sb_nlog = get32 16 d, sb_logstart = get32 20 d, sb_inodestart = get32 24 d, sb_bmapstart = get32 28 d\<rparr>"

definition readsb :: "u32 \<Rightarrow> ('z fs_machine_scheme, unit) kern" where
  "readsb dev =
     kbind (bread dev 1) (\<lambda>bp.
     kbind (get_buf bp) (\<lambda>x.
     kthen (kmod (\<lambda>s. s\<lparr>sb := superblock_of (b_data x)\<rparr>))
           (brelse bp)))"

section \<open>Blocks\<close>

definition bzero :: "u32 \<Rightarrow> u32 \<Rightarrow> ('z fs_machine_scheme, unit) kern" where
  "bzero dev bno =
     kbind (bread dev bno) (\<lambda>bp.
     kthen (set_buf bp (\<lambda>x. x\<lparr>b_data := replicate BSIZE 0\<rparr>)) (
     kthen (log_write bp)
           (brelse bp)))"

definition bit_mask :: "nat \<Rightarrow> u8" where
  "bit_mask bi = push_bit (bi mod 8) 1"

definition bit_clear :: "u8 list \<Rightarrow> nat \<Rightarrow> bool" where
  "bit_clear d bi \<longleftrightarrow> d ! (bi div 8) AND bit_mask bi = 0"

text \<open>One iteration of the outer loop of \<^verbatim>\<open>balloc\<close> per block of the bit map.\<close>

primrec balloc_loop :: "u32 \<Rightarrow> nat list \<Rightarrow> ('z fs_machine_scheme, u32) kern" where
  "balloc_loop dev [] = kthen (printf (''balloc: out of blocks'' @ [CHR 0x0A]) []) (kret 0)"
| "balloc_loop dev (b # bs) =
     kbind (kget sb) (\<lambda>sbk.
     kbind (bread dev (BBLOCK (of_nat b) sbk)) (\<lambda>bp.
     kbind (get_buf bp) (\<lambda>x.
     case List.find (bit_clear (b_data x)) [0..<min BPB (unat (sb_size sbk) - b)] of
       Some bi \<Rightarrow>
         kthen (set_buf bp (\<lambda>x. x\<lparr>b_data := (b_data x)[bi div 8 := b_data x ! (bi div 8) OR bit_mask bi]\<rparr>)) (
         kthen (log_write bp) (
         kthen (brelse bp) (
         kthen (bzero dev (of_nat (b + bi)))
               (kret (of_nat (b + bi))))))
     | None \<Rightarrow> kthen (brelse bp) (balloc_loop dev bs))))"

definition balloc :: "u32 \<Rightarrow> ('z fs_machine_scheme, u32) kern" where
  "balloc dev =
     kbind (kget sb) (\<lambda>sbk.
     balloc_loop dev (map (\<lambda>k. k * BPB) [0..<(unat (sb_size sbk) + BPB - 1) div BPB]))"

definition bfree :: "u32 \<Rightarrow> u32 \<Rightarrow> ('z fs_machine_scheme, unit) kern" where
  "bfree dev b =
     kbind (kget sb) (\<lambda>sbk.
     kbind (bread dev (BBLOCK b sbk)) (\<lambda>bp.
     kbind (get_buf bp) (\<lambda>x.
     let bi = unat b mod BPB in
     if bit_clear (b_data x) bi then kpanic ''freeing free block'' else
     kthen (set_buf bp (\<lambda>x. x\<lparr>b_data := (b_data x)[bi div 8 := b_data x ! (bi div 8) AND NOT (bit_mask bi)]\<rparr>)) (
     kthen (log_write bp)
           (brelse bp)))))"

section \<open>Inodes\<close>

text \<open>The inode on the disk: 64 bytes, at slot \<open>inum mod IPB\<close> of its block.\<close>

definition dinode_off :: "u32 \<Rightarrow> nat" where
  "dinode_off inum = (unat inum mod IPB) * DINODE"

definition get16 :: "nat \<Rightarrow> u8 list \<Rightarrow> u16" where
  "get16 i bs = le_word (take 2 (drop i bs))"

definition dinode_bytes :: "inode \<Rightarrow> u8 list" where
  "dinode_bytes i = le_bytes 2 (i_type i) @ le_bytes 2 (i_major i) @ le_bytes 2 (i_minor i) @ le_bytes 2 (i_nlink i)
     @ le_bytes 4 (i_size i) @ concat (map (le_bytes 4) (i_addrs i))"

definition load_dinode :: "u8 list \<Rightarrow> nat \<Rightarrow> inode \<Rightarrow> inode" where
  "load_dinode d off i = i\<lparr>i_type := get16 off d, i_major := get16 (off + 2) d, i_minor := get16 (off + 4) d,
     i_nlink := get16 (off + 6) d, i_size := get32 (off + 8) d,
     i_addrs := map (\<lambda>k. get32 (off + 12 + 4 * k) d) [0..<NDIRECT + 1]\<rparr>"

definition iinit :: "('z fs_machine_scheme, unit) kern" where
  "iinit =
     kthen (initlock Litable ''itable'')
           (kfor [0..<NINODE] (\<lambda>i. initsleeplock (SLinode i) ''inode''))"

definition iget :: "u32 \<Rightarrow> u32 \<Rightarrow> ('z fs_machine_scheme, nat) kern" where
  "iget dev inum =
     kthen (acquire Litable) (
     kbind (kget inodes) (\<lambda>tab.
     case List.find (\<lambda>ip. 0 < i_ref (tab ip) \<and> i_dev (tab ip) = dev \<and> i_inum (tab ip) = inum) [0..<NINODE] of
       Some ip \<Rightarrow>
         kthen (set_inode ip (\<lambda>i. i\<lparr>i_ref := i_ref i + 1\<rparr>)) (
         kthen (release Litable)
               (kret ip))
     | None \<Rightarrow>
         (case List.find (\<lambda>ip. i_ref (tab ip) = 0) [0..<NINODE] of
            None \<Rightarrow> kpanic ''iget: no inodes''
          | Some ip \<Rightarrow>
              kthen (set_inode ip (\<lambda>i. i\<lparr>i_dev := dev, i_inum := inum, i_ref := 1, i_valid := False\<rparr>)) (
              kthen (release Litable)
                    (kret ip)))))"

text \<open>The loop of \<^verbatim>\<open>ialloc\<close> over the inode numbers.\<close>

primrec ialloc_loop :: "u32 \<Rightarrow> u16 \<Rightarrow> nat list \<Rightarrow> ('z fs_machine_scheme, nat option) kern" where
  "ialloc_loop dev type [] = kthen (printf (''ialloc: no inodes'' @ [CHR 0x0A]) []) (kret None)"
| "ialloc_loop dev type (n # ns) =
     kbind (kget sb) (\<lambda>sbk.
     kbind (bread dev (IBLOCK (of_nat n) sbk)) (\<lambda>bp.
     kbind (get_buf bp) (\<lambda>x.
     let off = dinode_off (of_nat n) in
     if get16 off (b_data x) = 0 then
       kthen (set_buf bp (\<lambda>x. x\<lparr>b_data := patch off (le_bytes 2 type @ replicate (DINODE - 2) 0) (b_data x)\<rparr>)) (
       kthen (log_write bp) (
       kthen (brelse bp)
             (kbind (iget dev (of_nat n)) (\<lambda>ip. kret (Some ip)))))
     else kthen (brelse bp) (ialloc_loop dev type ns))))"

definition ialloc :: "u32 \<Rightarrow> u16 \<Rightarrow> ('z fs_machine_scheme, nat option) kern" where
  "ialloc dev type = kbind (kget sb) (\<lambda>sbk. ialloc_loop dev type [1..<unat (sb_ninodes sbk)])"

definition iupdate :: "nat \<Rightarrow> ('z fs_machine_scheme, unit) kern" where
  "iupdate ip =
     kbind (get_inode ip) (\<lambda>i.
     kbind (kget sb) (\<lambda>sbk.
     kbind (bread (i_dev i) (IBLOCK (i_inum i) sbk)) (\<lambda>bp.
     kthen (set_buf bp (\<lambda>x. x\<lparr>b_data := patch (dinode_off (i_inum i)) (dinode_bytes i) (b_data x)\<rparr>)) (
     kthen (log_write bp)
           (brelse bp)))))"

definition idup :: "nat \<Rightarrow> ('z fs_machine_scheme, nat) kern" where
  "idup ip =
     kthen (acquire Litable) (
     kthen (set_inode ip (\<lambda>i. i\<lparr>i_ref := i_ref i + 1\<rparr>)) (
     kthen (release Litable)
           (kret ip)))"

text \<open>The part of \<^verbatim>\<open>ilock\<close> after \<^verbatim>\<open>acquiresleep\<close>, and a thread that slept there when it runs again.\<close>

definition ilock_fill :: "nat \<Rightarrow> ('z fs_machine_scheme, unit) kern" where
  "ilock_fill ip =
     kbind (get_inode ip) (\<lambda>i.
     kwhen (\<not> i_valid i) (
       kbind (kget sb) (\<lambda>sbk.
       kbind (bread (i_dev i) (IBLOCK (i_inum i) sbk)) (\<lambda>bp.
       kbind (get_buf bp) (\<lambda>x.
       kthen (set_inode ip (load_dinode (b_data x) (dinode_off (i_inum i)))) (
       kthen (brelse bp) (
       kthen (set_inode ip (\<lambda>i. i\<lparr>i_valid := True\<rparr>)) (
       kbind (get_inode ip) (\<lambda>i.
       if i_type i = 0 then kpanic ''ilock: no type'' else kret ()))))))))) "

definition ilock :: "nat \<Rightarrow> ('z fs_machine_scheme, unit) kern" where
  "ilock ip =
     kbind (get_inode ip) (\<lambda>i.
     if i_ref i < 1 then kpanic ''ilock'' else
     kthen (acquiresleep (SLinode ip))
           (ilock_fill ip))"

definition ilock_resume :: "nat \<Rightarrow> bool \<Rightarrow> nat \<Rightarrow> ('z fs_machine_scheme, unit) kern" where
  "ilock_resume p saved ip = kthen (acquiresleep_resume p saved (SLinode ip)) (ilock_fill ip)"

definition iunlock :: "nat \<Rightarrow> ('z fs_machine_scheme, unit) kern" where
  "iunlock ip =
     kbind (holdingsleep (SLinode ip)) (\<lambda>h.
     kbind (get_inode ip) (\<lambda>i.
     if \<not> h \<or> i_ref i < 1 then kpanic ''iunlock'' else
     releasesleep (SLinode ip)))"

section \<open>Inode contents\<close>

definition set_addr :: "nat \<Rightarrow> nat \<Rightarrow> u32 \<Rightarrow> ('z fs_machine_scheme, unit) kern" where
  "set_addr ip k a = set_inode ip (\<lambda>i. i\<lparr>i_addrs := (i_addrs i)[k := a]\<rparr>)"

definition bmap_indirect :: "nat \<Rightarrow> u32 \<Rightarrow> nat \<Rightarrow> ('z fs_machine_scheme, u32) kern" where
  "bmap_indirect ip iaddr k =
     kbind (get_inode ip) (\<lambda>i.
     kbind (bread (i_dev i) iaddr) (\<lambda>bp.
     kbind (get_buf bp) (\<lambda>x.
     let addr = get32 (4 * k) (b_data x) in
     if addr = 0 then
       kbind (balloc (i_dev i)) (\<lambda>addr.
       kthen (kwhen (addr \<noteq> 0) (
                kthen (set_buf bp (\<lambda>x. x\<lparr>b_data := put32 (4 * k) addr (b_data x)\<rparr>))
                      (log_write bp))) (
       kthen (brelse bp)
             (kret addr)))
     else kthen (brelse bp) (kret addr))))"

definition bmap :: "nat \<Rightarrow> u32 \<Rightarrow> ('z fs_machine_scheme, u32) kern" where
  "bmap ip bn =
     kbind (get_inode ip) (\<lambda>i.
     if unat bn < NDIRECT then
       (let addr = i_addrs i ! unat bn in
        if addr \<noteq> 0 then kret addr else
        kbind (balloc (i_dev i)) (\<lambda>addr.
        if addr = 0 then kret 0 else
        kthen (set_addr ip (unat bn) addr) (kret addr)))
     else if unat bn - NDIRECT < NINDIRECT then
       (let addr = i_addrs i ! NDIRECT in
        if addr \<noteq> 0 then bmap_indirect ip addr (unat bn - NDIRECT) else
        kbind (balloc (i_dev i)) (\<lambda>addr.
        if addr = 0 then kret 0 else
        kthen (set_addr ip NDIRECT addr) (bmap_indirect ip addr (unat bn - NDIRECT))))
     else kpanic ''bmap: out of range'')"

definition itrunc_direct :: "nat \<Rightarrow> nat \<Rightarrow> ('z fs_machine_scheme, unit) kern" where
  "itrunc_direct ip k =
     kbind (get_inode ip) (\<lambda>i.
     kwhen (i_addrs i ! k \<noteq> 0) (
       kthen (bfree (i_dev i) (i_addrs i ! k))
             (set_addr ip k 0)))"

definition itrunc_indirect :: "nat \<Rightarrow> nat \<Rightarrow> nat \<Rightarrow> ('z fs_machine_scheme, unit) kern" where
  "itrunc_indirect ip bp j =
     kbind (get_inode ip) (\<lambda>i.
     kbind (get_buf bp) (\<lambda>x.
     kwhen (get32 (4 * j) (b_data x) \<noteq> 0) (bfree (i_dev i) (get32 (4 * j) (b_data x)))))"

definition itrunc :: "nat \<Rightarrow> ('z fs_machine_scheme, unit) kern" where
  "itrunc ip =
     kthen (kfor [0..<NDIRECT] (itrunc_direct ip)) (
     kbind (get_inode ip) (\<lambda>i.
     kthen (kwhen (i_addrs i ! NDIRECT \<noteq> 0) (
              kbind (bread (i_dev i) (i_addrs i ! NDIRECT)) (\<lambda>bp.
              kthen (kfor [0..<NINDIRECT] (itrunc_indirect ip bp)) (
              kthen (brelse bp) (
              kthen (bfree (i_dev i) (i_addrs i ! NDIRECT))
                    (set_addr ip NDIRECT 0)))))) (
     kthen (set_inode ip (\<lambda>i. i\<lparr>i_size := 0\<rparr>))
           (iupdate ip))))"

definition iput :: "nat \<Rightarrow> ('z fs_machine_scheme, unit) kern" where
  "iput ip =
     kthen (acquire Litable) (
     kbind (get_inode ip) (\<lambda>i.
     kthen (kwhen (i_ref i = 1 \<and> i_valid i \<and> i_nlink i = 0) (
              kthen (acquiresleep (SLinode ip)) (
              kthen (release Litable) (
              kthen (itrunc ip) (
              kthen (set_inode ip (\<lambda>i. i\<lparr>i_type := 0\<rparr>)) (
              kthen (iupdate ip) (
              kthen (set_inode ip (\<lambda>i. i\<lparr>i_valid := False\<rparr>)) (
              kthen (releasesleep (SLinode ip))
                    (acquire Litable))))))))) (
     kthen (set_inode ip (\<lambda>i. i\<lparr>i_ref := i_ref i - 1\<rparr>))
           (release Litable))))"

definition iunlockput :: "nat \<Rightarrow> ('z fs_machine_scheme, unit) kern" where
  "iunlockput ip = kthen (iunlock ip) (iput ip)"

definition orphan_fmt :: string where
  "orphan_fmt = ''ireclaim: orphaned inode %d'' @ [CHR 0x0A]"

definition ireclaim_one :: "u32 \<Rightarrow> nat \<Rightarrow> ('z fs_machine_scheme, unit) kern" where
  "ireclaim_one dev n =
     kbind (kget sb) (\<lambda>sbk.
     kbind (bread dev (IBLOCK (of_nat n) sbk)) (\<lambda>bp.
     kbind (get_buf bp) (\<lambda>x.
     let off = dinode_off (of_nat n) in
     if get16 off (b_data x) \<noteq> 0 \<and> get16 (off + 6) (b_data x) = 0 then
       kthen (printf orphan_fmt [VaI (of_nat n)]) (
       kbind (iget dev (of_nat n)) (\<lambda>ip.
       kthen (brelse bp) (
       kthen begin_op (
       kthen (ilock ip) (
       kthen (iunlock ip) (
       kthen (iput ip)
             end_op))))))
     else brelse bp)))"

definition ireclaim :: "u32 \<Rightarrow> ('z fs_machine_scheme, unit) kern" where
  "ireclaim dev = kbind (kget sb) (\<lambda>sbk. kfor [1..<unat (sb_ninodes sbk)] (ireclaim_one dev))"

definition fsinit :: "int \<Rightarrow> ('z fs_machine_scheme, unit) kern" where
  "fsinit dev =
     kthen (readsb (word_of_int dev)) (
     kbind (kget sb) (\<lambda>sbk.
     if sb_magic sbk \<noteq> FSMAGIC then kpanic ''invalid file system'' else
     kthen (initlog dev (sb_logstart sbk))
           (ireclaim (word_of_int dev))))"

text \<open>\<^verbatim>\<open>struct stat\<close> as the bytes the system call copies out: 4 bytes of padding follow the two shorts.\<close>

definition stati :: "inode \<Rightarrow> u8 list" where
  "stati i = le_bytes 4 (i_dev i) @ le_bytes 4 (i_inum i) @ le_bytes 2 (i_type i) @ le_bytes 2 (i_nlink i)
     @ replicate 4 0 @ le_bytes 8 (ucast (i_size i) :: u64)"

text \<open>The 32-bit counts of \<^verbatim>\<open>readi\<close> and \<^verbatim>\<open>writei\<close> as the \<^verbatim>\<open>int\<close> they return.\<close>

definition as_int :: "nat \<Rightarrow> int" where
  "as_int n = sint (of_nat n :: u32)"

definition chunk :: "u32 \<Rightarrow> nat \<Rightarrow> nat" where
  "chunk off left = min left (BSIZE - unat off mod BSIZE)"

lemma chunk_pos: "0 < left \<Longrightarrow> 0 < chunk off left"
  by (simp add: chunk_def BSIZE_def)

function readi_loop :: "nat \<Rightarrow> dst \<Rightarrow> u32 \<Rightarrow> nat \<Rightarrow> nat \<Rightarrow> ('z fs_machine_scheme, int \<times> u8 list) kern" where
  "readi_loop ip d off left tot =
     (if left = 0 then kret (as_int tot, []) else
      kbind (bmap ip (off div of_nat BSIZE)) (\<lambda>addr.
      if addr = 0 then kret (as_int tot, []) else
      kbind (get_inode ip) (\<lambda>i.
      kbind (bread (i_dev i) addr) (\<lambda>bp.
      kbind (get_buf bp) (\<lambda>x.
      let m = chunk off left; bs = take m (drop (unat off mod BSIZE) (b_data x)) in
      kbind (either_copyout d bs) (\<lambda>r.
      kthen (brelse bp) (
      if r = - 1 then kret (- 1, []) else
      kbind (readi_loop ip (dst_add d m) (off + of_nat m) (left - m) (tot + m)) (\<lambda>(r, rest).
      kret (r, bs @ rest)))))))))"
  by pat_completeness auto
termination
  by (relation "measure (\<lambda>(ip, d, off, left, tot). left)") (auto simp: chunk_pos)

declare readi_loop.simps [simp del]

definition readi :: "nat \<Rightarrow> dst \<Rightarrow> u32 \<Rightarrow> u32 \<Rightarrow> ('z fs_machine_scheme, int \<times> u8 list) kern" where
  "readi ip d off n =
     kbind (get_inode ip) (\<lambda>i.
     if i_size i < off \<or> off + n < off then kret (0, []) else
     readi_loop ip d off (unat (if i_size i < off + n then i_size i - off else n)) 0)"

text \<open>The loop of \<^verbatim>\<open>writei\<close> returns the count and the offset it has reached.\<close>

function writei_loop :: "nat \<Rightarrow> src \<Rightarrow> u32 \<Rightarrow> nat \<Rightarrow> nat \<Rightarrow> ('z fs_machine_scheme, nat \<times> u32) kern" where
  "writei_loop ip sr off left tot =
     (if left = 0 then kret (tot, off) else
      kbind (bmap ip (off div of_nat BSIZE)) (\<lambda>addr.
      if addr = 0 then kret (tot, off) else
      kbind (get_inode ip) (\<lambda>i.
      kbind (bread (i_dev i) addr) (\<lambda>bp.
      let m = chunk off left in
      kbind (either_copyin sr m) (\<lambda>(r, bs).
      kthen (set_buf bp (\<lambda>x. x\<lparr>b_data := patch (unat off mod BSIZE) bs (b_data x)\<rparr>)) (
      if r = - 1 then kthen (brelse bp) (kret (tot, off)) else
      kthen (log_write bp) (
      kthen (brelse bp)
            (writei_loop ip (src_add sr m) (off + of_nat m) (left - m) (tot + m)))))))))"
  by pat_completeness auto
termination
  by (relation "measure (\<lambda>(ip, sr, off, left, tot). left)") (auto simp: chunk_pos)

declare writei_loop.simps [simp del]

definition writei :: "nat \<Rightarrow> src \<Rightarrow> u32 \<Rightarrow> u32 \<Rightarrow> ('z fs_machine_scheme, int) kern" where
  "writei ip sr off n =
     kbind (get_inode ip) (\<lambda>i.
     if i_size i < off \<or> off + n < off then kret (- 1)
     else if MAXFILE * BSIZE < unat (off + n) then kret (- 1) else
     kbind (writei_loop ip sr off (unat n) 0) (\<lambda>(tot, off).
     kthen (set_inode ip (\<lambda>i. i\<lparr>i_size := (if i_size i < off then off else i_size i)\<rparr>)) (
     kthen (iupdate ip)
           (kret (as_int tot)))))"

section \<open>Directories\<close>

definition namecmp :: "u8 list \<Rightarrow> u8 list \<Rightarrow> int" where
  "namecmp s t = strncmp (lptr s) (lptr t) DIRSIZ"

definition de_inum :: "u8 list \<Rightarrow> u16" where
  "de_inum de = le_word (take 2 de)"

definition de_name :: "u8 list \<Rightarrow> u8 list" where
  "de_name de = take DIRSIZ (drop 2 de)"

primrec dirlookup_loop ::
  "nat \<Rightarrow> u8 list \<Rightarrow> nat list \<Rightarrow> ('z fs_machine_scheme, (nat \<times> u32) option) kern" where
  "dirlookup_loop dp name [] = kret None"
| "dirlookup_loop dp name (off # offs) =
     kbind (readi dp LocalDst (of_nat off) (of_nat DIRENT)) (\<lambda>(r, de).
     if r \<noteq> int DIRENT then kpanic ''dirlookup read''
     else if de_inum de = 0 then dirlookup_loop dp name offs
     else if namecmp name (de_name de) = 0 then
       kbind (get_inode dp) (\<lambda>d.
       kbind (iget (i_dev d) (ucast (de_inum de))) (\<lambda>ip.
       kret (Some (ip, of_nat off))))
     else dirlookup_loop dp name offs)"

definition dir_offs :: "u32 \<Rightarrow> nat list" where
  "dir_offs sz = map (\<lambda>k. k * DIRENT) [0..<(unat sz + DIRENT - 1) div DIRENT]"

definition dirlookup :: "nat \<Rightarrow> u8 list \<Rightarrow> ('z fs_machine_scheme, (nat \<times> u32) option) kern" where
  "dirlookup dp name =
     kbind (get_inode dp) (\<lambda>d.
     if i_type d \<noteq> T_DIR then kpanic ''dirlookup not DIR'' else
     dirlookup_loop dp name (dir_offs (i_size d)))"

text \<open>The search of \<^verbatim>\<open>dirlink\<close> for an empty entry: its offset, or the offset at which the loop ends.\<close>

primrec dirlink_slot :: "nat \<Rightarrow> nat list \<Rightarrow> nat \<Rightarrow> ('z fs_machine_scheme, nat) kern" where
  "dirlink_slot dp [] reached = kret reached"
| "dirlink_slot dp (off # offs) reached =
     kbind (readi dp LocalDst (of_nat off) (of_nat DIRENT)) (\<lambda>(r, de).
     if r \<noteq> int DIRENT then kpanic ''dirlink read''
     else if de_inum de = 0 then kret off
     else dirlink_slot dp offs (off + DIRENT))"

definition dirlink :: "nat \<Rightarrow> u8 list \<Rightarrow> u32 \<Rightarrow> ('z fs_machine_scheme, int) kern" where
  "dirlink dp name inum =
     kbind (dirlookup dp name) (\<lambda>r.
     case r of
       Some (ip, _) \<Rightarrow> kthen (iput ip) (kret (- 1))
     | None \<Rightarrow>
         kbind (get_inode dp) (\<lambda>d.
         kbind (dirlink_slot dp (dir_offs (i_size d)) 0) (\<lambda>off.
         let de = le_bytes 2 (ucast inum :: u16) @ strncpy (lptr name) (int DIRSIZ) in
         kbind (writei dp (LocalSrc de) (of_nat off) (of_nat DIRENT)) (\<lambda>r.
         kret (if r \<noteq> int DIRENT then - 1 else 0)))))"

section \<open>Paths\<close>

definition slash :: u8 where "slash = 0x2F"

text \<open>The rest of the path and the bytes stored in \<^verbatim>\<open>name\<close>; \<open>None\<close> if there is no name to remove.\<close>

definition skipelem :: "u8 list \<Rightarrow> (u8 list \<times> u8 list) option" where
  "skipelem path =
     (let p1 = dropWhile (\<lambda>c. c = slash) path in
      if p1 = [] then None else
      let s = takeWhile (\<lambda>c. c \<noteq> slash) p1; p2 = dropWhile (\<lambda>c. c \<noteq> slash) p1 in
      Some (dropWhile (\<lambda>c. c = slash) p2, if DIRSIZ \<le> length s then take DIRSIZ s else s @ [0]))"

lemma skipelem_shorter: "skipelem path = Some (rest, name) \<Longrightarrow> length rest < length path"
proof -
  assume a: "skipelem path = Some (rest, name)"
  define p1 where "p1 = dropWhile (\<lambda>c. c = slash) path"
  have ne: "p1 \<noteq> []" using a by (auto simp: skipelem_def p1_def Let_def split: if_splits)
  then have "hd p1 \<noteq> slash" unfolding p1_def by (rule hd_dropWhile)
  then have "length (dropWhile (\<lambda>c. c \<noteq> slash) p1) < length p1"
    using ne by (cases p1) (auto simp: less_Suc_eq_le length_dropWhile_le)
  moreover have "rest = dropWhile (\<lambda>c. c = slash) (dropWhile (\<lambda>c. c \<noteq> slash) p1)"
    using a by (auto simp: skipelem_def p1_def Let_def split: if_splits)
  ultimately have "length rest < length p1"
    by (metis length_dropWhile_le le_less_trans)
  then show ?thesis unfolding p1_def by (metis length_dropWhile_le less_le_trans)
qed

function namex_loop ::
  "u8 list \<Rightarrow> bool \<Rightarrow> nat \<Rightarrow> u8 list \<Rightarrow> ('z fs_machine_scheme, (nat \<times> u8 list) option) kern" where
  "namex_loop path parent ip name =
     (case skipelem path of
        None \<Rightarrow> (if parent then kthen (iput ip) (kret None) else kret (Some (ip, name)))
      | Some (path', name') \<Rightarrow>
          kthen (ilock ip) (
          kbind (get_inode ip) (\<lambda>i.
          if i_type i \<noteq> T_DIR then kthen (iunlockput ip) (kret None)
          else if parent \<and> path' = [] then kthen (iunlock ip) (kret (Some (ip, name')))
          else kbind (dirlookup ip name') (\<lambda>r.
            case r of
              None \<Rightarrow> kthen (iunlockput ip) (kret None)
            | Some (nxt, _) \<Rightarrow>
                kthen (iunlockput ip)
                      (namex_loop path' parent nxt name')))))"
  by pat_completeness auto
termination
  by (relation "measure (\<lambda>(path, parent, ip, name). length path)") (auto simp: skipelem_shorter)

declare namex_loop.simps [simp del]

definition namex :: "u8 list \<Rightarrow> bool \<Rightarrow> ('z fs_machine_scheme, (nat \<times> u8 list) option) kern" where
  "namex path parent =
     kbind (if path \<noteq> [] \<and> hd path = slash then iget ROOTDEV ROOTINO
            else kbind this_proc (\<lambda>p. kbind (get_proc p) (\<lambda>pr.
                 case p_cwd pr of None \<Rightarrow> kpanic ''kerneltrap'' | Some ip \<Rightarrow> idup ip)))
       (\<lambda>ip. namex_loop path parent ip [])"

definition namei :: "u8 list \<Rightarrow> ('z fs_machine_scheme, nat option) kern" where
  "namei path = kbind (namex path False) (\<lambda>r. kret (map_option fst r))"

definition nameiparent :: "u8 list \<Rightarrow> ('z fs_machine_scheme, (nat \<times> u8 list) option) kern" where
  "nameiparent path = namex path True"

end
