(* ===== verification/Console.thy ===== *)
theory Console
  imports Fs
begin

text \<open>
  Console input and output, \<^verbatim>\<open>kernel/console.c\<close>, and the interrupt side of the driver of the serial port,
  \<^verbatim>\<open>kernel/uart.c\<close>. The input buffer of the console is a ring of 128 bytes with three 32-bit counters.
  The characters that wait in the receiver of the UART and its transmitter-idle bit are hardware state;
  what is written to the transmitter is appended to the output of the machine.
\<close>

section \<open>State\<close>

definition INPUT_BUF_SIZE :: nat where "INPUT_BUF_SIZE = 128"
definition CONSOLE :: int where "CONSOLE = 1"

record cons =
  c_buf :: "nat \<Rightarrow> u8"
  c_r :: u32
  c_w :: u32
  c_e :: u32

text \<open>The device switch maps a major number to the functions of the device; only the console has any.\<close>

datatype devfn = Consoleread | Consolewrite

record cons_machine = fs_machine +
  cons :: cons
  tx_busy :: bool
  uart_regs :: "(nat \<times> u8) list"
  uart_in :: "u8 list"
  uart_tx_idle :: bool
  devsw_read :: "int \<Rightarrow> devfn option"
  devsw_write :: "int \<Rightarrow> devfn option"

definition set_cons :: "(cons \<Rightarrow> cons) \<Rightarrow> ('z cons_machine_scheme, unit) kern" where
  "set_cons f = kmod (\<lambda>s. s\<lparr>cons := f (cons s)\<rparr>)"

section \<open>Input\<close>

definition ctrl :: "char \<Rightarrow> int" where
  "ctrl x = of_char x - of_char (CHR ''@'')"

text \<open>
  The loop of control-U. Each round moves the edit index towards the write index, so that their
  distance bounds the number of rounds.
\<close>

primrec kill_line :: "nat \<Rightarrow> ('z cons_machine_scheme, unit) kern" where
  "kill_line 0 = kret ()"
| "kill_line (Suc n) =
     kbind (kget cons) (\<lambda>c.
     kwhen (c_e c \<noteq> c_w c \<and> c_buf c (unat (c_e c - 1) mod INPUT_BUF_SIZE) \<noteq> 10) (
       kthen (set_cons (\<lambda>c. c\<lparr>c_e := c_e c - 1\<rparr>)) (
       kthen (consputc BACKSPACE)
             (kill_line n))))"

definition console_store :: "int \<Rightarrow> ('z cons_machine_scheme, unit) kern" where
  "console_store ch =
     kbind (kget cons) (\<lambda>c.
     kwhen (ch \<noteq> 0 \<and> unat (c_e c - c_r c) < INPUT_BUF_SIZE) (
       let ch = (if ch = 13 then 10 else ch) in
       kthen (consputc ch) (
       kthen (set_cons (\<lambda>c. c\<lparr>c_buf := (c_buf c)(unat (c_e c) mod INPUT_BUF_SIZE := word_of_int ch),
                              c_e := c_e c + 1\<rparr>)) (
       kbind (kget cons) (\<lambda>c.
       kwhen (ch = 10 \<or> ch = ctrl CHR ''D'' \<or> unat (c_e c - c_r c) = INPUT_BUF_SIZE) (
         kthen (set_cons (\<lambda>c. c\<lparr>c_w := c_e c\<rparr>))
               (wakeup ChConsR)))))))"

definition consoleintr :: "int \<Rightarrow> ('z cons_machine_scheme, unit) kern" where
  "consoleintr ch =
     kthen (acquire Lcons) (
     kthen (if ch = ctrl CHR ''P'' then procdump
            else if ch = ctrl CHR ''U'' then kbind (kget cons) (\<lambda>c. kill_line (unat (c_e c - c_w c)))
            else if ch = ctrl CHR ''H'' \<or> ch = 0x7F then
              kbind (kget cons) (\<lambda>c.
              kwhen (c_e c \<noteq> c_w c) (
                kthen (set_cons (\<lambda>c. c\<lparr>c_e := c_e c - 1\<rparr>))
                      (consputc BACKSPACE)))
            else console_store ch)
           (release Lcons))"

section \<open>The serial port\<close>

definition uart_write_reg :: "nat \<Rightarrow> u8 \<Rightarrow> ('z cons_machine_scheme, unit) kern" where
  "uart_write_reg r v = kmod (\<lambda>s. s\<lparr>uart_regs := uart_regs s @ [(r, v)]\<rparr>)"

definition uartinit :: "('z cons_machine_scheme, unit) kern" where
  "uartinit =
     kseq [uart_write_reg 1 0x00, uart_write_reg 3 0x80, uart_write_reg 0 0x03, uart_write_reg 1 0x00,
           uart_write_reg 3 0x03, uart_write_reg 2 0x07, uart_write_reg 1 0x03, initlock Ltx ''uart'']"

definition uartgetc :: "('z cons_machine_scheme, int) kern" where
  "uartgetc =
     kbind (kget uart_in) (\<lambda>q. case q of
       [] \<Rightarrow> kret (- 1)
     | c # cs \<Rightarrow> kthen (kmod (\<lambda>s. s\<lparr>uart_in := cs\<rparr>)) (kret (uint c)))"

text \<open>No character arrives while the handler runs: it takes the characters that wait when it starts.\<close>

primrec uart_drain :: "nat \<Rightarrow> ('z cons_machine_scheme, unit) kern" where
  "uart_drain 0 = kret ()"
| "uart_drain (Suc n) =
     kbind uartgetc (\<lambda>c. if c = - 1 then kret () else kthen (consoleintr c) (uart_drain n))"

definition uartintr :: "('z cons_machine_scheme, unit) kern" where
  "uartintr =
     kthen (acquire Ltx) (
     kbind (kget uart_tx_idle) (\<lambda>idl.
     kthen (kwhen idl (
              kthen (kmod (\<lambda>s. s\<lparr>tx_busy := False\<rparr>))
                    (wakeup ChTx))) (
     kthen (release Ltx) (
     kbind (kget uart_in) (\<lambda>q. uart_drain (length q + 1))))))"

text \<open>
  The wait for the transmitter. A sleep that the transmit interrupt ends is the release of the lock,
  the handler, and the lock taken again; if the transmitter is then still busy the thread is asleep.
\<close>

definition tx_wait :: "('z cons_machine_scheme, unit) kern" where
  "tx_wait =
     kbind (kget tx_busy) (\<lambda>busy.
     kwhen busy (
       kthen (release Ltx) (
       kthen uartintr (
       kthen (acquire Ltx) (
       kbind (kget tx_busy) (\<lambda>busy. kwhen busy (sleep ChTx Ltx)))))))"

definition thr_write :: "u8 \<Rightarrow> ('z cons_machine_scheme, unit) kern" where
  "thr_write c = kmod (\<lambda>s. s\<lparr>con := (con s)\<lparr>uart_out := uart_out (con s) @ [char_of (unat c)]\<rparr>, tx_busy := True\<rparr>)"

definition uartwrite :: "u8 list \<Rightarrow> ('z cons_machine_scheme, unit) kern" where
  "uartwrite buf =
     kthen (acquire Ltx) (
     kthen (kfor buf (\<lambda>c. kthen tx_wait (thr_write c)))
           (release Ltx))"

section \<open>Reads and writes\<close>

function consolewrite_loop :: "src \<Rightarrow> nat \<Rightarrow> nat \<Rightarrow> ('z cons_machine_scheme, int) kern" where
  "consolewrite_loop sr left i =
     (if left = 0 then kret (int i) else
      let nn = min 32 left in
      kbind (either_copyin sr nn) (\<lambda>(r, buf).
      if r = - 1 then kret (int i) else
      kthen (uartwrite buf)
            (consolewrite_loop (src_add sr nn) (left - nn) (i + nn))))"
  by pat_completeness auto
termination
  by (relation "measure (\<lambda>(sr, left, i). left)") auto

declare consolewrite_loop.simps [simp del]

definition consolewrite :: "src \<Rightarrow> int \<Rightarrow> ('z cons_machine_scheme, int) kern" where
  "consolewrite sr n = consolewrite_loop sr (nat n) 0"

text \<open>
  The loop of \<^verbatim>\<open>consoleread\<close> with \<open>n\<close> bytes still wanted. With an empty buffer the thread sleeps, and
  enters the loop again when it resumes.
\<close>

primrec consoleread_loop :: "nat \<Rightarrow> dst \<Rightarrow> nat \<Rightarrow> ('z cons_machine_scheme, int) kern" where
  "consoleread_loop target d 0 = kthen (release Lcons) (kret (int target))"
| "consoleread_loop target d (Suc n) =
     kbind (kget cons) (\<lambda>c.
     if c_r c = c_w c then
       kbind this_proc (\<lambda>p.
       kbind (killed p) (\<lambda>k.
       if k \<noteq> 0 then kthen (release Lcons) (kret (- 1))
       else kbind (sleep ChConsR Lcons) (\<lambda>_. kstop Switched)))
     else
       let ch = c_buf c (unat (c_r c) mod INPUT_BUF_SIZE) in
       kthen (set_cons (\<lambda>c. c\<lparr>c_r := c_r c + 1\<rparr>)) (
       if uint ch = ctrl CHR ''D'' then
         kthen (kwhen (Suc n < target) (set_cons (\<lambda>c. c\<lparr>c_r := c_r c - 1\<rparr>))) (
         kthen (release Lcons)
               (kret (int target - int (Suc n))))
       else
         kbind (either_copyout d [ch]) (\<lambda>r.
         if r = - 1 then kthen (release Lcons) (kret (int target - int (Suc n)))
         else if ch = 10 then kthen (release Lcons) (kret (int target - int n))
         else consoleread_loop target (dst_add d 1) n)))"

definition consoleread :: "dst \<Rightarrow> int \<Rightarrow> ('z cons_machine_scheme, int) kern" where
  "consoleread d n = kthen (acquire Lcons) (consoleread_loop (nat n) d (nat n))"

definition consoleread_resume ::
  "nat \<Rightarrow> bool \<Rightarrow> nat \<Rightarrow> dst \<Rightarrow> nat \<Rightarrow> ('z cons_machine_scheme, int) kern" where
  "consoleread_resume p saved target d n = kthen (sleep_resume p Lcons saved) (consoleread_loop target d n)"

definition consoleinit :: "('z cons_machine_scheme, unit) kern" where
  "consoleinit =
     kthen (initlock Lcons ''cons'') (
     kthen uartinit
           (kmod (\<lambda>s. s\<lparr>devsw_read := (devsw_read s)(CONSOLE := Some Consoleread),
                        devsw_write := (devsw_write s)(CONSOLE := Some Consolewrite)\<rparr>)))"

end
