(* ===== verification/Pipe.thy ===== *)
theory Pipe
  imports Console
begin

text \<open>
  Pipes, \<^verbatim>\<open>kernel/pipe.c\<close>: a ring of 512 bytes with two 32-bit counters that are never reduced. A pipe is
  named by the address of the page it lives in; the page is an object of type \<^verbatim>\<open>struct pipe\<close>, not bytes.
\<close>

definition PIPESIZE :: nat where "PIPESIZE = 512"

record pipe =
  pi_data :: "nat \<Rightarrow> u8"
  pi_nread :: u32
  pi_nwrite :: u32
  pi_readopen :: bool
  pi_writeopen :: bool

record pipe_machine = cons_machine +
  pipes :: "u64 \<Rightarrow> pipe"

definition get_pipe :: "u64 \<Rightarrow> ('z pipe_machine_scheme, pipe) kern" where
  "get_pipe pi = kget (\<lambda>s. pipes s pi)"

definition set_pipe :: "u64 \<Rightarrow> (pipe \<Rightarrow> pipe) \<Rightarrow> ('z pipe_machine_scheme, unit) kern" where
  "set_pipe pi f = kmod (\<lambda>s. s\<lparr>pipes := (pipes s)(pi := f (pipes s pi))\<rparr>)"

definition pipeclose :: "u64 \<Rightarrow> bool \<Rightarrow> ('z pipe_machine_scheme, unit) kern" where
  "pipeclose pi writable =
     kthen (acquire (Lpipe pi)) (
     kthen (if writable
            then kthen (set_pipe pi (\<lambda>x. x\<lparr>pi_writeopen := False\<rparr>)) (wakeup (ChNread pi))
            else kthen (set_pipe pi (\<lambda>x. x\<lparr>pi_readopen := False\<rparr>)) (wakeup (ChNwrite pi))) (
     kbind (get_pipe pi) (\<lambda>x.
     if \<not> pi_readopen x \<and> \<not> pi_writeopen x
     then kthen (release (Lpipe pi)) (kfree pi)
     else release (Lpipe pi))))"

text \<open>The loop of \<^verbatim>\<open>pipewrite\<close> with \<open>i\<close> bytes written and \<open>left\<close> still to write.\<close>

primrec pipewrite_loop :: "u64 \<Rightarrow> nat \<Rightarrow> u64 \<Rightarrow> nat \<Rightarrow> nat \<Rightarrow> ('z pipe_machine_scheme, int) kern" where
  "pipewrite_loop pi p addr i 0 =
     kthen (wakeup (ChNread pi)) (
     kthen (release (Lpipe pi))
           (kret (int i)))"
| "pipewrite_loop pi p addr i (Suc left) =
     kbind (get_pipe pi) (\<lambda>x.
     kbind (if pi_readopen x then killed p else kret 1) (\<lambda>k.
     if k \<noteq> 0 then kthen (release (Lpipe pi)) (kret (- 1))
     else if pi_nwrite x = pi_nread x + of_nat PIPESIZE then
       kthen (wakeup (ChNread pi)) (
       kbind (sleep (ChNwrite pi) (Lpipe pi)) (\<lambda>_. kstop Switched))
     else
       kbind (get_proc p) (\<lambda>pr.
       kbind (copyin (p_pagetable pr) (addr + of_nat i) 1) (\<lambda>(r, ch).
       if r = - 1 then
         kthen (wakeup (ChNread pi)) (
         kthen (release (Lpipe pi))
               (kret (int i)))
       else
         kthen (set_pipe pi (\<lambda>x. x\<lparr>pi_data := (pi_data x)(unat (pi_nwrite x) mod PIPESIZE := hd ch),
                                   pi_nwrite := pi_nwrite x + 1\<rparr>))
               (pipewrite_loop pi p addr (Suc i) left)))))"

definition pipewrite :: "u64 \<Rightarrow> u64 \<Rightarrow> int \<Rightarrow> ('z pipe_machine_scheme, int) kern" where
  "pipewrite pi addr n =
     kbind this_proc (\<lambda>p.
     kthen (acquire (Lpipe pi))
           (pipewrite_loop pi p addr 0 (nat n)))"

definition pipewrite_resume ::
  "nat \<Rightarrow> bool \<Rightarrow> u64 \<Rightarrow> u64 \<Rightarrow> nat \<Rightarrow> nat \<Rightarrow> ('z pipe_machine_scheme, int) kern" where
  "pipewrite_resume p saved pi addr i left =
     kthen (sleep_resume p (Lpipe pi) saved) (pipewrite_loop pi p addr i left)"

definition piperead_done :: "u64 \<Rightarrow> int \<Rightarrow> ('z pipe_machine_scheme, int) kern" where
  "piperead_done pi i =
     kthen (wakeup (ChNwrite pi)) (
     kthen (release (Lpipe pi))
           (kret i))"

primrec piperead_copy :: "u64 \<Rightarrow> nat \<Rightarrow> u64 \<Rightarrow> nat \<Rightarrow> nat \<Rightarrow> ('z pipe_machine_scheme, int) kern" where
  "piperead_copy pi p addr i 0 = piperead_done pi (int i)"
| "piperead_copy pi p addr i (Suc left) =
     kbind (get_pipe pi) (\<lambda>x.
     if pi_nread x = pi_nwrite x then piperead_done pi (int i) else
     kbind (get_proc p) (\<lambda>pr.
     kbind (copyout (p_pagetable pr) (addr + of_nat i) [pi_data x (unat (pi_nread x) mod PIPESIZE)]) (\<lambda>r.
     if r = - 1 then piperead_done pi (if i = 0 then - 1 else int i)
     else
       kthen (set_pipe pi (\<lambda>x. x\<lparr>pi_nread := pi_nread x + 1\<rparr>))
             (piperead_copy pi p addr (Suc i) left))))"

text \<open>The wait for data, entered again by a thread that slept in it.\<close>

definition piperead_wait :: "u64 \<Rightarrow> nat \<Rightarrow> u64 \<Rightarrow> int \<Rightarrow> ('z pipe_machine_scheme, int) kern" where
  "piperead_wait pi p addr n =
     kbind (get_pipe pi) (\<lambda>x.
     if pi_nread x = pi_nwrite x \<and> pi_writeopen x then
       kbind (killed p) (\<lambda>k.
       if k \<noteq> 0 then kthen (release (Lpipe pi)) (kret (- 1))
       else kbind (sleep (ChNread pi) (Lpipe pi)) (\<lambda>_. kstop Switched))
     else piperead_copy pi p addr 0 (nat n))"

definition piperead :: "u64 \<Rightarrow> u64 \<Rightarrow> int \<Rightarrow> ('z pipe_machine_scheme, int) kern" where
  "piperead pi addr n =
     kbind this_proc (\<lambda>p.
     kthen (acquire (Lpipe pi))
           (piperead_wait pi p addr n))"

definition piperead_resume ::
  "nat \<Rightarrow> bool \<Rightarrow> u64 \<Rightarrow> u64 \<Rightarrow> int \<Rightarrow> ('z pipe_machine_scheme, int) kern" where
  "piperead_resume p saved pi addr n =
     kthen (sleep_resume p (Lpipe pi) saved) (piperead_wait pi p addr n)"

end
