(* ===== verification/File.thy ===== *)
theory File
  imports Pipe
begin

text \<open>
  The file table, \<^verbatim>\<open>kernel/file.c\<close>, and the allocation of pipes. A file is named by its index in the table,
  a null file pointer is \<open>None\<close>. Writes to a file go through the log in transactions of at most three
  blocks.
\<close>

section \<open>State\<close>

datatype ftype = FD_NONE | FD_PIPE | FD_INODE | FD_DEVICE

record file_t =
  f_type :: ftype
  f_ref :: int
  f_readable :: bool
  f_writable :: bool
  f_pipe :: u64
  f_ip :: nat
  f_off :: u32
  f_major :: u16

record file_machine = pipe_machine +
  files :: "nat \<Rightarrow> file_t"

definition get_file :: "nat \<Rightarrow> ('z file_machine_scheme, file_t) kern" where
  "get_file f = kget (\<lambda>s. files s f)"

definition set_file :: "nat \<Rightarrow> (file_t \<Rightarrow> file_t) \<Rightarrow> ('z file_machine_scheme, unit) kern" where
  "set_file f g = kmod (\<lambda>s. s\<lparr>files := (files s)(f := g (files s f))\<rparr>)"

section \<open>Operations\<close>

definition fileinit :: "('z file_machine_scheme, unit) kern" where
  "fileinit = initlock Lftable ''ftable''"

definition filealloc :: "('z file_machine_scheme, nat option) kern" where
  "filealloc =
     kthen (acquire Lftable) (
     kbind (kget (\<lambda>s. List.find (\<lambda>f. f_ref (files s f) = 0) [0..<NFILE])) (\<lambda>r.
     case r of
       Some f \<Rightarrow>
         kthen (set_file f (\<lambda>x. x\<lparr>f_ref := 1\<rparr>)) (
         kthen (release Lftable)
               (kret (Some f)))
     | None \<Rightarrow> kthen (release Lftable) (kret None)))"

definition filedup :: "nat \<Rightarrow> ('z file_machine_scheme, nat) kern" where
  "filedup f =
     kthen (acquire Lftable) (
     kbind (get_file f) (\<lambda>x.
     if f_ref x < 1 then kpanic ''filedup'' else
     kthen (set_file f (\<lambda>x. x\<lparr>f_ref := f_ref x + 1\<rparr>)) (
     kthen (release Lftable)
           (kret f))))"

definition fileclose :: "nat \<Rightarrow> ('z file_machine_scheme, unit) kern" where
  "fileclose f =
     kthen (acquire Lftable) (
     kbind (get_file f) (\<lambda>x.
     if f_ref x < 1 then kpanic ''fileclose'' else
     kthen (set_file f (\<lambda>x. x\<lparr>f_ref := f_ref x - 1\<rparr>)) (
     if 0 < f_ref x - 1 then release Lftable else
     kbind (get_file f) (\<lambda>ff.
     kthen (set_file f (\<lambda>x. x\<lparr>f_ref := 0, f_type := FD_NONE\<rparr>)) (
     kthen (release Lftable) (
     if f_type ff = FD_PIPE then pipeclose (f_pipe ff) (f_writable ff)
     else if f_type ff = FD_INODE \<or> f_type ff = FD_DEVICE then
       kthen begin_op (
       kthen (iput (f_ip ff))
             end_op)
     else kret ()))))))"

definition filestat :: "nat \<Rightarrow> u64 \<Rightarrow> ('z file_machine_scheme, int) kern" where
  "filestat f addr =
     kbind this_proc (\<lambda>p.
     kbind (get_file f) (\<lambda>x.
     if f_type x = FD_INODE \<or> f_type x = FD_DEVICE then
       kthen (ilock (f_ip x)) (
       kbind (get_inode (f_ip x)) (\<lambda>i.
       kthen (iunlock (f_ip x)) (
       kbind (get_proc p) (\<lambda>pr.
       kbind (copyout (p_pagetable pr) addr (stati i)) (\<lambda>r.
       kret (if r < 0 then - 1 else 0))))))
     else kret (- 1)))"

definition fileread :: "nat \<Rightarrow> u64 \<Rightarrow> int \<Rightarrow> ('z file_machine_scheme, int) kern" where
  "fileread f addr n =
     kbind (get_file f) (\<lambda>x.
     if \<not> f_readable x then kret (- 1) else
     case f_type x of
       FD_PIPE \<Rightarrow> piperead (f_pipe x) addr n
     | FD_DEVICE \<Rightarrow>
         (if sint (f_major x) < 0 \<or> NDEV \<le> sint (f_major x) then kret (- 1) else
          kbind (kget (\<lambda>s. devsw_read s (sint (f_major x)))) (\<lambda>fn.
          case fn of
            Some Consoleread \<Rightarrow> consoleread (UserDst addr) n
          | _ \<Rightarrow> kret (- 1)))
     | FD_INODE \<Rightarrow>
         kthen (ilock (f_ip x)) (
         kbind (readi (f_ip x) (UserDst addr) (f_off x) (word_of_int n)) (\<lambda>(r, _).
         kthen (kwhen (0 < r) (set_file f (\<lambda>x. x\<lparr>f_off := f_off x + word_of_int r\<rparr>))) (
         kthen (iunlock (f_ip x))
               (kret r))))
     | FD_NONE \<Rightarrow> kpanic ''fileread'')"

definition max_write :: int where
  "max_write = ((int MAXOPBLOCKS - 1 - 1 - 2) div 2) * int BSIZE"

text \<open>The loop of \<^verbatim>\<open>filewrite\<close> with \<open>left\<close> bytes to write: the bytes that are still missing when it ends.\<close>

function filewrite_loop :: "nat \<Rightarrow> u64 \<Rightarrow> nat \<Rightarrow> ('z file_machine_scheme, nat) kern" where
  "filewrite_loop f addr left =
     (if left = 0 then kret 0 else
      let n1 = min left (nat max_write) in
      kbind (get_file f) (\<lambda>x.
      kthen begin_op (
      kthen (ilock (f_ip x)) (
      kbind (writei (f_ip x) (UserSrc addr) (f_off x) (of_nat n1)) (\<lambda>r.
      kthen (kwhen (0 < r) (set_file f (\<lambda>x. x\<lparr>f_off := f_off x + word_of_int r\<rparr>))) (
      kthen (iunlock (f_ip x)) (
      kthen end_op (
      if r \<noteq> int n1 then kret left
      else filewrite_loop f (addr + of_nat n1) (left - n1)))))))))"
  by pat_completeness auto
termination
  by (relation "measure (\<lambda>(f, addr, left). left)") (auto simp: max_write_def MAXOPBLOCKS_def BSIZE_def)

declare filewrite_loop.simps [simp del]

definition filewrite :: "nat \<Rightarrow> u64 \<Rightarrow> int \<Rightarrow> ('z file_machine_scheme, int) kern" where
  "filewrite f addr n =
     kbind (get_file f) (\<lambda>x.
     if \<not> f_writable x then kret (- 1) else
     case f_type x of
       FD_PIPE \<Rightarrow> pipewrite (f_pipe x) addr n
     | FD_DEVICE \<Rightarrow>
         (if sint (f_major x) < 0 \<or> NDEV \<le> sint (f_major x) then kret (- 1) else
          kbind (kget (\<lambda>s. devsw_write s (sint (f_major x)))) (\<lambda>fn.
          case fn of
            Some Consolewrite \<Rightarrow> consolewrite (UserSrc addr) n
          | _ \<Rightarrow> kret (- 1)))
     | FD_INODE \<Rightarrow>
         kbind (filewrite_loop f addr (nat n)) (\<lambda>missing.
         kret (if missing = 0 \<and> 0 \<le> n then n else - 1))
     | FD_NONE \<Rightarrow> kpanic ''filewrite'')"

definition pipe_bad :: "nat option \<Rightarrow> nat option \<Rightarrow> ('z file_machine_scheme, (nat \<times> nat) option) kern" where
  "pipe_bad f0 f1 =
     kthen (case f0 of Some f \<Rightarrow> fileclose f | None \<Rightarrow> kret ()) (
     kthen (case f1 of Some f \<Rightarrow> fileclose f | None \<Rightarrow> kret ())
           (kret None))"

definition pipealloc :: "('z file_machine_scheme, (nat \<times> nat) option) kern" where
  "pipealloc =
     kbind filealloc (\<lambda>f0. case f0 of None \<Rightarrow> pipe_bad None None | Some g0 \<Rightarrow>
     kbind filealloc (\<lambda>f1. case f1 of None \<Rightarrow> pipe_bad f0 None | Some g1 \<Rightarrow>
     kbind kalloc (\<lambda>pi.
     if pi = 0 then pipe_bad f0 f1 else
     kthen (set_pipe pi (\<lambda>x. x\<lparr>pi_readopen := True, pi_writeopen := True, pi_nwrite := 0, pi_nread := 0\<rparr>)) (
     kthen (initlock (Lpipe pi) ''pipe'') (
     kthen (set_file g0 (\<lambda>x. x\<lparr>f_type := FD_PIPE, f_readable := True, f_writable := False, f_pipe := pi\<rparr>)) (
     kthen (set_file g1 (\<lambda>x. x\<lparr>f_type := FD_PIPE, f_readable := False, f_writable := True, f_pipe := pi\<rparr>))
           (kret (Some (g0, g1)))))))))"

end
