(* ===== verification/Process.thy ===== *)
theory Process
  imports File
begin

text \<open>
  The life of a process, \<^verbatim>\<open>kernel/proc.c\<close>: allocation, its page table, growth, fork, exit and wait; and the
  kernel page table of \<^verbatim>\<open>kernel/vm.c\<close> with the kernel stacks.
\<close>

section \<open>The kernel page table\<close>

definition UART0 :: u64 where "UART0 = 0x10000000"
definition VIRTIO0 :: u64 where "VIRTIO0 = 0x10001000"
definition PLIC :: u64 where "PLIC = 0x0c000000"

definition proc_mapstacks :: "u64 \<Rightarrow> ('z proc_machine_scheme, unit) kern" where
  "proc_mapstacks kpgtbl =
     kfor [0..<NPROC] (\<lambda>p.
       kbind kalloc (\<lambda>pa.
       if pa = 0 then kpanic ''kalloc'' else
       kvmmap kpgtbl (KSTACK p) pa PGSIZE (PTE_R OR PTE_W)))"

text \<open>\<^verbatim>\<open>kvmmake\<close> does not test the page it gets from \<^verbatim>\<open>kalloc\<close>: clearing page 0 traps.\<close>

definition kvmmake :: "('z proc_machine_scheme, u64) kern" where
  "kvmmake =
     kbind kalloc (\<lambda>kpgtbl.
     if kpgtbl = 0 then kpanic ''kerneltrap'' else
     kbind (kget (\<lambda>s. (etext s, trampoline s))) (\<lambda>(etx, tramp).
     kthen (zero_page kpgtbl) (
     kthen (kvmmap kpgtbl UART0 UART0 PGSIZE (PTE_R OR PTE_W)) (
     kthen (kvmmap kpgtbl VIRTIO0 VIRTIO0 PGSIZE (PTE_R OR PTE_W)) (
     kthen (kvmmap kpgtbl PLIC PLIC 0x4000000 (PTE_R OR PTE_W)) (
     kthen (kvmmap kpgtbl KERNBASE KERNBASE (etx - KERNBASE) (PTE_R OR PTE_X)) (
     kthen (kvmmap kpgtbl etx etx (PHYSTOP - etx) (PTE_R OR PTE_W)) (
     kthen (kvmmap kpgtbl TRAMPOLINE tramp PGSIZE (PTE_R OR PTE_X)) (
     kthen (proc_mapstacks kpgtbl)
           (kret kpgtbl))))))))))"

definition kvminit :: "('z proc_machine_scheme, unit) kern" where
  "kvminit = kbind kvmmake (\<lambda>pt. kmod (\<lambda>s. s\<lparr>kernel_pagetable := pt\<rparr>))"

definition MAKE_SATP :: "u64 \<Rightarrow> u64" where
  "MAKE_SATP pagetable = push_bit 60 8 OR drop_bit 12 pagetable"

definition kvminithart :: "('z proc_machine_scheme, unit) kern" where
  "kvminithart = kmod (\<lambda>s. s\<lparr>satp := MAKE_SATP (kernel_pagetable s)\<rparr>)"

section \<open>The process table\<close>

definition procinit :: "('z proc_machine_scheme, unit) kern" where
  "procinit =
     kthen (initlock Lpid ''nextpid'') (
     kthen (initlock Lwait ''wait_lock'')
           (kfor [0..<NPROC] (\<lambda>p.
              kthen (initlock (Lproc p) ''proc'')
                    (set_proc p (\<lambda>q. q\<lparr>p_state := UNUSED, p_kstack := KSTACK p\<rparr>)))))"

definition allocpid :: "('z proc_machine_scheme, int) kern" where
  "allocpid =
     kthen (acquire Lpid) (
     kbind (kget nextpid) (\<lambda>pid.
     kthen (kmod (\<lambda>s. s\<lparr>nextpid := nextpid s + 1\<rparr>)) (
     kthen (release Lpid)
           (kret pid))))"

definition proc_pagetable :: "nat \<Rightarrow> ('z proc_machine_scheme, u64) kern" where
  "proc_pagetable p =
     kbind uvmcreate (\<lambda>pagetable.
     if pagetable = 0 then kret 0 else
     kbind (kget trampoline) (\<lambda>tramp.
     kbind (mappages pagetable TRAMPOLINE PGSIZE tramp (PTE_R OR PTE_X)) (\<lambda>r.
     if r < 0 then kthen (uvmfree pagetable 0) (kret 0) else
     kbind (get_proc p) (\<lambda>pr.
     kbind (mappages pagetable TRAPFRAME PGSIZE (p_trapframe pr) (PTE_R OR PTE_W)) (\<lambda>r.
     if r < 0 then
       kthen (uvmunmap pagetable TRAMPOLINE 1 False) (
       kthen (uvmfree pagetable 0)
             (kret 0))
     else kret pagetable)))))"

definition proc_freepagetable :: "u64 \<Rightarrow> u64 \<Rightarrow> ('z mem_machine_scheme, unit) kern" where
  "proc_freepagetable pagetable sz =
     kthen (uvmunmap pagetable TRAMPOLINE 1 False) (
     kthen (uvmunmap pagetable TRAPFRAME 1 False)
           (uvmfree pagetable sz))"

definition freeproc :: "nat \<Rightarrow> ('z proc_machine_scheme, unit) kern" where
  "freeproc p =
     kbind (get_proc p) (\<lambda>pr.
     kthen (kwhen (p_trapframe pr \<noteq> 0) (kfree (p_trapframe pr))) (
     kthen (set_proc p (\<lambda>q. q\<lparr>p_trapframe := 0\<rparr>)) (
     kthen (kwhen (p_pagetable pr \<noteq> 0) (proc_freepagetable (p_pagetable pr) (p_sz pr)))
           (set_proc p (\<lambda>q. q\<lparr>p_pagetable := 0, p_sz := 0, p_pid := 0, p_parent := None,
              p_name := (p_name q)[0 := 0], p_chan := ChNone, p_killed := 0, p_xstate := 0, p_state := UNUSED\<rparr>)))))"

text \<open>The search of \<^verbatim>\<open>allocproc\<close> for an unused slot, which it returns locked.\<close>

primrec find_unused :: "nat list \<Rightarrow> ('z proc_machine_scheme, nat option) kern" where
  "find_unused [] = kret None"
| "find_unused (p # ps) =
     kthen (acquire (Lproc p)) (
     kbind (get_proc p) (\<lambda>pr.
     if p_state pr = UNUSED then kret (Some p)
     else kthen (release (Lproc p)) (find_unused ps)))"

definition birth_priority :: "int \<Rightarrow> int" where
  "birth_priority pid = (if pid mod 2 = 0 then 10 else 1)"

definition allocproc :: "('z proc_machine_scheme, nat option) kern" where
  "allocproc =
     kbind (find_unused [0..<NPROC]) (\<lambda>r. case r of None \<Rightarrow> kret None | Some p \<Rightarrow>
     kbind allocpid (\<lambda>pid.
     kthen (set_proc p (\<lambda>q. q\<lparr>p_pid := pid, p_state := USED, p_priority := birth_priority pid\<rparr>)) (
     kbind kalloc (\<lambda>tf.
     kthen (set_proc p (\<lambda>q. q\<lparr>p_trapframe := tf\<rparr>)) (
     if tf = 0 then
       kthen (freeproc p) (
       kthen (release (Lproc p))
             (kret None))
     else
     kbind (proc_pagetable p) (\<lambda>pt.
     kthen (set_proc p (\<lambda>q. q\<lparr>p_pagetable := pt\<rparr>)) (
     if pt = 0 then
       kthen (freeproc p) (
       kthen (release (Lproc p))
             (kret None))
     else
     kbind (kget fn_forkret) (\<lambda>fr.
     kthen (set_proc p (\<lambda>q. q\<lparr>p_context := ctxt0\<lparr>c_ra := fr, c_sp := p_kstack q + PGSIZE\<rparr>\<rparr>))
           (kret (Some p))))))))))"

section \<open>Memory of a process\<close>

definition growproc :: "int \<Rightarrow> ('z proc_machine_scheme, int) kern" where
  "growproc n =
     kbind this_proc (\<lambda>p.
     kbind (get_proc p) (\<lambda>pr.
     let sz = p_sz pr; nsz = sz + word_of_int n in
     if 0 < n then
       (if TRAPFRAME < nsz then kret (- 1) else
        kbind (uvmalloc (p_pagetable pr) sz nsz PTE_W) (\<lambda>r.
        if r = 0 then kret (- 1) else
        kthen (set_proc p (\<lambda>q. q\<lparr>p_sz := r\<rparr>)) (kret 0)))
     else if n < 0 then
       kbind (uvmdealloc (p_pagetable pr) sz nsz) (\<lambda>r.
       kthen (set_proc p (\<lambda>q. q\<lparr>p_sz := r\<rparr>)) (kret 0))
     else kthen (set_proc p (\<lambda>q. q\<lparr>p_sz := sz\<rparr>)) (kret 0)))"

section \<open>Fork, exit and wait\<close>

definition userinit :: "('z file_machine_scheme, unit) kern" where
  "userinit =
     kbind allocproc (\<lambda>r.
     kthen (kmod (\<lambda>s. s\<lparr>initproc := r\<rparr>)) (
     case r of None \<Rightarrow> kpanic ''kerneltrap'' | Some p \<Rightarrow>
     kbind (namei [slash]) (\<lambda>ip.
     kthen (set_proc p (\<lambda>q. q\<lparr>p_cwd := ip\<rparr>)) (
     kthen (set_proc p (\<lambda>q. q\<lparr>p_state := RUNNABLE\<rparr>))
           (release (Lproc p))))))"

text \<open>\<^verbatim>\<open>sizeof(struct trapframe)\<close>.\<close>

definition TRAPFRAME_SIZE :: nat where "TRAPFRAME_SIZE = 288"

definition fork_ofile :: "nat \<Rightarrow> nat \<Rightarrow> nat \<Rightarrow> ('z file_machine_scheme, unit) kern" where
  "fork_ofile p np i =
     kbind (get_proc p) (\<lambda>pr.
     case p_ofile pr i of
       None \<Rightarrow> kret ()
     | Some f \<Rightarrow> kbind (filedup f) (\<lambda>g. set_proc np (\<lambda>q. q\<lparr>p_ofile := (p_ofile q)(i := Some g)\<rparr>)))"

definition kfork :: "('z file_machine_scheme, int) kern" where
  "kfork =
     kbind this_proc (\<lambda>p.
     kbind allocproc (\<lambda>r. case r of None \<Rightarrow> kret (- 1) | Some np \<Rightarrow>
     kbind (get_proc p) (\<lambda>pr.
     kbind (get_proc np) (\<lambda>npr.
     kbind (uvmcopy (p_pagetable pr) (p_pagetable npr) (p_sz pr)) (\<lambda>c.
     if c < 0 then
       kthen (freeproc np) (
       kthen (release (Lproc np))
             (kret (- 1)))
     else
     kthen (set_proc np (\<lambda>q. q\<lparr>p_sz := p_sz pr\<rparr>)) (
     kthen (kmod (\<lambda>s. s\<lparr>mem := mem_write (p_trapframe npr) (mem_read (mem s) (p_trapframe pr) TRAPFRAME_SIZE) (mem s)\<rparr>)) (
     kthen (tf_set np tf_a0 0) (
     kthen (kfor [0..<NOFILE] (fork_ofile p np)) (
     kbind (case p_cwd pr of None \<Rightarrow> kpanic ''kerneltrap'' | Some ip \<Rightarrow> idup ip) (\<lambda>cwd.
     kthen (set_proc np (\<lambda>q. q\<lparr>p_cwd := Some cwd, p_name := patch 0 (safestrcpy (lptr (p_name pr)) 16) (p_name q)\<rparr>)) (
     kthen (release (Lproc np)) (
     kthen (acquire Lwait) (
     kthen (set_proc np (\<lambda>q. q\<lparr>p_parent := Some p\<rparr>)) (
     kthen (release Lwait) (
     kthen (acquire (Lproc np)) (
     kthen (set_proc np (\<lambda>q. q\<lparr>p_state := RUNNABLE\<rparr>)) (
     kthen (release (Lproc np))
           (kret (p_pid npr)))))))))))))))))))"

definition proc_chan :: "nat option \<Rightarrow> chan" where
  "proc_chan q = (case q of None \<Rightarrow> ChNone | Some i \<Rightarrow> ChProc i)"

definition reparent_one :: "nat \<Rightarrow> nat \<Rightarrow> ('z proc_machine_scheme, unit) kern" where
  "reparent_one p pp =
     kbind (get_proc pp) (\<lambda>pr.
     kwhen (p_parent pr = Some p) (
       kbind (kget initproc) (\<lambda>ini.
       kthen (set_proc pp (\<lambda>q. q\<lparr>p_parent := ini\<rparr>))
             (wakeup (proc_chan ini)))))"

definition reparent :: "nat \<Rightarrow> ('z proc_machine_scheme, unit) kern" where
  "reparent p = kfor [0..<NPROC] (reparent_one p)"

definition close_fd :: "nat \<Rightarrow> nat \<Rightarrow> ('z file_machine_scheme, unit) kern" where
  "close_fd p fd =
     kbind (get_proc p) (\<lambda>pr.
     case p_ofile pr fd of
       None \<Rightarrow> kret ()
     | Some f \<Rightarrow>
         kthen (fileclose f)
               (set_proc p (\<lambda>q. q\<lparr>p_ofile := (p_ofile q)(fd := None)\<rparr>)))"

definition kexit :: "int \<Rightarrow> ('z file_machine_scheme, unit) kern" where
  "kexit status =
     kbind this_proc (\<lambda>p.
     kbind (kget initproc) (\<lambda>ini.
     if ini = Some p then kpanic ''init exiting'' else
     kthen (kfor [0..<NOFILE] (close_fd p)) (
     kthen begin_op (
     kbind (get_proc p) (\<lambda>pr.
     kthen (case p_cwd pr of None \<Rightarrow> kpanic ''kerneltrap'' | Some ip \<Rightarrow> iput ip) (
     kthen end_op (
     kthen (set_proc p (\<lambda>q. q\<lparr>p_cwd := None\<rparr>)) (
     kthen (acquire Lwait) (
     kthen (reparent p) (
     kbind (get_proc p) (\<lambda>pr.
     kthen (wakeup (proc_chan (p_parent pr))) (
     kthen (acquire (Lproc p)) (
     kthen (set_proc p (\<lambda>q. q\<lparr>p_xstate := status, p_state := ZOMBIE\<rparr>)) (
     kthen (release Lwait) (
     kthen sched
           (kpanic ''zombie exit''))))))))))))))))"

text \<open>The scan of \<^verbatim>\<open>kwait\<close>: the result of the call, or whether the process has children.\<close>

primrec kwait_scan :: "nat \<Rightarrow> u64 \<Rightarrow> nat list \<Rightarrow> bool \<Rightarrow> ('z proc_machine_scheme, int + bool) kern" where
  "kwait_scan p addr [] havekids = kret (Inr havekids)"
| "kwait_scan p addr (pp # pps) havekids =
     kbind (get_proc pp) (\<lambda>pr.
     if p_parent pr \<noteq> Some p then kwait_scan p addr pps havekids else
     kthen (acquire (Lproc pp)) (
     kbind (get_proc pp) (\<lambda>pr.
     if p_state pr = ZOMBIE then
       kbind (get_proc p) (\<lambda>me.
       kbind (if addr \<noteq> 0 then copyout (p_pagetable me) addr (le_bytes 4 (word_of_int (p_xstate pr) :: u32)) else kret 0) (\<lambda>r.
       if r < 0 then
         kthen (release (Lproc pp)) (
         kthen (release Lwait)
               (kret (Inl (- 1))))
       else
         kthen (freeproc pp) (
         kthen (release (Lproc pp)) (
         kthen (release Lwait)
               (kret (Inl (p_pid pr)))))))
     else kthen (release (Lproc pp)) (kwait_scan p addr pps True))))"

definition kwait_loop :: "nat \<Rightarrow> u64 \<Rightarrow> ('z proc_machine_scheme, int) kern" where
  "kwait_loop p addr =
     kbind (kwait_scan p addr [0..<NPROC] False) (\<lambda>r. case r of
       Inl v \<Rightarrow> kret v
     | Inr havekids \<Rightarrow>
         kbind (if havekids then killed p else kret 1) (\<lambda>k.
         if k \<noteq> 0 then kthen (release Lwait) (kret (- 1))
         else kbind (sleep (ChProc p) Lwait) (\<lambda>_. kstop Switched)))"

definition kwait :: "u64 \<Rightarrow> ('z proc_machine_scheme, int) kern" where
  "kwait addr =
     kbind this_proc (\<lambda>p.
     kthen (acquire Lwait)
           (kwait_loop p addr))"

definition kwait_resume :: "nat \<Rightarrow> bool \<Rightarrow> u64 \<Rightarrow> ('z proc_machine_scheme, int) kern" where
  "kwait_resume p saved addr = kthen (sleep_resume p Lwait saved) (kwait_loop p addr)"

end
