(* ===== verification/Exec.thy ===== *)
theory Exec
  imports Process
begin

text \<open>
  Program loading, \<^verbatim>\<open>kernel/exec.c\<close>. The headers of \<^verbatim>\<open>kernel/elf.h\<close> are read from the bytes of the file; the
  arguments are the strings behind \<^verbatim>\<open>argv\<close>, without their NULs.
\<close>

definition ELF_MAGIC :: u32 where "ELF_MAGIC = 0x464C457F"
definition ELF_PROG_LOAD :: u32 where "ELF_PROG_LOAD = 1"

definition get64 :: "nat \<Rightarrow> u8 list \<Rightarrow> u64" where
  "get64 i bs = le_word (take 8 (drop i bs))"

record elfhdr =
  e_magic :: u32
  e_entry :: u64
  e_phoff :: u64
  e_phnum :: u16

definition ELFHDR :: nat where "ELFHDR = 64"

definition elfhdr_of :: "u8 list \<Rightarrow> elfhdr" where
  "elfhdr_of d = \<lparr>e_magic = get32 0 d, e_entry = get64 24 d, e_phoff = get64 32 d, e_phnum = get16 56 d\<rparr>"

record proghdr =
  ph_type :: u32
  ph_flags :: u32
  ph_off :: u64
  ph_vaddr :: u64
  ph_filesz :: u64
  ph_memsz :: u64

definition PROGHDR :: nat where "PROGHDR = 56"

definition proghdr_of :: "u8 list \<Rightarrow> proghdr" where
  "proghdr_of d = \<lparr>ph_type = get32 0 d, ph_flags = get32 4 d, ph_off = get64 8 d, ph_vaddr = get64 16 d,
     ph_filesz = get64 32 d, ph_memsz = get64 40 d\<rparr>"

definition flags2perm :: "u32 \<Rightarrow> u64" where
  "flags2perm flags = (if flags AND 1 \<noteq> 0 then PTE_X else 0) OR (if flags AND 2 \<noteq> 0 then PTE_W else 0)"

primrec loadseg_loop :: "u64 \<Rightarrow> u64 \<Rightarrow> nat \<Rightarrow> u32 \<Rightarrow> u32 \<Rightarrow> nat list \<Rightarrow> ('z fs_machine_scheme, int) kern" where
  "loadseg_loop pagetable va ip off sz [] = kret 0"
| "loadseg_loop pagetable va ip off sz (i # is) =
     kbind (walkaddr pagetable (va + of_nat i)) (\<lambda>pa.
     if pa = 0 then kpanic ''loadseg: address should exist'' else
     let n = min (unat sz - i) 4096 in
     kbind (readi ip (KernelDst pa) (off + of_nat i) (of_nat n)) (\<lambda>(r, _).
     if r \<noteq> int n then kret (- 1)
     else loadseg_loop pagetable va ip off sz is))"

definition loadseg :: "u64 \<Rightarrow> u64 \<Rightarrow> nat \<Rightarrow> u32 \<Rightarrow> u32 \<Rightarrow> ('z fs_machine_scheme, int) kern" where
  "loadseg pagetable va ip off sz =
     loadseg_loop pagetable va ip off sz (map (\<lambda>k. k * 4096) [0..<(unat sz + 4095) div 4096])"

text \<open>
  The loop over the program headers: whether it has loaded them all, and the size of the image so far.
\<close>

primrec load_program ::
  "nat \<Rightarrow> u64 \<Rightarrow> nat \<Rightarrow> u32 \<Rightarrow> u64 \<Rightarrow> ('z fs_machine_scheme, bool \<times> u64) kern" where
  "load_program 0 pagetable ip off sz = kret (True, sz)"
| "load_program (Suc n) pagetable ip off sz =
     kbind (readi ip LocalDst off (of_nat PROGHDR)) (\<lambda>(r, d).
     if r \<noteq> int PROGHDR then kret (False, sz) else
     let ph = proghdr_of d in
     if ph_type ph \<noteq> ELF_PROG_LOAD then load_program n pagetable ip (off + of_nat PROGHDR) sz
     else if ph_memsz ph < ph_filesz ph then kret (False, sz)
     else if ph_vaddr ph + ph_memsz ph < ph_vaddr ph then kret (False, sz)
     else if ph_vaddr ph mod PGSIZE \<noteq> 0 then kret (False, sz)
     else
       kbind (uvmalloc pagetable sz (ph_vaddr ph + ph_memsz ph) (flags2perm (ph_flags ph))) (\<lambda>sz1.
       if sz1 = 0 then kret (False, sz) else
       kbind (loadseg pagetable (ph_vaddr ph) ip (ucast (ph_off ph)) (ucast (ph_filesz ph))) (\<lambda>l.
       if l < 0 then kret (False, sz1)
       else load_program n pagetable ip (off + of_nat PROGHDR) sz1)))"

text \<open>
  The argument strings go to the new stack, each aligned to 16 bytes: the stack pointer and the
  addresses of the strings, or \<open>None\<close> if they do not fit. The array of addresses has room for 32.
\<close>

definition sp_down :: "u64 \<Rightarrow> u64 \<Rightarrow> u64" where
  "sp_down sp n = (let sp' = sp - n in sp' - sp' mod 16)"

primrec push_args ::
  "u64 \<Rightarrow> u64 \<Rightarrow> u64 \<Rightarrow> u64 list \<Rightarrow> u8 list list \<Rightarrow> ('z proc_machine_scheme, (u64 \<times> u64 list) option) kern" where
  "push_args pagetable stackbase sp ustack [] = kret (Some (sp, ustack))"
| "push_args pagetable stackbase sp ustack (a # as) =
     (if MAXARG \<le> length ustack then kret None else
      let sp' = sp_down sp (of_nat (length a + 1)) in
      if sp' < stackbase then kret None else
      kbind (copyout pagetable sp' (a @ [0])) (\<lambda>r.
      if r < 0 then kret None
      else push_args pagetable stackbase sp' (ustack @ [sp']) as))"

definition last_elem :: "u8 list \<Rightarrow> u8 list" where
  "last_elem path = rev (takeWhile (\<lambda>c. c \<noteq> slash) (rev path))"

text \<open>The second half of \<^verbatim>\<open>kexec\<close>: the user stack, and the switch to the new image.\<close>

definition kexec_stack :: "nat \<Rightarrow> u64 \<Rightarrow> u64 \<Rightarrow> u64 \<Rightarrow> u8 list \<Rightarrow> u8 list list \<Rightarrow> ('z file_machine_scheme, int) kern" where
  "kexec_stack p pagetable sz0 entry path argv =
     (let sz = PGROUNDUP sz0; bad = (\<lambda>z. kthen (proc_freepagetable pagetable z) (kret (- 1))) in
      kbind (get_proc p) (\<lambda>pr.
      kbind (uvmalloc pagetable sz (sz + (USERSTACK + 1) * PGSIZE) PTE_W) (\<lambda>sz1.
      if sz1 = 0 then bad sz else
      kthen (uvmclear pagetable (sz1 - (USERSTACK + 1) * PGSIZE)) (
      let stackbase = sz1 - USERSTACK * PGSIZE in
      kbind (push_args pagetable stackbase sz1 [] argv) (\<lambda>r. case r of
        None \<Rightarrow> bad sz1
      | Some (sp, ustack) \<Rightarrow>
          if MAXARG \<le> length ustack then kstop Undef else
          let argc = length ustack; sp1 = sp_down sp (of_nat ((argc + 1) * 8)) in
          if sp1 < stackbase then bad sz1 else
          kbind (copyout pagetable sp1 (concat (map (le_bytes 8) (ustack @ [0])))) (\<lambda>c.
          if c < 0 then bad sz1 else
          kthen (tf_set p tf_a1 sp1) (
          kthen (set_proc p (\<lambda>q. q\<lparr>p_name := patch 0 (safestrcpy (lptr (last_elem path)) 16) (p_name q),
                   p_pagetable := pagetable, p_sz := sz1\<rparr>)) (
          kthen (tf_set p tf_epc entry) (
          kthen (tf_set p tf_sp sp1) (
          kthen (proc_freepagetable (p_pagetable pr) (p_sz pr))
                (kret (int argc))))))))))))"

definition kexec_bad :: "u64 \<Rightarrow> u64 \<Rightarrow> nat \<Rightarrow> ('z file_machine_scheme, int) kern" where
  "kexec_bad pagetable sz ip =
     kthen (kwhen (pagetable \<noteq> 0) (proc_freepagetable pagetable sz)) (
     kthen (iunlockput ip) (
     kthen end_op
           (kret (- 1))))"

definition kexec :: "u8 list \<Rightarrow> u8 list list \<Rightarrow> ('z file_machine_scheme, int) kern" where
  "kexec path argv =
     kbind this_proc (\<lambda>p.
     kthen begin_op (
     kbind (namei path) (\<lambda>r. case r of None \<Rightarrow> kthen end_op (kret (- 1)) | Some ip \<Rightarrow>
     kthen (ilock ip) (
     kbind (readi ip LocalDst 0 (of_nat ELFHDR)) (\<lambda>(r, d).
     let elf = elfhdr_of d in
     if r \<noteq> int ELFHDR then kexec_bad 0 0 ip
     else if e_magic elf \<noteq> ELF_MAGIC then kexec_bad 0 0 ip
     else
     kbind (proc_pagetable p) (\<lambda>pagetable.
     if pagetable = 0 then kexec_bad 0 0 ip else
     kbind (load_program (unat (e_phnum elf)) pagetable ip (ucast (e_phoff elf)) 0) (\<lambda>(ok, sz).
     if \<not> ok then kexec_bad pagetable sz ip else
     kthen (iunlockput ip) (
     kthen end_op
           (kexec_stack p pagetable sz (e_entry elf) path argv)))))))))"

end
