(* ===== verification/Syscall_Args.thy ===== *)
theory Syscall_Args
  imports Exec
begin

text \<open>
  The arguments of a system call, \<^verbatim>\<open>kernel/syscall.c\<close>: the registers saved in the trapframe, and the words
  and strings of user memory they point to. A string is returned without its NUL.
\<close>

definition fetchaddr :: "u64 \<Rightarrow> ('z proc_machine_scheme, u64 option) kern" where
  "fetchaddr addr =
     kbind this_proc (\<lambda>p.
     kbind (get_proc p) (\<lambda>pr.
     if p_sz pr \<le> addr \<or> p_sz pr < addr + 8 then kret None else
     kbind (copyin (p_pagetable pr) addr 8) (\<lambda>(r, bs).
     kret (if r \<noteq> 0 then None else Some (le_word bs)))))"

definition fetchstr :: "u64 \<Rightarrow> nat \<Rightarrow> ('z proc_machine_scheme, u8 list option) kern" where
  "fetchstr addr most =
     kbind this_proc (\<lambda>p.
     kbind (get_proc p) (\<lambda>pr.
     kbind (copyinstr (p_pagetable pr) addr most) (\<lambda>(r, bs).
     kret (if r < 0 then None else Some (takeWhile (\<lambda>c. c \<noteq> 0) bs)))))"

definition argraw :: "nat \<Rightarrow> ('z proc_machine_scheme, u64) kern" where
  "argraw n =
     kbind this_proc (\<lambda>p.
     if n = 0 then tf_get p tf_a0
     else if n = 1 then tf_get p tf_a1
     else if n = 2 then tf_get p tf_a2
     else if n = 3 then tf_get p tf_a3
     else if n = 4 then tf_get p tf_a4
     else if n = 5 then tf_get p tf_a5
     else kpanic ''argraw'')"

definition argint :: "nat \<Rightarrow> ('z proc_machine_scheme, int) kern" where
  "argint n = kbind (argraw n) (\<lambda>v. kret (sint (ucast v :: u32)))"

definition argaddr :: "nat \<Rightarrow> ('z proc_machine_scheme, u64) kern" where
  "argaddr n = argraw n"

definition argstr :: "nat \<Rightarrow> nat \<Rightarrow> ('z proc_machine_scheme, u8 list option) kern" where
  "argstr n most = kbind (argaddr n) (\<lambda>addr. fetchstr addr most)"

end
