(* ===== verification/Sysfile.thy ===== *)
theory Sysfile
  imports Syscall_Args Fcntl
begin

text \<open>
  The file-system calls, \<^verbatim>\<open>kernel/sysfile.c\<close>. Each returns the 32-bit result that the dispatcher extends to
  the register \<^verbatim>\<open>a0\<close>; a failure is \<open>- 1\<close>.
\<close>

section \<open>Descriptors\<close>

definition argfd :: "nat \<Rightarrow> ('z file_machine_scheme, (int \<times> nat) option) kern" where
  "argfd n =
     kbind (argint n) (\<lambda>fd.
     if fd < 0 \<or> int NOFILE \<le> fd then kret None else
     kbind this_proc (\<lambda>p.
     kbind (get_proc p) (\<lambda>pr.
     kret (map_option (\<lambda>f. (fd, f)) (p_ofile pr (nat fd))))))"

definition set_ofile :: "nat \<Rightarrow> nat \<Rightarrow> nat option \<Rightarrow> ('z proc_machine_scheme, unit) kern" where
  "set_ofile p fd f = set_proc p (\<lambda>q. q\<lparr>p_ofile := (p_ofile q)(fd := f)\<rparr>)"

definition fdalloc :: "nat \<Rightarrow> ('z file_machine_scheme, int) kern" where
  "fdalloc f =
     kbind this_proc (\<lambda>p.
     kbind (get_proc p) (\<lambda>pr.
     case List.find (\<lambda>fd. p_ofile pr fd = None) [0..<NOFILE] of
       None \<Rightarrow> kret (- 1)
     | Some fd \<Rightarrow> kthen (set_ofile p fd (Some f)) (kret (int fd))))"

definition sys_dup :: "('z file_machine_scheme, int) kern" where
  "sys_dup =
     kbind (argfd 0) (\<lambda>r. case r of None \<Rightarrow> kret (- 1) | Some (_, f) \<Rightarrow>
     kbind (fdalloc f) (\<lambda>fd.
     if fd < 0 then kret (- 1) else
     kthen (filedup f) (kret fd)))"

definition sys_read :: "('z file_machine_scheme, int) kern" where
  "sys_read =
     kbind (argaddr 1) (\<lambda>p.
     kbind (argint 2) (\<lambda>n.
     kbind (argfd 0) (\<lambda>r. case r of None \<Rightarrow> kret (- 1) | Some (_, f) \<Rightarrow> fileread f p n)))"

definition sys_write :: "('z file_machine_scheme, int) kern" where
  "sys_write =
     kbind (argaddr 1) (\<lambda>p.
     kbind (argint 2) (\<lambda>n.
     kbind (argfd 0) (\<lambda>r. case r of None \<Rightarrow> kret (- 1) | Some (_, f) \<Rightarrow> filewrite f p n)))"

definition sys_close :: "('z file_machine_scheme, int) kern" where
  "sys_close =
     kbind (argfd 0) (\<lambda>r. case r of None \<Rightarrow> kret (- 1) | Some (fd, f) \<Rightarrow>
     kbind this_proc (\<lambda>p.
     kthen (set_ofile p (nat fd) None) (
     kthen (fileclose f)
           (kret 0))))"

definition sys_fstat :: "('z file_machine_scheme, int) kern" where
  "sys_fstat =
     kbind (argaddr 1) (\<lambda>st.
     kbind (argfd 0) (\<lambda>r. case r of None \<Rightarrow> kret (- 1) | Some (_, f) \<Rightarrow> filestat f st))"

section \<open>Links\<close>

definition set_nlink :: "nat \<Rightarrow> (u16 \<Rightarrow> u16) \<Rightarrow> ('z fs_machine_scheme, unit) kern" where
  "set_nlink ip g = set_inode ip (\<lambda>i. i\<lparr>i_nlink := g (i_nlink i)\<rparr>)"

definition end_fail :: "('z fs_machine_scheme, int) kern" where
  "end_fail = kthen end_op (kret (- 1))"

definition sys_link_bad :: "nat \<Rightarrow> ('z fs_machine_scheme, int) kern" where
  "sys_link_bad ip =
     kthen (ilock ip) (
     kthen (set_nlink ip (\<lambda>n. n - 1)) (
     kthen (iupdate ip) (
     kthen (iunlockput ip)
           end_fail)))"

definition sys_link_to :: "u8 list \<Rightarrow> nat \<Rightarrow> ('z fs_machine_scheme, int) kern" where
  "sys_link_to new ip =
     kbind (nameiparent new) (\<lambda>r. case r of None \<Rightarrow> sys_link_bad ip | Some (dp, name) \<Rightarrow>
     kthen (ilock dp) (
     kbind (get_inode dp) (\<lambda>d.
     kbind (get_inode ip) (\<lambda>i.
     kbind (if i_dev d \<noteq> i_dev i then kret (- 1) else dirlink dp name (i_inum i)) (\<lambda>l.
     kthen (iunlockput dp) (
     if l < 0 then sys_link_bad ip else
     kthen (iput ip) (
     kthen end_op
           (kret 0))))))))"

definition sys_link :: "('z fs_machine_scheme, int) kern" where
  "sys_link =
     kbind (argstr 0 MAXPATH) (\<lambda>r. case r of None \<Rightarrow> kret (- 1) | Some old \<Rightarrow>
     kbind (argstr 1 MAXPATH) (\<lambda>r. case r of None \<Rightarrow> kret (- 1) | Some new \<Rightarrow>
     kthen begin_op (
     kbind (namei old) (\<lambda>r. case r of None \<Rightarrow> end_fail | Some ip \<Rightarrow>
     kthen (ilock ip) (
     kbind (get_inode ip) (\<lambda>i.
     if i_type i = T_DIR then kthen (iunlockput ip) end_fail else
     kthen (set_nlink ip (\<lambda>n. n + 1)) (
     kthen (iupdate ip) (
     kthen (iunlock ip)
           (sys_link_to new ip)))))))))"

primrec isdirempty_loop :: "nat \<Rightarrow> nat list \<Rightarrow> ('z fs_machine_scheme, bool) kern" where
  "isdirempty_loop dp [] = kret True"
| "isdirempty_loop dp (off # offs) =
     kbind (readi dp LocalDst (of_nat off) (of_nat DIRENT)) (\<lambda>(r, de).
     if r \<noteq> int DIRENT then kpanic ''isdirempty: readi''
     else if de_inum de \<noteq> 0 then kret False
     else isdirempty_loop dp offs)"

definition isdirempty :: "nat \<Rightarrow> ('z fs_machine_scheme, bool) kern" where
  "isdirempty dp = kbind (get_inode dp) (\<lambda>d. isdirempty_loop dp (drop 2 (dir_offs (i_size d))))"

definition dot :: "u8 list" where "dot = [0x2E]"
definition dotdot :: "u8 list" where "dotdot = [0x2E, 0x2E]"

definition sys_unlink_entry :: "nat \<Rightarrow> nat \<Rightarrow> u32 \<Rightarrow> ('z fs_machine_scheme, int) kern" where
  "sys_unlink_entry dp ip off =
     kbind (writei dp (LocalSrc (replicate DIRENT 0)) off (of_nat DIRENT)) (\<lambda>r.
     if r \<noteq> int DIRENT then kpanic ''unlink: writei'' else
     kbind (get_inode ip) (\<lambda>i.
     kthen (kwhen (i_type i = T_DIR) (
              kthen (set_nlink dp (\<lambda>n. n - 1))
                    (iupdate dp))) (
     kthen (iunlockput dp) (
     kthen (set_nlink ip (\<lambda>n. n - 1)) (
     kthen (iupdate ip) (
     kthen (iunlockput ip) (
     kthen end_op
           (kret 0))))))))"

definition sys_unlink :: "('z fs_machine_scheme, int) kern" where
  "sys_unlink =
     kbind (argstr 0 MAXPATH) (\<lambda>r. case r of None \<Rightarrow> kret (- 1) | Some path \<Rightarrow>
     kthen begin_op (
     kbind (nameiparent path) (\<lambda>r. case r of None \<Rightarrow> end_fail | Some (dp, name) \<Rightarrow>
     kthen (ilock dp) (
     if namecmp name dot = 0 \<or> namecmp name dotdot = 0 then kthen (iunlockput dp) end_fail else
     kbind (dirlookup dp name) (\<lambda>r. case r of None \<Rightarrow> kthen (iunlockput dp) end_fail | Some (ip, off) \<Rightarrow>
     kthen (ilock ip) (
     kbind (get_inode ip) (\<lambda>i.
     if sint (i_nlink i) < 1 then kpanic ''unlink: nlink < 1'' else
     kbind (if i_type i = T_DIR then isdirempty ip else kret True) (\<lambda>empty.
     if \<not> empty then kthen (iunlockput ip) (kthen (iunlockput dp) end_fail)
     else sys_unlink_entry dp ip off))))))))"

section \<open>Creation\<close>

definition create_fail :: "nat \<Rightarrow> nat \<Rightarrow> ('z fs_machine_scheme, nat option) kern" where
  "create_fail ip dp =
     kthen (set_nlink ip (\<lambda>_. 0)) (
     kthen (iupdate ip) (
     kthen (iunlockput ip) (
     kthen (iunlockput dp)
           (kret None))))"

definition create_dots :: "u16 \<Rightarrow> nat \<Rightarrow> nat \<Rightarrow> ('z fs_machine_scheme, bool) kern" where
  "create_dots type ip dp =
     (if type \<noteq> T_DIR then kret True else
      kbind (get_inode ip) (\<lambda>i.
      kbind (get_inode dp) (\<lambda>d.
      kbind (dirlink ip dot (i_inum i)) (\<lambda>a.
      if a < 0 then kret False else
      kbind (dirlink ip dotdot (i_inum d)) (\<lambda>b. kret (\<not> b < 0))))))"

definition create :: "u8 list \<Rightarrow> u16 \<Rightarrow> u16 \<Rightarrow> u16 \<Rightarrow> ('z fs_machine_scheme, nat option) kern" where
  "create path type major minor =
     kbind (nameiparent path) (\<lambda>r. case r of None \<Rightarrow> kret None | Some (dp, name) \<Rightarrow>
     kthen (ilock dp) (
     kbind (dirlookup dp name) (\<lambda>r. case r of
       Some (ip, _) \<Rightarrow>
         kthen (iunlockput dp) (
         kthen (ilock ip) (
         kbind (get_inode ip) (\<lambda>i.
         if type = T_FILE \<and> (i_type i = T_FILE \<or> i_type i = T_DEVICE) then kret (Some ip)
         else kthen (iunlockput ip) (kret None))))
     | None \<Rightarrow>
         kbind (get_inode dp) (\<lambda>d.
         kbind (ialloc (i_dev d) type) (\<lambda>r. case r of None \<Rightarrow> kthen (iunlockput dp) (kret None) | Some ip \<Rightarrow>
         kthen (ilock ip) (
         kthen (set_inode ip (\<lambda>i. i\<lparr>i_major := major, i_minor := minor, i_nlink := 1\<rparr>)) (
         kthen (iupdate ip) (
         kbind (create_dots type ip dp) (\<lambda>ok.
         if \<not> ok then create_fail ip dp else
         kbind (get_inode ip) (\<lambda>i.
         kbind (dirlink dp name (i_inum i)) (\<lambda>l.
         if l < 0 then create_fail ip dp else
         kthen (kwhen (type = T_DIR) (
                  kthen (set_nlink dp (\<lambda>n. n + 1))
                        (iupdate dp))) (
         kthen (iunlockput dp)
               (kret (Some ip)))))))))))))) "

definition close_fail :: "nat \<Rightarrow> ('z fs_machine_scheme, int) kern" where
  "close_fail ip = kthen (iunlockput ip) end_fail"

text \<open>The part of \<^verbatim>\<open>sys_open\<close> that has the inode locked.\<close>

definition sys_open_inode :: "nat \<Rightarrow> u32 \<Rightarrow> ('z file_machine_scheme, int) kern" where
  "sys_open_inode ip omode =
     kbind (get_inode ip) (\<lambda>i.
     if i_type i = T_DEVICE \<and> (sint (i_major i) < 0 \<or> NDEV \<le> sint (i_major i)) then close_fail ip else
     kbind filealloc (\<lambda>r. case r of None \<Rightarrow> close_fail ip | Some f \<Rightarrow>
     kbind (fdalloc f) (\<lambda>fd.
     if fd < 0 then kthen (fileclose f) (close_fail ip) else
     kthen (if i_type i = T_DEVICE
            then set_file f (\<lambda>x. x\<lparr>f_type := FD_DEVICE, f_major := i_major i\<rparr>)
            else set_file f (\<lambda>x. x\<lparr>f_type := FD_INODE, f_off := 0\<rparr>)) (
     kthen (set_file f (\<lambda>x. x\<lparr>f_ip := ip, f_readable := (omode AND O_WRONLY = 0),
              f_writable := (omode AND O_WRONLY \<noteq> 0 \<or> omode AND O_RDWR \<noteq> 0)\<rparr>)) (
     kthen (kwhen (omode AND O_TRUNC \<noteq> 0 \<and> i_type i = T_FILE) (itrunc ip)) (
     kthen (iunlock ip) (
     kthen end_op
           (kret fd))))))))"

definition sys_open :: "('z file_machine_scheme, int) kern" where
  "sys_open =
     kbind (argint 1) (\<lambda>om.
     let omode = word_of_int om :: u32 in
     kbind (argstr 0 MAXPATH) (\<lambda>r. case r of None \<Rightarrow> kret (- 1) | Some path \<Rightarrow>
     kthen begin_op (
     if omode AND O_CREATE \<noteq> 0 then
       kbind (create path T_FILE 0 0) (\<lambda>r. case r of None \<Rightarrow> end_fail | Some ip \<Rightarrow> sys_open_inode ip omode)
     else
       kbind (namei path) (\<lambda>r. case r of None \<Rightarrow> end_fail | Some ip \<Rightarrow>
       kthen (ilock ip) (
       kbind (get_inode ip) (\<lambda>i.
       if i_type i = T_DIR \<and> omode \<noteq> O_RDONLY then close_fail ip
       else sys_open_inode ip omode))))))"

definition sys_mkdir :: "('z fs_machine_scheme, int) kern" where
  "sys_mkdir =
     kthen begin_op (
     kbind (argstr 0 MAXPATH) (\<lambda>r. case r of None \<Rightarrow> end_fail | Some path \<Rightarrow>
     kbind (create path T_DIR 0 0) (\<lambda>r. case r of None \<Rightarrow> end_fail | Some ip \<Rightarrow>
     kthen (iunlockput ip) (
     kthen end_op
           (kret 0)))))"

definition sys_mknod :: "('z fs_machine_scheme, int) kern" where
  "sys_mknod =
     kthen begin_op (
     kbind (argint 1) (\<lambda>major.
     kbind (argint 2) (\<lambda>minor.
     kbind (argstr 0 MAXPATH) (\<lambda>r. case r of None \<Rightarrow> end_fail | Some path \<Rightarrow>
     kbind (create path T_DEVICE (word_of_int major) (word_of_int minor)) (\<lambda>r. case r of None \<Rightarrow> end_fail | Some ip \<Rightarrow>
     kthen (iunlockput ip) (
     kthen end_op
           (kret 0)))))))"

definition sys_chdir :: "('z fs_machine_scheme, int) kern" where
  "sys_chdir =
     kbind this_proc (\<lambda>p.
     kthen begin_op (
     kbind (argstr 0 MAXPATH) (\<lambda>r. case r of None \<Rightarrow> end_fail | Some path \<Rightarrow>
     kbind (namei path) (\<lambda>r. case r of None \<Rightarrow> end_fail | Some ip \<Rightarrow>
     kthen (ilock ip) (
     kbind (get_inode ip) (\<lambda>i.
     if i_type i \<noteq> T_DIR then close_fail ip else
     kthen (iunlock ip) (
     kbind (get_proc p) (\<lambda>pr.
     kthen (case p_cwd pr of None \<Rightarrow> kpanic ''kerneltrap'' | Some c \<Rightarrow> iput c) (
     kthen end_op (
     kthen (set_proc p (\<lambda>q. q\<lparr>p_cwd := Some ip\<rparr>))
           (kret 0)))))))))))"

section \<open>Exec and pipe\<close>

text \<open>
  The argument vector: one page per argument, which holds its string. The loop returns the pages it
  has allocated, with the strings if every argument was fetched.
\<close>

primrec fetch_args ::
  "nat \<Rightarrow> u64 \<Rightarrow> u64 list \<Rightarrow> u8 list list \<Rightarrow> ('z proc_machine_scheme, u64 list \<times> u8 list list option) kern" where
  "fetch_args 0 uargv pages strs = kret (pages, None)"
| "fetch_args (Suc n) uargv pages strs =
     kbind (fetchaddr (uargv + 8 * of_nat (length pages))) (\<lambda>r. case r of None \<Rightarrow> kret (pages, None) | Some uarg \<Rightarrow>
     if uarg = 0 then kret (pages, Some strs) else
     kbind kalloc (\<lambda>pg.
     if pg = 0 then kret (pages, None) else
     kbind (fetchstr uarg (unat PGSIZE)) (\<lambda>r. case r of None \<Rightarrow> kret (pages @ [pg], None) | Some str \<Rightarrow>
     kthen (kmod (\<lambda>s. s\<lparr>mem := mem_write pg (str @ [0]) (mem s)\<rparr>))
           (fetch_args n uargv (pages @ [pg]) (strs @ [str])))))"

definition sys_exec :: "('z file_machine_scheme, int) kern" where
  "sys_exec =
     kbind (argaddr 1) (\<lambda>uargv.
     kbind (argstr 0 MAXPATH) (\<lambda>r. case r of None \<Rightarrow> kret (- 1) | Some path \<Rightarrow>
     kbind (fetch_args MAXARG uargv [] []) (\<lambda>(pages, strs).
     kbind (case strs of None \<Rightarrow> kret (- 1) | Some argv \<Rightarrow> kexec path argv) (\<lambda>ret.
     kthen (kfor pages kfree)
           (kret ret)))))"

definition sys_pipe_close :: "nat \<Rightarrow> nat \<Rightarrow> ('z file_machine_scheme, int) kern" where
  "sys_pipe_close rfile wfile =
     kthen (fileclose rfile) (
     kthen (fileclose wfile)
           (kret (- 1)))"

definition sys_pipe :: "('z file_machine_scheme, int) kern" where
  "sys_pipe =
     kbind this_proc (\<lambda>p.
     kbind (argaddr 0) (\<lambda>fdarray.
     kbind pipealloc (\<lambda>r. case r of None \<Rightarrow> kret (- 1) | Some (rfile, wfile) \<Rightarrow>
     kbind (fdalloc rfile) (\<lambda>fd0.
     if fd0 < 0 then sys_pipe_close rfile wfile else
     kbind (fdalloc wfile) (\<lambda>fd1.
     if fd1 < 0 then
       kthen (set_ofile p (nat fd0) None)
             (sys_pipe_close rfile wfile)
     else
     kbind (get_proc p) (\<lambda>pr.
     kbind (copyout (p_pagetable pr) fdarray (le_bytes 4 (word_of_int fd0 :: u32))) (\<lambda>a.
     kbind (if a < 0 then kret a
            else copyout (p_pagetable pr) (fdarray + 4) (le_bytes 4 (word_of_int fd1 :: u32))) (\<lambda>b.
     if b < 0 then
       kthen (set_ofile p (nat fd0) None) (
       kthen (set_ofile p (nat fd1) None)
             (sys_pipe_close rfile wfile))
     else kret 0))))))))"

end
