(* ===== verification/Syscall.thy ===== *)
theory Syscall
  imports Sysfile
begin

text \<open>
  The process calls, \<^verbatim>\<open>kernel/sysproc.c\<close>, and the dispatcher of \<^verbatim>\<open>kernel/syscall.c\<close>, which stores the result of
  the call in \<^verbatim>\<open>a0\<close> of the trapframe.
\<close>

section \<open>Process calls\<close>

definition SBRK_EAGER :: int where "SBRK_EAGER = 1"

definition sys_exit :: "('z file_machine_scheme, int) kern" where
  "sys_exit = kbind (argint 0) (\<lambda>n. kthen (kexit n) (kret 0))"

definition sys_getpid :: "('z proc_machine_scheme, int) kern" where
  "sys_getpid = kbind this_proc (\<lambda>p. kbind (get_proc p) (\<lambda>pr. kret (p_pid pr)))"

definition sys_fork :: "('z file_machine_scheme, int) kern" where
  "sys_fork = kfork"

definition sys_wait :: "('z proc_machine_scheme, int) kern" where
  "sys_wait = kbind (argaddr 0) kwait"

definition sys_sbrk :: "('z proc_machine_scheme, u64) kern" where
  "sys_sbrk =
     kbind (argint 0) (\<lambda>n.
     kbind (argint 1) (\<lambda>t.
     kbind this_proc (\<lambda>p.
     kbind (get_proc p) (\<lambda>pr.
     let addr = p_sz pr in
     if t = SBRK_EAGER \<or> n < 0 then
       kbind (growproc n) (\<lambda>r. kret (if r < 0 then - 1 else addr))
     else if addr + word_of_int n < addr then kret (- 1)
     else if TRAPFRAME < addr + word_of_int n then kret (- 1)
     else
       kbind this_proc (\<lambda>p.
       kthen (set_proc p (\<lambda>q. q\<lparr>p_sz := p_sz q + word_of_int n\<rparr>))
             (kret addr))))))"

text \<open>The wait of \<^verbatim>\<open>sys_pause\<close>, entered again by a thread that slept in it.\<close>

definition pause_loop :: "u32 \<Rightarrow> u32 \<Rightarrow> ('z proc_machine_scheme, int) kern" where
  "pause_loop ticks0 n =
     kbind (kget ticks) (\<lambda>t.
     if t - ticks0 < n then
       kbind this_proc (\<lambda>p.
       kbind (killed p) (\<lambda>k.
       if k \<noteq> 0 then kthen (release Ltickslock) (kret (- 1))
       else kbind (sleep ChTicks Ltickslock) (\<lambda>_. kstop Switched)))
     else kthen (release Ltickslock) (kret 0))"

definition sys_pause :: "('z proc_machine_scheme, int) kern" where
  "sys_pause =
     kbind (argint 0) (\<lambda>n.
     kthen (acquire Ltickslock) (
     kbind (kget ticks) (\<lambda>ticks0.
     pause_loop ticks0 (word_of_int (if n < 0 then 0 else n)))))"

definition sys_pause_resume :: "nat \<Rightarrow> bool \<Rightarrow> u32 \<Rightarrow> u32 \<Rightarrow> ('z proc_machine_scheme, int) kern" where
  "sys_pause_resume p saved ticks0 n = kthen (sleep_resume p Ltickslock saved) (pause_loop ticks0 n)"

definition sys_kill :: "('z proc_machine_scheme, int) kern" where
  "sys_kill = kbind (argint 0) kkill"

definition sys_uptime :: "('z proc_machine_scheme, u32) kern" where
  "sys_uptime =
     kthen (acquire Ltickslock) (
     kbind (kget ticks) (\<lambda>xticks.
     kthen (release Ltickslock)
           (kret xticks)))"

section \<open>Dispatch\<close>

definition as_reg :: "('s, int) kern \<Rightarrow> ('s, u64) kern" where
  "as_reg m = kbind m (\<lambda>r. kret (word_of_int r))"

text \<open>The table \<^verbatim>\<open>syscalls\<close>, indexed by the numbers of \<^verbatim>\<open>kernel/syscall.h\<close>.\<close>

definition syscalls :: "nat \<Rightarrow> ('z file_machine_scheme, u64) kern option" where
  "syscalls = (\<lambda>_. None)(
     1 := Some (as_reg sys_fork), 2 := Some (as_reg sys_exit), 3 := Some (as_reg sys_wait),
     4 := Some (as_reg sys_pipe), 5 := Some (as_reg sys_read), 6 := Some (as_reg sys_kill),
     7 := Some (as_reg sys_exec), 8 := Some (as_reg sys_fstat), 9 := Some (as_reg sys_chdir),
     10 := Some (as_reg sys_dup), 11 := Some (as_reg sys_getpid), 12 := Some sys_sbrk,
     13 := Some (as_reg sys_pause), 14 := Some (kbind sys_uptime (\<lambda>t. kret (ucast t))),
     15 := Some (as_reg sys_open), 16 := Some (as_reg sys_write), 17 := Some (as_reg sys_mknod),
     18 := Some (as_reg sys_unlink), 19 := Some (as_reg sys_link), 20 := Some (as_reg sys_mkdir),
     21 := Some (as_reg sys_close))"

definition unknown_fmt :: string where
  "unknown_fmt = ''%d %s: unknown sys call %d'' @ [CHR 0x0A]"

definition syscall :: "('z file_machine_scheme, unit) kern" where
  "syscall =
     kbind this_proc (\<lambda>p.
     kbind (tf_get p tf_a7) (\<lambda>a7.
     let num = sint (ucast a7 :: u32) in
     case (if 0 < num \<and> num < 22 then syscalls (nat num) else None) of
       Some f \<Rightarrow> kbind f (\<lambda>v. tf_set p tf_a0 v)
     | None \<Rightarrow>
         kbind (get_proc p) (\<lambda>pr.
         kthen (printf unknown_fmt [VaI (word_of_int (p_pid pr)), VaS (Some (cstring (p_name pr))), VaI (word_of_int num)])
               (tf_set p tf_a0 (- 1)))))"

end
