(* ===== verification/Trap.thy ===== *)
theory Trap
  imports Syscall
begin

text \<open>
  Traps and interrupts, \<^verbatim>\<open>kernel/trap.c\<close>, the interrupt controller of \<^verbatim>\<open>kernel/plic.c\<close>, the first run of a process
  (\<^verbatim>\<open>forkret\<close>), and the boot of \<^verbatim>\<open>kernel/main.c\<close>. The claim register of the interrupt controller and the clock
  are hardware state. The entry and exit code in assembly is not modelled: a handler starts in the state
  the trap leaves, and returns the value it passes to that code.
\<close>

section \<open>State\<close>

definition UART0_IRQ :: int where "UART0_IRQ = 10"
definition VIRTIO0_IRQ :: int where "VIRTIO0_IRQ = 1"

record trap_machine = file_machine +
  plic_regs :: "(u64 \<times> u32) list"
  plic_irq :: u32
  plic_served :: "int list"
  clock :: u64
  stimecmp :: u64
  started :: bool

section \<open>The interrupt controller\<close>

definition plic_write :: "u64 \<Rightarrow> u32 \<Rightarrow> ('z trap_machine_scheme, unit) kern" where
  "plic_write a v = kmod (\<lambda>s. s\<lparr>plic_regs := plic_regs s @ [(a, v)]\<rparr>)"

definition plicinit :: "('z trap_machine_scheme, unit) kern" where
  "plicinit =
     kthen (plic_write (PLIC + word_of_int UART0_IRQ * 4) 1)
           (plic_write (PLIC + word_of_int VIRTIO0_IRQ * 4) 1)"

definition PLIC_SENABLE :: "nat \<Rightarrow> u64" where "PLIC_SENABLE h = PLIC + 0x2080 + of_nat h * 0x100"
definition PLIC_SPRIORITY :: "nat \<Rightarrow> u64" where "PLIC_SPRIORITY h = PLIC + 0x201000 + of_nat h * 0x2000"

definition plicinithart :: "('z trap_machine_scheme, unit) kern" where
  "plicinithart =
     kbind cpuid (\<lambda>h.
     kthen (plic_write (PLIC_SENABLE h) (push_bit 10 1 OR push_bit 1 1))
           (plic_write (PLIC_SPRIORITY h) 0))"

definition plic_claim :: "('z trap_machine_scheme, int) kern" where
  "plic_claim = kget (\<lambda>s. sint (plic_irq s))"

definition plic_complete :: "int \<Rightarrow> ('z trap_machine_scheme, unit) kern" where
  "plic_complete irq = kmod (\<lambda>s. s\<lparr>plic_served := plic_served s @ [irq]\<rparr>)"

section \<open>Interrupts\<close>

definition trapinit :: "('z trap_machine_scheme, unit) kern" where
  "trapinit = initlock Ltickslock ''time''"

definition trapinithart :: "('z trap_machine_scheme, unit) kern" where
  "trapinithart = kmod (\<lambda>s. s\<lparr>stvec := fn_kernelvec s\<rparr>)"

definition clockintr :: "('z trap_machine_scheme, unit) kern" where
  "clockintr =
     kbind cpuid (\<lambda>id.
     kthen (kwhen (id = 0) (
              kthen (acquire Ltickslock) (
              kthen (kmod (\<lambda>s. s\<lparr>ticks := ticks s + 1\<rparr>)) (
              kthen (wakeup ChTicks)
                    (release Ltickslock)))))
           (kmod (\<lambda>s. s\<lparr>stimecmp := clock s + 1000000\<rparr>)))"

definition irq_fmt :: string where
  "irq_fmt = ''unexpected interrupt irq=%d'' @ [CHR 0x0A]"

definition devintr :: "('z trap_machine_scheme, int) kern" where
  "devintr =
     kbind (kget scause) (\<lambda>cause.
     if cause = 0x8000000000000009 then
       kbind plic_claim (\<lambda>irq.
       kthen (if irq = UART0_IRQ then uartintr
              else if irq = VIRTIO0_IRQ then virtio_disk_intr
              else if irq \<noteq> 0 then printf irq_fmt [VaI (word_of_int irq)]
              else kret ()) (
       kthen (kwhen (irq \<noteq> 0) (plic_complete irq))
             (kret 1)))
     else if cause = 0x8000000000000005 then kthen clockintr (kret 2)
     else kret 0)"

section \<open>Traps\<close>

definition prepare_return :: "('z trap_machine_scheme, unit) kern" where
  "prepare_return =
     kbind this_proc (\<lambda>p.
     kthen intr_off (
     kthen (kmod (\<lambda>s. s\<lparr>stvec := TRAMPOLINE + off_uservec s\<rparr>)) (
     kbind (get_proc p) (\<lambda>pr.
     kbind (kget (\<lambda>s. (satp s, fn_usertrap s))) (\<lambda>(st, ut).
     kthen (tf_set p tf_kernel_satp st) (
     kthen (tf_set p tf_kernel_sp (p_kstack pr + PGSIZE)) (
     kthen (tf_set p tf_kernel_trap ut) (
     kbind cpuid (\<lambda>id.
     kthen (tf_set p tf_kernel_hartid (of_nat id)) (
     kthen (kmod (\<lambda>s. s\<lparr>sstatus_spp := False, sstatus_spie := True\<rparr>)) (
     kbind (tf_get p tf_epc) (\<lambda>epc.
     kmod (\<lambda>s. s\<lparr>sepc := epc\<rparr>)))))))))))))"

definition fault_fmt1 :: string where
  "fault_fmt1 = ''usertrap(): unexpected scause 0x%lx pid=%d'' @ [CHR 0x0A]"
definition fault_fmt2 :: string where
  "fault_fmt2 = ''            sepc=0x%lx stval=0x%lx'' @ [CHR 0x0A]"

definition usertrap_fault :: "nat \<Rightarrow> ('z trap_machine_scheme, unit) kern" where
  "usertrap_fault p =
     kbind (get_proc p) (\<lambda>pr.
     kbind (kget (\<lambda>s. (scause s, sepc s, stval s))) (\<lambda>(cause, pc, val).
     kthen (printf fault_fmt1 [VaI cause, VaI (word_of_int (p_pid pr))]) (
     kthen (printf fault_fmt2 [VaI pc, VaI val])
           (setkilled p))))"

definition exit_if_killed :: "nat \<Rightarrow> ('z trap_machine_scheme, unit) kern" where
  "exit_if_killed p = kbind (killed p) (\<lambda>k. kwhen (k \<noteq> 0) (kexit (- 1)))"

text \<open>What \<^verbatim>\<open>usertrap\<close> does on the cause of the trap; it returns \<^verbatim>\<open>which_dev\<close>.\<close>

definition usertrap_cause :: "nat \<Rightarrow> ('z trap_machine_scheme, int) kern" where
  "usertrap_cause p =
     kbind (kget scause) (\<lambda>cause.
     if cause = 8 then
       kthen (exit_if_killed p) (
       kbind (tf_get p tf_epc) (\<lambda>epc.
       kthen (tf_set p tf_epc (epc + 4)) (
       kthen intr_on (
       kthen syscall
             (kret 0)))))
     else
       kbind devintr (\<lambda>which_dev.
       if which_dev \<noteq> 0 then kret which_dev
       else if cause = 15 \<or> cause = 13 then
         kbind (get_proc p) (\<lambda>pr.
         kbind (kget stval) (\<lambda>va.
         kbind (vmfault (p_pagetable pr) va (cause = 13)) (\<lambda>pa.
         kthen (kwhen (pa = 0) (usertrap_fault p)) (kret 0))))
       else kthen (usertrap_fault p) (kret 0)))"

definition usertrap_finish :: "nat \<Rightarrow> ('z trap_machine_scheme, u64) kern" where
  "usertrap_finish p =
     kthen prepare_return (
     kbind (get_proc p) (\<lambda>pr. kret (MAKE_SATP (p_pagetable pr))))"

definition usertrap :: "('z trap_machine_scheme, u64) kern" where
  "usertrap =
     kbind (kget sstatus_spp) (\<lambda>spp.
     if spp then kpanic ''usertrap: not from user mode'' else
     kthen (kmod (\<lambda>s. s\<lparr>stvec := fn_kernelvec s\<rparr>)) (
     kbind this_proc (\<lambda>p.
     kbind (kget sepc) (\<lambda>pc.
     kthen (tf_set p tf_epc pc) (
     kbind (usertrap_cause p) (\<lambda>which_dev.
     kthen (exit_if_killed p) (
     kthen (kwhen (which_dev = 2) yield)
           (usertrap_finish p))))))))"

text \<open>A process that gave up the CPU in \<^verbatim>\<open>usertrap\<close>, when it runs again.\<close>

definition usertrap_resume :: "nat \<Rightarrow> bool \<Rightarrow> ('z trap_machine_scheme, u64) kern" where
  "usertrap_resume p saved = kthen (yield_resume p saved) (usertrap_finish p)"

definition kfault_fmt :: string where
  "kfault_fmt = ''scause=0x%lx sepc=0x%lx stval=0x%lx'' @ [CHR 0x0A]"

text \<open>The registers that \<^verbatim>\<open>kerneltrap\<close> restores at its end, after a yield as well.\<close>

definition kerneltrap_finish :: "u64 \<Rightarrow> bool \<Rightarrow> bool \<Rightarrow> ('z trap_machine_scheme, unit) kern" where
  "kerneltrap_finish pc spp spie =
     kthen intr_off
           (kmod (\<lambda>s. s\<lparr>sepc := pc, sstatus_spp := spp, sstatus_spie := spie\<rparr>))"

definition kerneltrap :: "('z trap_machine_scheme, unit) kern" where
  "kerneltrap =
     kbind (kget (\<lambda>s. (sepc s, sstatus_spp s, sstatus_spie s))) (\<lambda>(pc, spp, spie).
     if \<not> spp then kpanic ''kerneltrap: not from supervisor mode'' else
     kbind intr_get (\<lambda>on.
     if on then kpanic ''kerneltrap: interrupts enabled'' else
     kbind (kget scause) (\<lambda>cause.
     kbind devintr (\<lambda>which_dev.
     if which_dev = 0 then
       kbind (kget (\<lambda>s. (sepc s, stval s))) (\<lambda>(pc, val).
       kthen (printf kfault_fmt [VaI cause, VaI pc, VaI val])
             (kpanic ''kerneltrap''))
     else
       kbind (if which_dev = 2 then myproc else kret None) (\<lambda>me.
       kthen (kwhen (me \<noteq> None) yield)
             (kerneltrap_finish pc spp spie))))))"

section \<open>The first run of a process, and boot\<close>

definition init_path :: "u8 list" where
  "init_path = [0x2F, 0x69, 0x6E, 0x69, 0x74]"

definition forkret :: "('z trap_machine_scheme, u64) kern" where
  "forkret =
     kbind this_proc (\<lambda>p.
     kthen (release (Lproc p)) (
     kbind (kget fork_first) (\<lambda>first.
     kthen (kwhen first (
              kthen (fsinit (uint ROOTDEV)) (
              kthen (kmod (\<lambda>s. s\<lparr>fork_first := False\<rparr>)) (
              kbind (kexec init_path [init_path]) (\<lambda>argc.
              kthen (tf_set p tf_a0 (word_of_int argc)) (
              kbind (tf_get p tf_a0) (\<lambda>a0.
              if a0 = - 1 then kpanic ''exec'' else kret ())))))))
           (usertrap_finish p))))"

text \<open>
  \<^verbatim>\<open>main\<close> up to the call of the scheduler, on the boot hart and on the others. In the run of one hart the
  wait for the boot hart does not end.
\<close>

definition main_boot :: "('z trap_machine_scheme, unit) kern" where
  "main_boot =
     kseq [consoleinit, printfinit, printf [CHR 0x0A] [], printf (''xv6 kernel is booting'' @ [CHR 0x0A]) [],
       printf [CHR 0x0A] [], kinit, kvminit, kvminithart, procinit, trapinit, trapinithart, plicinit,
       plicinithart, binit, iinit, fileinit, virtio_disk_init, userinit,
       kmod (\<lambda>s. s\<lparr>started := True\<rparr>)]"

definition hart_fmt :: string where
  "hart_fmt = ''hart %d starting'' @ [CHR 0x0A]"

definition main :: "('z trap_machine_scheme, unit) kern" where
  "main =
     kbind cpuid (\<lambda>id.
     kthen (if id = 0 then main_boot else
            kbind (kget started) (\<lambda>st.
            if \<not> st then kstop Frozen else
            kseq [printf hart_fmt [VaI (of_nat id)], kvminithart, trapinithart, plicinithart]))
           scheduler_enter)"

end
