(* ===== verification/Crash.thy ===== *)
theory Crash
  imports Log
begin

text \<open>
  Crash safety of \<^verbatim>\<open>kernel/log.c\<close>. An image of the disk stands for the blocks that recovery will make of it:
  the blocks named in the log header, taken from the log, over the home blocks (\<open>log_view\<close>). A crash lets
  only a prefix of the writes reach the disk (\<open>crash_at\<close>). Every write of \<^verbatim>\<open>commit\<close> but one leaves what the disk
  stands for as it is, and the write of the header changes it from the state before the transaction to the
  state after it; every write of recovery leaves it as it is, so that a crash during recovery does no harm.
\<close>

section \<open>What an image stands for\<close>

definition log_map :: "blk \<Rightarrow> u8 list \<Rightarrow> (blk \<times> blk) list" where
  "log_map st d = zip (map nat (head_entries d)) [st + 1..<st + 1 + nat (head_count d)]"

definition log_view :: "blk \<Rightarrow> diskimg \<Rightarrow> blk \<Rightarrow> u8 list" where
  "log_view st im k = (case map_of (log_map st (disk_block im st)) k of
     Some j \<Rightarrow> disk_block im j | None \<Rightarrow> disk_block im k)"

definition head_ok :: "blk \<Rightarrow> u8 list \<Rightarrow> bool" where
  "head_ok st d \<longleftrightarrow> 0 \<le> head_count d \<and> head_count d \<le> int LOGBLOCKS \<and> entries_ok st (head_entries d)"

lemma head_bytes_read:
  assumes "length d = BSIZE" "entries_ok st bl"
  shows "head_count (head_bytes bl d) = int (length bl)" "head_entries (head_bytes bl d) = bl" "head_ok st (head_bytes bl d)"
proof -
  have b: "length bl \<le> 30" "4 + 4 * length bl \<le> length d" using assms by (simp_all add: entries_ok_def LOGBLOCKS_val BSIZE_def)
  show c: "head_count (head_bytes bl d) = int (length bl)"
    unfolding head_count_def by (rule head_bytes_count) (use b in auto)
  have "sint (get32 (4 + 4 * i) (head_bytes bl d)) = bl ! i" if "i < length bl" for i
    by (rule head_bytes_entry) (use b that assms(2) in \<open>auto simp: entries_ok_def\<close>)
  then show e: "head_entries (head_bytes bl d) = bl" unfolding head_entries_def c by (intro nth_equalityI) simp_all
  show "head_ok st (head_bytes bl d)" using assms(2) b by (simp add: head_ok_def c e LOGBLOCKS_val)
qed

lemma head_ok_empty: "head_count d = 0 \<Longrightarrow> head_ok st d"
  by (simp add: head_ok_def head_entries_def entries_ok_def)

lemma log_view_empty: "head_count (disk_block im st) = 0 \<Longrightarrow> log_view st im = disk_block im"
  by (simp add: log_view_def log_map_def head_entries_def fun_eq_iff)

lemma log_map_range: "map_of (log_map st d) k = Some j \<Longrightarrow> st < j \<and> j < st + 1 + nat (head_count d)"
  by (auto simp: log_map_def dest!: map_of_SomeD set_zip_rightD)

lemma log_map_dom: "map_of (log_map st d) k = None \<longleftrightarrow> k \<notin> nat ` set (head_entries d)"
  by (simp add: log_map_def map_of_zip_is_None head_entries_def image_image)

lemma log_map_nth:
  assumes "head_ok st d" "i < length (head_entries d)"
  shows "map_of (log_map st d) (nat (head_entries d ! i)) = Some (st + 1 + i)"
proof -
  let ?ks = "map nat (head_entries d)" and ?js = "[st + 1..<st + 1 + nat (head_count d)]"
  have n: "length (head_entries d) = nat (head_count d)" by (simp add: head_entries_def)
  have "distinct ?ks" using assms(1) by (auto simp: head_ok_def entries_ok_def distinct_map inj_on_def eq_nat_nat_iff)
  moreover have "?js ! i = st + 1 + i" by (rule nth_upt) (use assms(2) n in simp)
  moreover have "length ?ks = length ?js" using n by (simp del: upt_Suc)
  ultimately show ?thesis using map_of_zip_nth[of ?ks ?js i] assms(2) unfolding log_map_def by (simp only: length_map nth_map)
qed

text \<open>Writes to home blocks that the header names, as recovery and the second half of a commit do.\<close>

lemma log_view_home:
  assumes d: "head_ok st (disk_block im st)" and ws: "fst ` set ws \<subseteq> nat ` set (head_entries (disk_block im st))"
  shows "log_view st (put_blocks ws im) k = log_view st im k" "disk_block (put_blocks ws im) st = disk_block im st"
proof -
  have home: "k < 2 ^ 31 \<and> k \<notin> log_region st" if "k \<in> nat ` set (head_entries (disk_block im st))" for k
    using d that by (auto simp: head_ok_def entries_ok_def nat_less_iff)
  have lim: "\<forall>w\<in>set ws. fst w < 2 ^ 31" "\<And>j. j \<in> log_region st \<Longrightarrow> j \<notin> fst ` set ws"
    using home ws by (meson image_eqI subsetD)+
  have st: "disk_block (put_blocks ws im) st = disk_block im st"
    by (rule disk_block_puts_other[OF lim(1) lim(2)]) (simp add: log_region_def)
  then show "disk_block (put_blocks ws im) st = disk_block im st" .
  show "log_view st (put_blocks ws im) k = log_view st im k"
  proof (cases "map_of (log_map st (disk_block im st)) k")
    case None
    then have "k \<notin> fst ` set ws" using ws unfolding log_map_dom by blast
    then show ?thesis using None st disk_block_puts_other[OF lim(1)] by (simp add: log_view_def)
  next
    case (Some j)
    then have "j \<in> log_region st" using log_map_range[OF Some] d by (auto simp: log_region_def head_ok_def)
    then show ?thesis using Some st disk_block_puts_other[OF lim(1) lim(2)] by (simp add: log_view_def)
  qed
qed

text \<open>Writes to log blocks while the header is empty, as the first half of a commit does.\<close>

lemma log_view_log:
  assumes "head_count (disk_block im st) = 0" "fst ` set ws \<subseteq> {st + 1..st + LOGBLOCKS}" "st + LOGBLOCKS < 2 ^ 31" "k \<notin> log_region st"
  shows "log_view st (put_blocks ws im) k = disk_block im k" "disk_block (put_blocks ws im) st = disk_block im st"
proof -
  have lim: "\<forall>w\<in>set ws. fst w < 2 ^ 31" "st \<notin> fst ` set ws" "k \<notin> fst ` set ws" using assms by (auto simp: log_region_def)
  show st: "disk_block (put_blocks ws im) st = disk_block im st" by (rule disk_block_puts_other[OF lim(1,2)])
  then show "log_view st (put_blocks ws im) k = disk_block im k"
    using assms(1) disk_block_puts_other[OF lim(1,3)] by (simp add: log_view_empty)
qed

text \<open>The header that names blocks: the log blocks written before it become the blocks that the image stands for.\<close>

lemma log_view_header:
  assumes st: "st + LOGBLOCKS < 2 ^ 31" and bl: "entries_ok st bl" and d: "length d = BSIZE"
    and im: "im' = put_blocks (log_writes st (map nat bl) f @ [(st, head_bytes bl d)]) im" and k: "k \<notin> log_region st"
  shows "log_view st im' k = (if k \<in> nat ` set bl then f k else disk_block im k)" "disk_block im' st = head_bytes bl d"
proof -
  let ?ks = "map nat bl" and ?W = "log_writes st (map nat bl) f"
  note h = head_bytes_read[OF d bl]
  have n: "length bl \<le> LOGBLOCKS" using bl by (simp add: entries_ok_def)
  have lim: "\<forall>w\<in>set ?W. fst w < 2 ^ 31" using imageI[of _ "set ?W" fst] n st unfolding fst_log_writes by fastforce
  have db: "disk_block im' j = (if j = st then head_bytes bl d else disk_block (put_blocks ?W im) j)" for j
    using st by (simp add: im disk_block_put)
  then show hd: "disk_block im' st = head_bytes bl d" by simp
  show "log_view st im' k = (if k \<in> nat ` set bl then f k else disk_block im k)"
  proof (cases "k \<in> nat ` set bl")
    case True
    then obtain i where i: "i < length bl" "k = ?ks ! i" by (auto simp: in_set_conv_nth)
    have "map_of (log_map st (head_bytes bl d)) k = Some (st + 1 + i)"
      using log_map_nth[OF h(3), of i] i unfolding h by simp
    moreover have "disk_block im' (st + 1 + i) = f (?ks ! i)"
    proof -
      have "(st + 1 + i, f (?ks ! i)) \<in> set ?W" using i(1) by (auto simp: log_writes_def)
      then have "map_of ?W (st + 1 + i) = Some (f (?ks ! i))" using distinct_log_writes by (rule map_of_is_SomeI[rotated])
      then show ?thesis using disk_block_puts[OF lim distinct_log_writes] by (simp add: db)
    qed
    ultimately show ?thesis using True i(2) by (simp add: log_view_def hd)
  next
    case False
    then have "map_of (log_map st (head_bytes bl d)) k = None" unfolding log_map_dom h .
    moreover have "k \<notin> fst ` set ?W" "k \<noteq> st" using k n unfolding fst_log_writes by (auto simp: log_region_def)
    ultimately show ?thesis using False disk_block_puts_other[OF lim] by (simp add: log_view_def hd db)
  qed
qed

section \<open>Commit\<close>

text \<open>A transaction that is ready to commit: its blocks are pinned in the cache and the log on the disk is empty.\<close>

definition commit_ready :: "nat \<Rightarrow> 'z log_machine_scheme \<Rightarrow> bool" where
  "commit_ready p s \<longleftrightarrow> quiet p s \<and> log_ok s \<and> (\<forall>k\<in>set (logged s). 0 < refs s k) \<and> 0 < lh_n s
     \<and> head_count (disk_block (disk_img s) (log_base s)) = 0"

text \<open>The blocks of the disk as the transaction leaves them.\<close>

definition after_trans :: "'z log_machine_scheme \<Rightarrow> blk \<Rightarrow> u8 list" where
  "after_trans s k = (if k \<in> set (logged s) then content s k else disk_block (disk_img s) k)"

lemma puts_each:
  assumes "distinct ks" "\<forall>k\<in>set ks. k < 2 ^ 31"
  shows "disk_block (put_blocks (map (\<lambda>k. (k, f k)) ks) im) k = (if k \<in> set ks then f k else disk_block im k)"
proof -
  have "map_of (map (\<lambda>k. (k, f k)) ks) k = (if k \<in> set ks then Some (f k) else None)" by (induction ks) auto
  then show ?thesis using assms by (subst disk_block_puts) (auto simp: comp_def)
qed

lemma home_puts:
  assumes "entries_ok st bl"
  shows "disk_block (put_blocks (map (\<lambda>k. (k, f k)) (map nat bl)) im) k = (if k \<in> nat ` set bl then f k else disk_block im k)"
proof -
  have "distinct (map nat bl)" "\<forall>k\<in>set (map nat bl). k < 2 ^ 31"
    using assms by (auto simp: entries_ok_def distinct_map inj_on_def eq_nat_nat_iff nat_less_iff)
  from puts_each[OF this, of f im k] show ?thesis by (simp only: set_map)
qed

lemma region_writes:
  assumes "st + LOGBLOCKS < 2 ^ 31" "length bl \<le> LOGBLOCKS"
  shows "\<forall>w\<in>set (log_writes st (map nat bl) f @ [(st, h)]). fst w < 2 ^ 31"
    "fst ` set (log_writes st (map nat bl) f @ [(st, h)]) \<subseteq> log_region st"
proof -
  show s: "fst ` set (log_writes st (map nat bl) f @ [(st, h)]) \<subseteq> log_region st"
    using assms(2) by (auto simp: log_writes_def log_region_def)
  show "\<forall>w\<in>set (log_writes st (map nat bl) f @ [(st, h)]). fst w < 2 ^ 31"
    using assms by (auto simp: log_writes_def)
qed

lemma commit_clears:
  assumes "st + LOGBLOCKS < 2 ^ 31" "entries_ok st bl" "length (f st) = BSIZE"
  shows "head_count (disk_block (put_blocks (commit_writes st bl f) im) st) = 0"
  using assms head_bytes_read(1)[of "head_bytes bl (f st)" st "[]"] head_bytes_length[of bl "f st"]
  by (simp add: commit_writes_def disk_block_put entries_ok_def LOGBLOCKS_val BSIZE_def)

lemma commit_prefix:
  assumes st: "st + LOGBLOCKS < 2 ^ 31" and bl: "entries_ok st bl" and f: "length (f st) = BSIZE"
    and em: "head_count (disk_block im st) = 0" and k: "k \<notin> log_region st"
  shows "log_view st (put_blocks (take j (commit_writes st bl f)) im) k =
     (if length bl < j \<and> k \<in> nat ` set bl then f k else disk_block im k)"
    "head_ok st (disk_block (put_blocks (take j (commit_writes st bl f)) im) st)"
proof -
  let ?W = "log_writes st (map nat bl) f" and ?Hm = "map (\<lambda>k. (k, f k)) (map nat bl)" and ?h = "head_bytes bl (f st)"
  have n: "length bl \<le> LOGBLOCKS" using bl by (simp add: entries_ok_def)
  have lW: "length ?W = length bl" by (simp add: log_writes_def)
  define im1 where "im1 = put_blocks (?W @ [(st, ?h)]) im"
  note hd = log_view_header[OF st bl f im1_def k] and hr = head_bytes_read[OF f bl]
  have home: "fst ` set (take i ?Hm) \<subseteq> nat ` set (head_entries (disk_block im1 st))" for i
    unfolding hd(2) hr(2) using set_take_subset[of i ?Hm] by fastforce
  have ok1: "head_ok st (disk_block im1 st)" unfolding hd(2) by (rule hr(3))
  consider (log) "j \<le> length bl" | (mid) "length bl < j" "j \<le> 1 + 2 * length bl" | (full) "1 + 2 * length bl < j" by linarith
  then have "log_view st (put_blocks (take j (commit_writes st bl f)) im) k =
     (if length bl < j \<and> k \<in> nat ` set bl then f k else disk_block im k) \<and> head_ok st (disk_block (put_blocks (take j (commit_writes st bl f)) im) st)"
  proof cases
    case log
    have "fst ` set (take j ?W) \<subseteq> fst ` set ?W" by (rule image_mono[OF set_take_subset])
    also have "\<dots> \<subseteq> {st + 1..st + LOGBLOCKS}" unfolding fst_log_writes using n by auto
    finally have "fst ` set (take j ?W) \<subseteq> {st + 1..st + LOGBLOCKS}" .
    then show ?thesis using log lW log_view_log[OF em _ st k, of "take j ?W"] head_ok_empty[OF em]
      by (simp add: commit_writes_def)
  next
    case mid
    define i where "i = j - Suc (length bl)"
    then have j: "j = length bl + Suc i" "i \<le> length bl" using mid by linarith+
    have "take j (commit_writes st bl f) = (?W @ [(st, ?h)]) @ take i ?Hm"
      using j lW by (simp add: commit_writes_def)
    then have "put_blocks (take j (commit_writes st bl f)) im = put_blocks (take i ?Hm) im1"
      by (simp only: im1_def put_blocks_simps(3))
    then show ?thesis using log_view_home[OF ok1 home] hd(1) mid(1) ok1 by simp
  next
    case full
    then have "take j (commit_writes st bl f) = (?W @ [(st, ?h)]) @ ?Hm @ [(st, head_bytes [] ?h)]"
      using lW by (simp add: commit_writes_def)
    then have im': "put_blocks (take j (commit_writes st bl f)) im = put_block st (head_bytes [] ?h) (put_blocks ?Hm im1)" (is "_ = ?im")
      by (simp only: im1_def put_blocks_simps)
    have st31: "st < 2 ^ 31" "k \<noteq> st" using st k by (auto simp: log_region_def)
    have em': "head_count (disk_block ?im st) = 0"
      using head_bytes_read(1)[of ?h st "[]"] head_bytes_length[of bl "f st"] f n st31
      by (simp add: disk_block_put entries_ok_def LOGBLOCKS_val BSIZE_def)
    have "disk_block im1 k = disk_block im k"
      unfolding im1_def by (rule disk_block_puts_other) (use region_writes[OF st n, of f ?h] k in auto)
    then have "disk_block (put_blocks ?Hm im1) k = (if k \<in> nat ` set bl then f k else disk_block im k)"
      using home_puts[OF bl, of f im1 k] by simp
    then show ?thesis using full em' head_ok_empty[OF em'] st31 unfolding im'
      by (simp add: log_view_empty disk_block_put)
  qed
  then show "log_view st (put_blocks (take j (commit_writes st bl f)) im) k =
     (if length bl < j \<and> k \<in> nat ` set bl then f k else disk_block im k)"
    "head_ok st (disk_block (put_blocks (take j (commit_writes st bl f)) im) st)" by blast+
qed

lemma commit_crash:
  assumes "commit_ready p s"
  shows "\<exists>s'. commit s = Ok () s' \<and> quiet p s' \<and> outside s' = (outside s)\<lparr>lh_n := 0\<rparr>
     \<and> refs s' = (\<lambda>k. refs s k - (if k \<in> set (logged s) then 1 else 0))
     \<and> head_count (disk_block (disk_img s') (log_base s)) = 0
     \<and> (\<forall>k. k \<notin> log_region (log_base s) \<longrightarrow> disk_block (disk_img s') k = after_trans s k)
     \<and> (\<forall>i\<ge>length (img_writes (disk_img s)). head_ok (log_base s) (disk_block (crash_at i (disk_img s')) (log_base s))
        \<and> (\<forall>k. k \<notin> log_region (log_base s) \<longrightarrow> log_view (log_base s) (crash_at i (disk_img s')) k =
            (if i \<le> length (img_writes (disk_img s)) + length (logged s) then disk_block (disk_img s) k else after_trans s k)))"
proof -
  let ?st = "log_base s" and ?im = "disk_img s" and ?W = "commit_writes (log_base s) (lh_entries s) (content s)"
  have c: "quiet p s" "log_ok s" "\<forall>k\<in>set (logged s). 0 < refs s k" "0 < lh_n s" "head_count (disk_block ?im ?st) = 0"
    using assms by (simp_all add: commit_ready_def)
  note e = log_ok_entries[OF c(2)]
  obtain s' where s': "commit s = Ok () s'" "cache_ok p s'" and v: "bio_view s' = (write_thru ?W (bio_view s))\<lparr>
        v_refs := (\<lambda>k. refs s k - (if k \<in> set (logged s) then 1 else 0)), v_rest := (outside s)\<lparr>lh_n := 0\<rparr>\<rparr>"
    using commit_run[OF c(1-4)] by blast
  have im: "disk_img s' = put_blocks ?W ?im" using arg_cong[OF v, of v_img] by simp
  have rf: "refs s' = (\<lambda>k. refs s k - (if k \<in> set (logged s) then 1 else 0))" "outside s' = (outside s)\<lparr>lh_n := 0\<rparr>"
    using arg_cong[OF v, of v_refs] arg_cong[OF v, of v_rest] by simp_all
  have len: "length (content s ?st) = BSIZE" using content_length[OF quietD(1)[OF c(1)]] e(7) by simp
  have nk: "?st + LOGBLOCKS + 1 \<notin> log_region ?st" by (simp add: log_region_def)
  have "head_ok ?st (disk_block (crash_at i (disk_img s')) ?st) \<and> (\<forall>k. k \<notin> log_region ?st \<longrightarrow> log_view ?st (crash_at i (disk_img s')) k =
            (if i \<le> length (img_writes ?im) + length (logged s) then disk_block ?im k else after_trans s k))"
    if i: "length (img_writes ?im) \<le> i" for i
  proof -
    define j where "j = i - length (img_writes ?im)"
    have "crash_at i (disk_img s') = put_blocks (take j ?W) ?im"
      using i crash_at_put_blocks[of ?im j ?W] unfolding im j_def by simp
    moreover have "length (lh_entries s) < j \<longleftrightarrow> \<not> i \<le> length (img_writes ?im) + length (logged s)"
      using i e(1) length_logged[OF c(2)] unfolding j_def by linarith
    moreover have "nat ` set (lh_entries s) = set (logged s)" unfolding e(9)[symmetric] by simp
    ultimately show ?thesis
      using commit_prefix(2)[where f = "content s", OF e(7,8) len c(5) nk, of j]
        commit_prefix(1)[where f = "content s", OF e(7,8) len c(5), of _ j] by (simp add: after_trans_def)
  qed
  moreover have em: "head_count (disk_block (disk_img s') ?st) = 0" unfolding im by (rule commit_clears[where f = "content s", OF e(7,8) len])
  moreover have "disk_block (disk_img s') k = after_trans s k" if "k \<notin> log_region ?st" for k
    using commit_prefix(1)[where f = "content s", OF e(7,8) len c(5) that, of "length ?W"] log_view_empty[OF em] e(1) e(9)[symmetric]
    by (simp add: im after_trans_def) (simp add: commit_writes_def log_writes_def)
  moreover have "quiet p s'" by (rule quiet_view[OF c(1) s'(2)]) (simp_all add: v)
  ultimately show ?thesis using s' rf by auto
qed

section \<open>Recovery\<close>

text \<open>A machine that boots: nothing is referenced in the cache.\<close>

definition rebooted :: "nat \<Rightarrow> blk \<Rightarrow> 'z log_machine_scheme \<Rightarrow> bool" where
  "rebooted p st s \<longleftrightarrow> quiet p s \<and> (\<forall>k. refs s k = 0) \<and> length (lh_block s) = LOGBLOCKS \<and> st + LOGBLOCKS < 2 ^ 31"

lemma outside_log [simp]:
  "log_start (outside s) = log_start s" "log_dev (outside s) = log_dev s" "lh_n (outside s) = lh_n s" "lh_block (outside s) = lh_block s"
  by (simp_all add: outside_def)

text \<open>After \<^verbatim>\<open>read_head\<close> the log in memory is the log on the disk.\<close>

lemma recover_head:
  assumes q: "quiet p s" and st: "log_dev s = 1" "log_start s = int st" "st + LOGBLOCKS < 2 ^ 31" and bl: "length (lh_block s) = LOGBLOCKS"
    and d: "head_ok st (content s st)"
  shows "\<exists>s'. read_head s = Ok () s' \<and> quiet p s' \<and> log_ok s' \<and> log_base s' = st \<and> lh_entries s' = head_entries (content s st)
     \<and> content s' = content s \<and> refs s' = refs s \<and> disk_img s' = disk_img s \<and> length (lh_block s') = LOGBLOCKS"
proof -
  have b: "log_base s = st" using st(2) by (simp add: log_base_def)
  have n: "0 \<le> head_count (content s st)" "head_count (content s st) \<le> int LOGBLOCKS" "entries_ok st (head_entries (content s st))"
    using d by (simp_all add: head_ok_def)
  obtain s' where s': "read_head s = Ok () s'" "cache_ok p s'" and v: "bio_view s' = (bio_view s)\<lparr>v_rest := (outside s)\<lparr>
       lh_n := head_count (content s st), lh_block := head_entries (content s st) @ drop (nat (head_count (content s st))) (lh_block s)\<rparr>\<rparr>"
    using read_head_run[OF q st(1) _ _ bl] st n(2) b by auto
  have l: "lh_n s' = head_count (content s st)" "lh_block s' = head_entries (content s st) @ drop (nat (head_count (content s st))) (lh_block s)"
    "log_start s' = int st" "log_dev s' = 1"
    using arg_cong[OF v, of "\<lambda>x. lh_n (v_rest x)"] arg_cong[OF v, of "\<lambda>x. lh_block (v_rest x)"]
      arg_cong[OF v, of "\<lambda>x. log_start (v_rest x)"] arg_cong[OF v, of "\<lambda>x. log_dev (v_rest x)"] st by simp_all
  have le: "length (head_entries (content s st)) = nat (head_count (content s st))" by (simp add: head_entries_def)
  have "quiet p s'" by (rule quiet_view[OF q s'(2)]) (simp_all add: v)
  moreover have "log_base s' = st" using l(3) by (simp add: log_base_def)
  moreover have "length (lh_block s') = LOGBLOCKS" "lh_entries s' = head_entries (content s st)" using l le n bl by auto
  moreover have "log_ok s'" using calculation l n st(3) by (simp add: log_ok_def)
  ultimately show ?thesis using s'(1) arg_cong[OF v, of v_data] arg_cong[OF v, of v_refs] arg_cong[OF v, of v_img] by auto
qed

lemma recover_run:
  assumes r: "rebooted p st s" "head_ok st (disk_block (disk_img s) st)"
  shows "\<exists>s'. initlog 1 (of_nat st) s = Ok () s' \<and> quiet p s' \<and> log_ok s' \<and> lh_n s' = 0 \<and> log_base s' = st \<and> (\<forall>k. refs s' k = 0)
     \<and> disk_img s' = put_blocks (map (\<lambda>k. (k, log_view st (disk_img s) k)) (map nat (head_entries (disk_block (disk_img s) st)))
            @ [(st, head_bytes [] (disk_block (disk_img s) st))]) (disk_img s)"
proof -
  let ?im = "disk_img s" and ?d = "disk_block (disk_img s) st"
  have a: "quiet p s" "\<And>k. refs s k = 0" "length (lh_block s) = LOGBLOCKS" "st + LOGBLOCKS < 2 ^ 31" "head_ok st ?d"
    using r by (simp_all add: rebooted_def)
  have ct: "content s k = disk_block ?im k" for k by (rule content_clean[OF quietD(1)[OF a(1)] a(2)])
  let ?t = "s\<lparr>hart := unlock Llog ''log'' (hart s), log_start := int st, log_dev := 1\<rparr>"
  have "disk_ready p ?t" using cache_okD(1)[OF quietD(1)[OF a(1)]] by (simp add: disk_ready_def solo_def can_print_def)
  note t = quiet_cong[OF a(1) this]
  have t: "quiet p ?t" "content ?t = content s" "refs ?t = refs s" by (rule t; simp)+
  obtain u where u: "read_head ?t = Ok () u" "quiet p u" "log_ok u" "log_base u = st" "lh_entries u = head_entries ?d" "content u = content s"
    "refs u = refs s" "disk_img u = ?im" "length (lh_block u) = LOGBLOCKS"
    using recover_head[OF t(1) _ _ a(4)] a(3,5) t ct by auto
  have "Suc (in_use (bio_view u)) < NBUF" using u(7) a(2) by (simp add: in_use_def LOGBLOCKS_val)
  then obtain v where v: "install_trans True u = Ok () v" "cache_ok p v" "bio_view v = write_thru (home_writes st (logged u) (content s)) (bio_view u)"
    using install_trans_recover[OF u(2,3)] u(4,6) by auto
  note f = quiet_write_thru[OF u(2) v(2,3)] and fl = log_frame[OF quiet_write_thru(5)[OF u(2) v(2,3)]]
  have lg: "logged u = map nat (head_entries ?d)" using u(5) by (simp add: logged_def)
  note c = set_count_run[OF f(1), of 0]
  have lc: "log_ok (v\<lparr>lh_n := 0\<rparr>)" using log_ok_cleared[of v] fl(1) u(3) by simp
  have bc: "log_base (v\<lparr>lh_n := 0\<rparr>) = st" using fl(3) u(4) by (simp add: log_base_def)
  obtain w where w: "write_head (v\<lparr>lh_n := 0\<rparr>) = Ok () w" "cache_ok p w"
    "bio_view w = write_thru [(st, head_bytes [] (content v st))] (bio_view (v\<lparr>lh_n := 0\<rparr>))"
    using write_head_run[OF c(1) lc] bc c(3) by auto
  note g = quiet_write_thru[OF c(1) w(2,3)]
  note gl = log_frame[OF g(5)] log_fields[OF g(5)]
  have "content v st = ?d" unfolding f(3) u(6) ct[symmetric]
    by (rule upds_other) (use base_not_home[OF u(3)] u(4) in \<open>force simp: home_writes_def\<close>)
  moreover have "home_writes st (logged u) (content s) = map (\<lambda>k. (k, log_view st ?im k)) (logged u)"
    by (rule nth_equalityI) (use log_map_nth[OF a(5)] in \<open>simp_all add: home_writes_def lg log_view_def ct\<close>)
  ultimately have im: "disk_img w = put_blocks (map (\<lambda>k. (k, log_view st ?im k)) (map nat (head_entries ?d)) @ [(st, head_bytes [] ?d)]) ?im"
    using g(4) f(4) u(8) lg by simp
  have "initlog 1 (of_nat st) s = Ok () w"
    using u(1) v(1) w(1) sint_small[of "int st"] a(4)
    by (simp add: initlog_def recover_from_log_def run_kthen initlock_run LOGBLOCKS_val BSIZE_def)
  then show ?thesis using g(1,2) gl lc bc im c(4) f(2) u(7) a(2) by auto
qed

text \<open>Every prefix of the writes of recovery stands for what the disk stood for when it began.\<close>

lemma recover_prefix:
  assumes st: "st + LOGBLOCKS < 2 ^ 31" and d: "head_ok st (disk_block im st)" and len: "length (disk_block im st) = BSIZE" and k: "k \<notin> log_region st"
    and W: "W = map (\<lambda>k. (k, log_view st im k)) (map nat (head_entries (disk_block im st))) @ [(st, head_bytes [] (disk_block im st))]"
  shows "log_view st (put_blocks (take j W) im) k = log_view st im k" "head_ok st (disk_block (put_blocks (take j W) im) st)"
    "disk_block (put_blocks W im) k = log_view st im k" "head_count (disk_block (put_blocks W im) st) = 0"
proof -
  let ?d = "disk_block im st"
  let ?H = "map (\<lambda>k. (k, log_view st im k)) (map nat (head_entries ?d))"
  have en: "entries_ok st (head_entries ?d)" using d by (simp add: head_ok_def)
  have st31: "st < 2 ^ 31" "k \<noteq> st" using st k by (auto simp: log_region_def)
  show em: "head_count (disk_block (put_blocks W im) st) = 0"
    using head_bytes_read(1)[of ?d st "[]"] len st31 by (simp add: W disk_block_put entries_ok_def)
  have "log_view st im k = disk_block im k" if "k \<notin> nat ` set (head_entries ?d)"
    using that log_map_dom[of st ?d k] by (simp add: log_view_def)
  then show dk: "disk_block (put_blocks W im) k = log_view st im k"
    using home_puts[OF en, of "log_view st im" im k] st31 by (simp add: W disk_block_put)
  have home: "fst ` set (take j ?H) \<subseteq> nat ` set (head_entries ?d)" using set_take_subset[of j ?H] by fastforce
  consider "take j W = take j ?H" | "take j W = W" by (cases "j \<le> length ?H") (auto simp: W)
  then have "log_view st (put_blocks (take j W) im) k = log_view st im k \<and> head_ok st (disk_block (put_blocks (take j W) im) st)"
  proof cases
    case 1
    then show ?thesis using log_view_home[OF d home] d by simp
  next
    case 2
    then show ?thesis using em dk head_ok_empty[OF em] by (simp add: log_view_empty)
  qed
  then show "log_view st (put_blocks (take j W) im) k = log_view st im k" "head_ok st (disk_block (put_blocks (take j W) im) st)" by blast+
qed

lemma recover_crash:
  assumes r: "rebooted p st s" "head_ok st (disk_block (disk_img s) st)"
  shows "\<exists>s'. initlog 1 (of_nat st) s = Ok () s' \<and> quiet p s' \<and> log_ok s' \<and> lh_n s' = 0 \<and> log_base s' = st
     \<and> (\<forall>k. refs s' k = 0) \<and> head_count (disk_block (disk_img s') st) = 0
     \<and> (\<forall>k. k \<notin> log_region st \<longrightarrow> disk_block (disk_img s') k = log_view st (disk_img s) k)
     \<and> (\<forall>i\<ge>length (img_writes (disk_img s)). head_ok st (disk_block (crash_at i (disk_img s')) st)
        \<and> (\<forall>k. k \<notin> log_region st \<longrightarrow> log_view st (crash_at i (disk_img s')) k = log_view st (disk_img s) k))"
proof -
  let ?im = "disk_img s"
  define W where "W = map (\<lambda>k. (k, log_view st ?im k)) (map nat (head_entries (disk_block ?im st))) @ [(st, head_bytes [] (disk_block ?im st))]"
  have st: "st + LOGBLOCKS < 2 ^ 31" "quiet p s" using r(1) by (simp_all add: rebooted_def)
  have len: "length (disk_block ?im st) = BSIZE" using cache_okD(4)[OF quietD(1)[OF st(2)]] st(1) by (simp add: disk_block_def)
  obtain s' where s': "initlog 1 (of_nat st) s = Ok () s'" "quiet p s'" "log_ok s'" "lh_n s' = 0" "log_base s' = st" "\<forall>k. refs s' k = 0"
    and im: "disk_img s' = put_blocks W ?im" using recover_run[OF r] unfolding W_def by blast
  note pre = recover_prefix[OF st(1) r(2) len _ W_def]
  have nk: "st + LOGBLOCKS + 1 \<notin> log_region st" by (simp add: log_region_def)
  have "crash_at i (disk_img s') = put_blocks (take (i - length (img_writes ?im)) W) ?im" if "length (img_writes ?im) \<le> i" for i
    using that crash_at_put_blocks[of ?im "i - length (img_writes ?im)" W] unfolding im by simp
  then show ?thesis using s' pre(1) pre(2,4)[OF nk] pre(3) by (intro exI[of _ s']) (simp add: im)
qed

end
