(* ===== verification/Frames.thy ===== *)
theory Frames
  imports Bio
begin

text \<open>
  Which parts of the state an operation leaves alone, whatever the state it starts in: \<open>keeps G m\<close> says that
  a run of \<open>m\<close> that returns has not changed the part \<open>G\<close>. The collection \<open>keeps_intros\<close> holds the rules, by
  which \<^theory_text>\<open>intro\<close> takes a composed operation apart; the lemmas give the frames of the lock operations and of the
  calls of the scheduler that every layer above uses.
\<close>

named_theorems keeps_intros \<open>rules for parts of the state that an operation keeps\<close>

definition keeps :: "('s \<Rightarrow> 'g) \<Rightarrow> ('s, 'a) kern \<Rightarrow> bool" where
  "keeps G m \<longleftrightarrow> (\<forall>s x s'. m s = Ok x s' \<longrightarrow> G s' = G s)"

lemma keepsD: "keeps G m \<Longrightarrow> m s = Ok x s' \<Longrightarrow> G s' = G s"
  by (simp add: keeps_def)

lemma keeps_kret [keeps_intros]: "keeps G (kret x)"
  by (simp add: keeps_def kret_def)

lemma keeps_kget [keeps_intros]: "keeps G (kget f)"
  by (simp add: keeps_def)

lemma keeps_kstop [keeps_intros]: "keeps G (kstop e)"
  by (simp add: keeps_def kstop_def)

lemma keeps_kmod [keeps_intros]: "(\<And>s. G (f s) = G s) \<Longrightarrow> keeps G (kmod f)"
  by (simp add: keeps_def)

lemma keeps_kbind [keeps_intros]: "keeps G m \<Longrightarrow> (\<And>x. keeps G (f x)) \<Longrightarrow> keeps G (kbind m f)"
  by (fastforce simp: keeps_def run_kbind split: result.splits)

lemma keeps_kthen [keeps_intros]: "keeps G m \<Longrightarrow> keeps G n \<Longrightarrow> keeps G (kthen m n)"
  by (fastforce simp: keeps_def run_kthen split: result.splits)

lemma keeps_kwhen [keeps_intros]: "keeps G m \<Longrightarrow> keeps G (kwhen b m)"
  by (simp add: keeps_def)

lemma keeps_if [keeps_intros]: "keeps G m \<Longrightarrow> keeps G n \<Longrightarrow> keeps G (if b then m else n)"
  by simp

lemma keeps_option [keeps_intros]: "keeps G m \<Longrightarrow> (\<And>x. keeps G (f x)) \<Longrightarrow> keeps G (case x of None \<Rightarrow> m | Some y \<Rightarrow> f y)"
  by (cases x) simp_all

lemma keeps_prod [keeps_intros]: "(\<And>x y. keeps G (f x y)) \<Longrightarrow> keeps G (case p of (x, y) \<Rightarrow> f x y)"
  by (cases p) simp

lemma keeps_kfor [keeps_intros]: "(\<And>i. keeps G (f i)) \<Longrightarrow> keeps G (kfor xs f)"
  by (induction xs) (simp_all add: keeps_kret keeps_kthen)

lemma keeps_kseq [keeps_intros]: "(\<And>m. m \<in> set ms \<Longrightarrow> keeps G m) \<Longrightarrow> keeps G (kseq ms)"
  by (induction ms) (simp_all add: keeps_kret keeps_kthen)

section \<open>Locks, processes, and the console\<close>

text \<open>
  A part of the state in the layers above the buffer cache: it depends on none of the fields that the cache, the driver
  and what they call write.
\<close>

definition upper :: "('z disk_machine_scheme \<Rightarrow> 'g) \<Rightarrow> bool" where
  "upper G \<longleftrightarrow> (\<forall>s h c P sl v b i m. G (s\<lparr>hart := h\<rparr>) = G s \<and> G (s\<lparr>con := c\<rparr>) = G s \<and> G (s\<lparr>procs := P\<rparr>) = G s
     \<and> G (s\<lparr>sleeplocks := sl\<rparr>) = G s \<and> G (s\<lparr>vdisk := v\<rparr>) = G s \<and> G (s\<lparr>bufs := b\<rparr>) = G s \<and> G (s\<lparr>disk_img := i\<rparr>) = G s
     \<and> G (s\<lparr>mmio_writes := m\<rparr>) = G s)"

lemma upperD:
  assumes "upper G"
  shows "G (s\<lparr>hart := h\<rparr>) = G s" "G (s\<lparr>con := c\<rparr>) = G s" "G (s\<lparr>procs := P\<rparr>) = G s" "G (s\<lparr>sleeplocks := sl\<rparr>) = G s"
    "G (s\<lparr>vdisk := v\<rparr>) = G s" "G (s\<lparr>bufs := b\<rparr>) = G s" "G (s\<lparr>disk_img := i\<rparr>) = G s" "G (s\<lparr>mmio_writes := m\<rparr>) = G s"
  using assms by (simp_all add: upper_def)

lemmas keep_hart_defs = push_off_def pop_off_def holding_def get_lock_def cpuid_def set_lock_def test_and_set_def
  set_owner_def clear_owner_def lock_release_def intr_get_def intr_off_def intr_on_def mycpu_def set_mycpu_def kseq.simps Let_def

lemma keeps_locks:
  assumes "upper G"
  shows "keeps G (acquire lk)" "keeps G (release lk)" "keeps G push_off" "keeps G pop_off" "keeps G mycpu" "keeps G (set_mycpu f)"
    "keeps G (holding lk)" "keeps G intr_get" "keeps G (initlock lk nm)"
  unfolding acquire_def release_def initlock_def keep_hart_defs by (intro keeps_intros upperD[OF assms])+

lemma keeps_procs:
  assumes "upper G"
  shows "keeps G (get_proc i)" "keeps G (set_proc i f)" "keeps G myproc" "keeps G this_proc"
proof -
  show "keeps G (get_proc i)" "keeps G (set_proc i f)" "keeps G myproc" for i f
    unfolding get_proc_def set_proc_def myproc_def by (intro keeps_intros keeps_locks upperD assms)+
  then show "keeps G this_proc" unfolding this_proc_def by (intro keeps_intros)
qed

lemma keeps_sched:
  assumes "upper G"
  shows "keeps G (wakeup ch)" "keeps G (sleep ch lk)" "keeps G (sleep_resume i lk saved)"
  unfolding wakeup_def wake_one_def sleep_def sched_def sleep_resume_def sched_resume_def
  by (intro keeps_intros keeps_locks keeps_procs assms)+

lemma keeps_printf:
  assumes "upper G"
  shows "keeps G (printf fmt args)"
proof -
  have "keeps G (uartputc_sync c)" for c
    unfolding uartputc_sync_def by (intro keeps_intros keeps_locks upperD assms)
  then have "keeps G (consputc c)" for c
    unfolding consputc_def kseq.simps by (intro keeps_intros)
  then show ?thesis unfolding printf_def by (intro keeps_intros keeps_locks assms)
qed

lemma keeps_sleeplocks:
  assumes "upper G"
  shows "keeps G (acquiresleep i)" "keeps G (releasesleep i)" "keeps G (holdingsleep i)" "keeps G (initsleeplock i nm)"
    "keeps G (acquiresleep_resume p saved i)"
  unfolding acquiresleep_def acquiresleep_resume_def acquiresleep_loop_def releasesleep_def holdingsleep_def initsleeplock_def set_sleeplock_def
  by (intro keeps_intros keeps_locks keeps_procs keeps_sched upperD assms)+

text \<open>\<^verbatim>\<open>sched\<close>, and so \<^verbatim>\<open>sleep\<close>, never returns in the run of the thread that calls it.\<close>

lemma no_return_kbind: "(\<And>x t. f x t \<noteq> Ok y u) \<Longrightarrow> kbind m f s \<noteq> Ok y u"
  by (simp add: run_kbind split: result.split)

lemma no_return_kthen: "(\<And>t. n t \<noteq> Ok y u) \<Longrightarrow> kthen m n s \<noteq> Ok y u"
  by (simp add: run_kthen split: result.split)

lemma no_return_if: "m s \<noteq> Ok y u \<Longrightarrow> n s \<noteq> Ok y u \<Longrightarrow> (if b then m else n) s \<noteq> Ok y u"
  by simp

lemma no_return_kstop: "kstop e s \<noteq> Ok y u"
  by (simp add: kstop_def)

lemma sched_no_return: "sched s \<noteq> Ok y u"
  unfolding sched_def by (intro no_return_kbind no_return_if no_return_kstop)

lemma sleep_no_return: "sleep ch lk s \<noteq> Ok y u"
  unfolding sleep_def by (intro no_return_kbind no_return_kthen sched_no_return)

section \<open>The driver and the cache\<close>

lemma keeps_vdisk:
  assumes "upper G"
  shows "keeps G (get_buf b)" "keeps G (set_buf b f)" "keeps G (set_vdisk g)" "keeps G (reg_read r)" "keeps G (reg_write r v)"
  unfolding get_buf_def set_buf_def set_vdisk_def reg_read_def reg_write_def by (intro keeps_intros upperD assms)+

lemma keeps_free_chain:
  assumes "upper G"
  shows "keeps G (free_desc i)" "keeps G (free_chain i)"
proof -
  show d: "keeps G (free_desc i)" for i
    unfolding free_desc_def by (intro keeps_intros keeps_vdisk keeps_sched assms)
  have "keeps G (free_chain_loop n i)" for n
    by (induction n arbitrary: i) (auto intro!: keeps_intros d)
  then show "keeps G (free_chain i)" by (simp add: free_chain_def)
qed

lemma keeps_alloc3:
  assumes "upper G"
  shows "keeps G alloc3_desc"
proof -
  have "keeps G alloc_desc" unfolding alloc_desc_def by (intro keeps_intros keeps_vdisk assms)
  then show ?thesis unfolding alloc3_desc_def by (intro keeps_intros keeps_free_chain assms)
qed

lemma keeps_disk_wait:
  assumes "upper G"
  shows "keeps G (disk_wait n b)"
proof -
  have "keeps G run_device"
    unfolding run_device_def by (intro keeps_kmod) (simp add: upperD[OF assms] split: prod.split)
  moreover have "keeps G virtio_disk_intr"
    unfolding virtio_disk_intr_def intr_one_def by (intro keeps_intros keeps_locks keeps_vdisk keeps_sched assms)
  ultimately show ?thesis
    by (induction n) (auto intro!: keeps_intros keeps_locks keeps_vdisk keeps_sched assms)
qed

lemma keeps_disk_rw:
  assumes "upper G"
  shows "keeps G (virtio_disk_rw b wr)"
  unfolding virtio_disk_rw_def rw_loop_def rw_submit_def set_desc_def
  by (intro keeps_intros keeps_locks keeps_vdisk keeps_sched keeps_printf keeps_alloc3 keeps_disk_wait keeps_free_chain assms)

lemma keeps_bread:
  assumes "upper G"
  shows "keeps G (bread d n)"
proof -
  have "keeps G (scan_next n b P)" "keeps G (scan_prev n b P)" for n b P
    by (induction n arbitrary: b) (auto intro!: keeps_intros keeps_vdisk assms simp: scan_next.simps scan_prev.simps)
  then show ?thesis unfolding bread_def bget_def bread_fill_def
    by (intro keeps_intros keeps_locks keeps_vdisk keeps_sleeplocks keeps_disk_rw assms)
qed

lemma keeps_bufs:
  assumes "upper G"
  shows "keeps G (bwrite b)" "keeps G (brelse b)" "keeps G (bpin b)" "keeps G (bunpin b)"
  unfolding bwrite_def brelse_def bpin_def bunpin_def to_front_def
  by (intro keeps_intros keeps_locks keeps_vdisk keeps_sleeplocks keeps_disk_rw assms)+

end
