(* ===== verification/Transaction.thy ===== *)
theory Transaction
  imports Crash Frames
begin

text \<open>
  The transactions of \<^verbatim>\<open>kernel/log.c\<close>: \<^verbatim>\<open>begin_op\<close> reserves space in the log, \<^verbatim>\<open>log_write\<close> enters a block in the
  header and pins it, and the last \<^verbatim>\<open>end_op\<close> commits. The lemmas give the effect of each call; the theorems
  show that the reservation of \<^verbatim>\<open>begin_op\<close> keeps \<^verbatim>\<open>log_write\<close> from overrunning the log, and that a whole
  transaction has put its blocks on the disk when it returns.
\<close>

section \<open>The calls\<close>

lemma begin_op_run:
  assumes "solo p s" "\<not> log_committing s" "lh_n s + (log_outstanding s + 1) * int MAXOPBLOCKS \<le> int LOGBLOCKS"
  shows "begin_op s = Ok () (s\<lparr>hart := scrub (hart s), log_outstanding := log_outstanding s + 1\<rparr>)"
  using soloD[OF assms(1)] assms(2,3) by (simp add: begin_op_def begin_op_loop_def run_kthen run_kbind acquire_run release_run)

lemma bpin_exact:
  assumes "hart_ok (hart s)" "lock_free Lbcache (hart s)"
  shows "bpin b s = Ok () (s\<lparr>bufs := (bufs s)(b := (bufs s b)\<lparr>b_refcnt := b_refcnt (bufs s b) + 1\<rparr>), hart := scrub (hart s)\<rparr>)"
  using assms by (simp add: bpin_def run_kthen acquire_run set_buf_def release_run)

text \<open>The position that \<^verbatim>\<open>log_write\<close> chooses.\<close>

lemma absorb_index_found:
  "absorb_index bl n bno < n \<Longrightarrow> word_of_int (bl ! absorb_index bl n bno) = bno"
  by (auto simp: absorb_index_def dest: find_SomeD split: option.splits)

lemma absorb_index_le: "absorb_index bl n bno \<le> n"
  by (auto simp: absorb_index_def dest!: find_SomeD split: option.splits)

lemma absorb_index_new:
  "absorb_index bl n bno = n \<longleftrightarrow> (\<forall>i<n. word_of_int (bl ! i) \<noteq> bno)"
  by (fastforce simp: absorb_index_def find_None_iff dest!: find_SomeD split: option.splits)

lemma log_write_exact:
  assumes s: "solo p s" and n: "0 \<le> lh_n s" "lh_n s < int LOGBLOCKS" and o: "1 \<le> log_outstanding s"
    and i: "i = absorb_index (lh_block s) (nat (lh_n s)) (b_blockno (bufs s b))"
  shows "log_write b s = Ok () (if int i = lh_n s
     then s\<lparr>bufs := (bufs s)(b := (bufs s b)\<lparr>b_refcnt := b_refcnt (bufs s b) + 1\<rparr>), hart := scrub (hart s),
            lh_n := lh_n s + 1, lh_block := (lh_block s)[i := sint (b_blockno (bufs s b))]\<rparr>
     else s\<lparr>hart := scrub (hart s), lh_block := (lh_block s)[i := sint (b_blockno (bufs s b))]\<rparr>)"
proof -
  have "i < LOGBLOCKS" using absorb_index_le[of "lh_block s" "nat (lh_n s)" "b_blockno (bufs s b)"] n i by linarith
  then show ?thesis using soloD[OF s] n o i[symmetric]
    by (simp add: log_write_def run_kthen run_kbind acquire_run release_run get_buf_def lh_set_def bpin_exact)
qed

lemma word_of_int_nat31:
  assumes "0 \<le> x" "x < 2 ^ 31" "k < 2 ^ 31"
  shows "(word_of_int x :: u32) = of_nat k \<longleftrightarrow> x = int k"
proof -
  have "sint (word_of_int x :: u32) = x" by (rule sint_small) (use assms in linarith)+
  moreover have "sint (word_of_int (int k) :: u32) = int k" by (rule sint_small) (use assms(3) in simp_all)
  ultimately show ?thesis by (metis of_int_of_nat_eq)
qed

lemma entries_in_range:
  assumes "log_ok s" "i < nat (lh_n s)"
  shows "0 \<le> lh_block s ! i" "lh_block s ! i < 2 ^ 31" "nat (lh_block s ! i) = logged s ! i"
  using log_okD(7,8)[OF assms(1), of i] assms(2) by (simp_all add: length_logged[OF assms(1)])

lemma absorb_logged:
  assumes l: "log_ok s" and k: "k < 2 ^ 31" and i: "i = absorb_index (lh_block s) (nat (lh_n s)) (of_nat k)"
  shows "k \<in> set (logged s) \<Longrightarrow> i < nat (lh_n s) \<and> lh_block s ! i = int k" "k \<notin> set (logged s) \<Longrightarrow> i = nat (lh_n s)"
proof -
  have e: "(word_of_int (lh_block s ! j) :: u32) = of_nat k \<longleftrightarrow> logged s ! j = k" if "j < nat (lh_n s)" for j
    using word_of_int_nat31[OF entries_in_range(1,2)[OF l that] k] entries_in_range[OF l that] by auto
  have iff: "k \<in> set (logged s) \<longleftrightarrow> i \<noteq> nat (lh_n s)"
    unfolding i absorb_index_new in_set_conv_nth length_logged[OF l] using e by blast
  then show "k \<notin> set (logged s) \<Longrightarrow> i = nat (lh_n s)" by blast
  assume "k \<in> set (logged s)"
  then have "i < nat (lh_n s)" using iff absorb_index_le[of "lh_block s" "nat (lh_n s)" "of_nat k"] i by simp
  moreover from this have "word_of_int (lh_block s ! i) = (of_nat k :: u32)" using absorb_index_found i by blast
  ultimately show "i < nat (lh_n s) \<and> lh_block s ! i = int k" using e[of i] entries_in_range[OF l, of i] by auto
qed

text \<open>The header after a block has been entered.\<close>

lemma log_ok_append:
  assumes l: "log_ok s" and n: "lh_n s < int LOGBLOCKS" and k: "k < 2 ^ 31" "k \<notin> log_region (log_base s)" "k \<notin> set (logged s)"
    and t: "lh_n t = lh_n s + 1" "lh_block t = (lh_block s)[nat (lh_n s) := int k]" "log_start t = log_start s" "log_dev t = log_dev s"
  shows "log_ok t" "logged t = logged s @ [k]"
proof -
  note e = log_ok_entries[OF l]
  have len: "length (lh_block s) = LOGBLOCKS" using l by (simp add: log_ok_def)
  have "nat (lh_n s + 1) = Suc (nat (lh_n s))" using e(3) by simp
  then have tk: "lh_entries t = lh_entries s @ [int k]"
    using t(1,2) n len e(3) by (simp add: take_Suc_conv_app_nth)
  then show "logged t = logged s @ [k]" by (simp add: logged_def)
  have "int k \<notin> set (lh_entries s)" using k(3) e(9) by (metis image_eqI list.set_map nat_int)
  then have "entries_ok (log_base s) (lh_entries t)"
    using e(8) k n e(1,3) unfolding tk entries_ok_def by auto
  moreover have "log_base t = log_base s" using t(3) by (simp add: log_base_def)
  ultimately show "log_ok t" using l n t len by (simp add: log_ok_def)
qed

lemma log_write_run:
  assumes ok: "cache_ok p s" and h: "v_held (bio_view s) k = Some b" and l: "log_ok s" and n: "lh_n s < int LOGBLOCKS"
    and o: "1 \<le> log_outstanding s" and k: "k \<notin> log_region (log_base s)" and r: "refs s k < 2 ^ 32 - 1"
  shows "\<exists>s'. log_write b s = Ok () s' \<and> cache_ok p s' \<and> log_ok s' \<and> logged s' = (if k \<in> set (logged s) then logged s else logged s @ [k])
     \<and> bio_view s' = (bio_view s)\<lparr>v_refs := (if k \<in> set (logged s) then refs s else (refs s)(k := refs s k + 1)),
          v_rest := (outside s)\<lparr>lh_n := lh_n s', lh_block := lh_block s'\<rparr>\<rparr>"
proof -
  note v = blocked_valid[OF ok heldD[OF h]] and so = solo_ready[OF cache_okD(1)[OF ok]] and n0 = log_ok_entries(3)[OF l]
  define i where "i = absorb_index (lh_block s) (nat (lh_n s)) (b_blockno (bufs s b))"
  note ex = log_write_exact[OF so n0 n o i_def] and ab = absorb_logged[OF l v(9) i_def[unfolded v(11)]]
  have bno: "sint (b_blockno (bufs s b)) = int k" using v(9,11) sint_small[of "int k"] by simp
  show ?thesis
  proof (cases "k \<in> set (logged s)")
    case True
    let ?s = "s\<lparr>hart := scrub (hart s)\<rparr>"
    have i: "int i \<noteq> lh_n s" "(lh_block s)[i := int k] = lh_block s" using ab(1)[OF True] list_update_id[of "lh_block s" i] by auto
    have run: "log_write b s = Ok () ?s" using ex i bno by simp
    have "cache_ok p ?s" using cache_ok_cong[OF ok, of ?s] ready_upd(1)[OF cache_okD(1)[OF ok], of "bufs s"] by simp
    moreover have "outside ?s = outside s" by (simp add: outside_def)
    moreover from this have "log_ok ?s" "logged ?s = logged s" "bio_view ?s = (bio_view s)\<lparr>v_rest := outside s\<rparr>"
      using log_frame[of ?s s] bio_view_cong[of ?s s] l by simp_all
    moreover have "(outside s)\<lparr>lh_n := lh_n s, lh_block := lh_block s\<rparr> = outside s" by (simp add: outside_def)
    ultimately show ?thesis using run True by (intro exI[of _ ?s]) (simp add: bio_view_def)
  next
    case False
    let ?u = "s\<lparr>bufs := (bufs s)(b := (bufs s b)\<lparr>b_refcnt := b_refcnt (bufs s b) + 1\<rparr>), hart := scrub (hart s)\<rparr>"
    let ?s = "?u\<lparr>lh_n := lh_n s + 1, lh_block := (lh_block s)[i := int k]\<rparr>"
    have i: "i = nat (lh_n s)" by (rule ab(2)[OF False])
    have run: "log_write b s = Ok () ?s" using ex i n0 bno by simp
    have u: "cache_ok p ?u" "bio_view ?u = (bio_view s)\<lparr>v_refs := (refs s)(k := refs s k + 1)\<rparr>"
      using bio.pin_law[OF ok h] bpin_exact[of s b] soloD[OF so] r by simp_all
    have "disk_ready p ?s" using disk_ready_cong[OF cache_okD(1)[OF ok], of ?s] cache_okD(1)[OF ok] by (simp add: disk_ready_def)
    then have "cache_ok p ?s" using cache_ok_cong[OF u(1), of ?s] by simp
    moreover have "bio_view ?s = (bio_view ?u)\<lparr>v_rest := outside ?s\<rparr>" by (rule bio_view_cong) simp_all
    moreover have "outside ?s = (outside s)\<lparr>lh_n := lh_n s + 1, lh_block := (lh_block s)[i := int k]\<rparr>" by (simp add: outside_def)
    moreover have "log_ok ?s" "logged ?s = logged s @ [k]" using log_ok_append[OF l n v(9) k False, of ?s] i by simp_all
    ultimately show ?thesis using run False u(2) by (intro exI[of _ ?s]) simp
  qed
qed

section \<open>A whole transaction\<close>

text \<open>
  A block changed the way the comment above \<^verbatim>\<open>log_write\<close> describes: read, modified, given to the log, released. A
  transaction changes some blocks between \<^verbatim>\<open>begin_op\<close> and \<^verbatim>\<open>end_op\<close>.
\<close>

definition update_block :: "blk \<times> (u8 list \<Rightarrow> u8 list) \<Rightarrow> ('z log_machine_scheme, unit) kern" where
  "update_block = (\<lambda>(k, f). kbind (root_bread k) (\<lambda>b. kthen (buf_edit b f) (kthen (log_write b) (brelse b))))"

definition transaction :: "(blk \<times> (u8 list \<Rightarrow> u8 list)) list \<Rightarrow> ('z log_machine_scheme, unit) kern" where
  "transaction ups = kthen begin_op (kthen (kfor ups update_block) end_op)"

text \<open>What the updates make of the blocks.\<close>

primrec updated :: "(blk \<times> (u8 list \<Rightarrow> u8 list)) list \<Rightarrow> (blk \<Rightarrow> u8 list) \<Rightarrow> blk \<Rightarrow> u8 list" where
  "updated [] g = g"
| "updated (u # us) g = updated us (g(fst u := snd u (g (fst u))))"

definition ups_ok :: "blk \<Rightarrow> (blk \<times> (u8 list \<Rightarrow> u8 list)) list \<Rightarrow> bool" where
  "ups_ok st ups \<longleftrightarrow> (\<forall>u\<in>set ups. fst u < 2 ^ 31 \<and> fst u \<notin> log_region st \<and> (\<forall>d. length d = BSIZE \<longrightarrow> length (snd u d) = BSIZE))"

text \<open>Inside a transaction: exactly the logged blocks are referenced, once each.\<close>

definition in_trans :: "nat \<Rightarrow> 'z log_machine_scheme \<Rightarrow> bool" where
  "in_trans p s \<longleftrightarrow> cache_ok p s \<and> (\<forall>k. \<not> blocked s k) \<and> log_ok s \<and> refs s = (\<lambda>k. if k \<in> set (logged s) then 1 else 0)
     \<and> log_outstanding s = 1 \<and> \<not> log_committing s"

definition log_idle :: "nat \<Rightarrow> 'z log_machine_scheme \<Rightarrow> bool" where
  "log_idle p s \<longleftrightarrow> cache_ok p s \<and> (\<forall>k. \<not> blocked s k) \<and> (\<forall>k. refs s k = 0) \<and> log_ok s \<and> lh_n s = 0 \<and> log_outstanding s = 0
     \<and> \<not> log_committing s \<and> head_count (disk_block (disk_img s) (log_base s)) = 0"

lemma in_use_logged:
  assumes "refs s = (\<lambda>k. if k \<in> set (logged s) then 1 else 0)" "log_ok s"
  shows "in_use (bio_view s) = length (logged s)"
proof -
  have "{k. 0 < v_refs (bio_view s) k} = set (logged s)" using assms(1) by simp
  then show ?thesis using distinct_card[OF distinct_logged[OF assms(2)]] by (simp add: in_use_def)
qed

lemma in_trans_quiet: "in_trans p s \<Longrightarrow> length (logged s) < NBUF \<Longrightarrow> quiet p s"
  using in_use_logged[of s] by (simp add: in_trans_def quiet_def)

lemma update_block_run:
  assumes t: "in_trans p s" and room: "length (logged s) < LOGBLOCKS" and k: "k < 2 ^ 31" "k \<notin> log_region (log_base s)"
    and f: "\<And>d. length d = BSIZE \<Longrightarrow> length (f d) = BSIZE"
  shows "\<exists>s'. update_block (k, f) s = Ok () s' \<and> in_trans p s' \<and> content s' = (content s)(k := f (content s k)) \<and> disk_img s' = disk_img s
     \<and> log_base s' = log_base s \<and> set (logged s') = insert k (set (logged s)) \<and> length (logged s') \<le> Suc (length (logged s))"
proof -
  have a: "cache_ok p s" "\<And>k. \<not> blocked s k" "log_ok s" "refs s = (\<lambda>k. if k \<in> set (logged s) then 1 else 0)"
    "log_outstanding s = 1" "\<not> log_committing s" using t by (simp_all add: in_trans_def)
  have q: "quiet p s" using in_trans_quiet[OF t] room by (simp add: LOGBLOCKS_val)
  note c = quietD[OF q]
  obtain b t where t: "root_bread k s = Ok b t" "cache_ok p t" and vt: "bio_view t = (bio_view s)\<lparr>v_refs := (refs s)(k := refs s k + 1),
      v_held := (v_held (bio_view s))(k := Some b)\<rparr>" using bio.rd_law[OF c(1) k(1) c(2,3,4)] by auto
  have ht: "v_held (bio_view t) k = Some b" "content t = content s" using arg_cong[OF vt, of v_held] arg_cong[OF vt, of v_data] by simp_all
  obtain u where u: "buf_edit b f t = Ok () u" "cache_ok p u" and vu: "bio_view u = (bio_view t)\<lparr>v_data := (v_data (bio_view t))(k := f (v_data (bio_view t) k))\<rparr>"
    using bio.edit_law[OF t(2) ht(1), of f] f content_length[OF t(2) k(1)] by auto
  have vu': "bio_view u = (bio_view s)\<lparr>v_data := (content s)(k := f (content s k)), v_refs := (refs s)(k := refs s k + 1),
      v_held := (v_held (bio_view s))(k := Some b)\<rparr>" unfolding vu bio_view_sel ht(2) unfolding vt by simp
  have ou: "outside u = outside s" using arg_cong[OF vu', of v_rest] by simp
  have ru: "refs u = (refs s)(k := refs s k + 1)" using arg_cong[OF vu', of v_refs] by simp
  note lu = log_frame[OF ou] log_fields[OF ou]
  have hu: "v_held (bio_view u) k = Some b" using vu' by simp
  have nr: "lh_n s < int LOGBLOCKS" "refs u k < 2 ^ 32 - 1"
    using room length_logged[OF a(3)] ru a(4) by auto
  obtain w where w: "log_write b u = Ok () w" "cache_ok p w" "log_ok w" and lw: "logged w = (if k \<in> set (logged s) then logged s else logged s @ [k])"
    and vw: "bio_view w = (bio_view u)\<lparr>v_refs := (if k \<in> set (logged s) then refs u else (refs u)(k := refs u k + 1)),
          v_rest := (outside u)\<lparr>lh_n := lh_n w, lh_block := lh_block w\<rparr>\<rparr>"
    using log_write_run[OF u(2) hu] nr unfolding lu by (auto simp: a k)
  have rw: "v_refs (bio_view w) = (\<lambda>j. if j = k then 2 else refs s j)" unfolding vw using ru a(4) by auto
  have hw: "v_held (bio_view w) k = Some b" using vw hu by simp
  obtain s' where s': "brelse b w = Ok () s'" "cache_ok p s'" and v': "bio_view s' = (bio_view w)\<lparr>v_refs := (v_refs (bio_view w))(k := v_refs (bio_view w) k - 1),
      v_held := (v_held (bio_view w))(k := None)\<rparr>" using bio.rel_law[OF w(2) hw] rw by auto
  have "v_held (bio_view s') = v_held (bio_view s)" unfolding v' vw using vu' held_restore[of s k k] a(2) by simp
  then have nb: "\<not> blocked s' j" for j using a(2) held_None[of s' j] held_None[of s j] by simp
  have os': "outside s' = outside w" using arg_cong[OF v', of v_rest] by simp
  have ow: "outside w = (outside s)\<lparr>lh_n := lh_n w, lh_block := lh_block w\<rparr>" using arg_cong[OF vw, of v_rest] ou by simp
  note l' = log_frame[OF os'] log_fields[OF os']
  have fw: "log_base w = log_base s" "log_outstanding w = 1" "\<not> log_committing w"
    using arg_cong[OF ow, of log_start] arg_cong[OF ow, of log_outstanding] arg_cong[OF ow, of log_committing] a(5,6)
    by (simp_all add: outside_def log_base_def)
  have "refs s' = (\<lambda>j. if j \<in> set (logged w) then 1 else 0)"
    using arg_cong[OF v', of v_refs] rw a(4) lw by auto
  then have "in_trans p s'" using s'(2) nb w(3) l' fw by (simp add: in_trans_def)
  moreover have "content s' = (content s)(k := f (content s k))" "disk_img s' = disk_img s"
    using arg_cong[OF v', of v_data] arg_cong[OF vw, of v_data] arg_cong[OF vu', of v_data]
      arg_cong[OF v', of v_img] arg_cong[OF vw, of v_img] arg_cong[OF vu', of v_img] by simp_all
  moreover have "update_block (k, f) s = Ok () s'"
    using t(1) u(1) w(1) s'(1) by (simp add: update_block_def run_kbind run_kthen)
  ultimately show ?thesis using l' fw lw by auto
qed

text \<open>Locks and the fields of the log do not matter to the cache.\<close>

lemma log_upd_ok:
  fixes s t :: "'z log_machine_scheme"
  assumes "quiet p s" "scrub (hart t) = scrub (hart s)" "con t = con s" "vdisk t = vdisk s" "device t = device s"
    "bufs t = bufs s" "disk_img t = disk_img s" "sleeplocks t = sleeplocks s" "procs t = procs s"
  shows "quiet p t" "content t = content s" "refs t = refs s"
proof -
  note r = cache_okD(1)[OF quietD(1)[OF assms(1)]]
  have "disk_ready p t" by (rule disk_ready_cong[OF r]) (use assms r in \<open>simp_all add: disk_ready_def\<close>)
  from quiet_cong[OF assms(1) this assms(6-9)] show "quiet p t" "content t = content s" "refs t = refs s" by blast+
qed

lemma end_op_last:
  assumes s: "solo p s" and c: "\<not> log_committing s" "log_outstanding s = 1"
    and cm: "commit (s\<lparr>log_outstanding := 0, log_committing := True, hart := scrub (hart s)\<rparr>) = Ok () t" and t: "solo q t"
  shows "end_op s = Ok () (t\<lparr>log_committing := False, hart := scrub (hart t)\<rparr>)"
proof -
  note so = soloD[OF s] and to = soloD[OF t]
  let ?t = "t\<lparr>hart := acq Llog (hart t), log_committing := False\<rparr>"
  have "proc_ready ?t" using to by (simp add: proc_ready_def)
  moreover have "woken me ch A (procs t) = procs t" for me ch A by (rule woken_none) (rule to(5))
  ultimately have "wakeup ChLog ?t = Ok () ?t" using to wakeup_run[of ?t ChLog] by simp
  then show ?thesis using so to c cm by (simp add: end_op_def run_kthen run_kbind acquire_run release_run)
qed

lemma end_op_commits:
  assumes t: "in_trans p s" and room: "length (logged s) < NBUF" and em: "head_count (disk_block (disk_img s) (log_base s)) = 0"
  shows "\<exists>s'. end_op s = Ok () s' \<and> log_idle p s' \<and> log_base s' = log_base s
     \<and> (\<forall>k. k \<notin> log_region (log_base s) \<longrightarrow> disk_block (disk_img s') k = content s k)"
proof -
  have a: "cache_ok p s" "log_ok s" "refs s = (\<lambda>k. if k \<in> set (logged s) then 1 else 0)"
    "log_outstanding s = 1" "\<not> log_committing s" using t by (simp_all add: in_trans_def)
  note q = in_trans_quiet[OF t room]
  let ?s1 = "s\<lparr>log_outstanding := 0, log_committing := True, hart := scrub (hart s)\<rparr>"
  have q1: "quiet p ?s1" "content ?s1 = content s" "refs ?s1 = refs s" by (rule log_upd_ok[OF q]; simp)+
  have l1: "log_ok ?s1" "logged ?s1 = logged s" "log_base ?s1 = log_base s"
    using a(2) by (simp_all add: log_ok_def logged_def log_base_def)
  have cl: "content s k = disk_block (disk_img s) k" if "k \<notin> set (logged s)" for k
    by (rule content_clean[OF a(1)]) (use that a(3) in simp)
  have "\<exists>t. commit ?s1 = Ok () t \<and> quiet p t \<and> outside t = (outside ?s1)\<lparr>lh_n := 0\<rparr> \<and> (\<forall>k. refs t k = 0)
     \<and> head_count (disk_block (disk_img t) (log_base s)) = 0 \<and> (\<forall>k. k \<notin> log_region (log_base s) \<longrightarrow> disk_block (disk_img t) k = content s k)"
  proof (cases "lh_n s = 0")
    case True
    then have "logged s = []" by (simp add: logged_def)
    then show ?thesis using True q1 a(3) em cl by (intro exI[of _ ?s1]) (simp add: commit_def run_kbind outside_def)
  next
    case False
    then have "commit_ready p ?s1" using q1 l1 a(2,3) em by (simp add: commit_ready_def log_ok_def)
    from commit_crash[OF this] show ?thesis using l1 a(3) q1 cl by (fastforce simp: after_trans_def)
  qed
  then obtain t where t: "commit ?s1 = Ok () t" "quiet p t" "outside t = (outside ?s1)\<lparr>lh_n := 0\<rparr>" "\<forall>k. refs t k = 0"
    "head_count (disk_block (disk_img t) (log_base s)) = 0" "\<forall>k. k \<notin> log_region (log_base s) \<longrightarrow> disk_block (disk_img t) k = content s k" by blast
  let ?t = "t\<lparr>log_committing := False, hart := scrub (hart t)\<rparr>"
  have run: "end_op s = Ok () ?t"
    by (rule end_op_last[OF solo_ready[OF cache_okD(1)[OF a(1)]] a(5,4) t(1) solo_ready[OF cache_okD(1)[OF quietD(1)[OF t(2)]]]])
  have q2: "quiet p ?t" "content ?t = content t" "refs ?t = refs t" by (rule log_upd_ok[OF t(2)]; simp)+
  have fld: "log_start t = log_start s" "log_dev t = log_dev s" "lh_block t = lh_block s" "lh_n t = 0" "log_outstanding t = 0"
    using arg_cong[OF t(3), of log_start] arg_cong[OF t(3), of log_dev] arg_cong[OF t(3), of lh_block] arg_cong[OF t(3), of lh_n]
      arg_cong[OF t(3), of log_outstanding] by (simp_all add: outside_def)
  have "log_idle p ?t" using q2 t(4,5) fld a(2)
    by (simp add: log_idle_def quiet_def log_ok_def log_base_def entries_ok_def)
  then show ?thesis using run t(6) fld by (intro exI[of _ ?t]) (simp add: log_base_def)
qed

lemma updates_run:
  "in_trans p s \<Longrightarrow> ups_ok (log_base s) ups \<Longrightarrow> length (logged s) + length ups \<le> LOGBLOCKS \<Longrightarrow>
   \<exists>s'. kfor ups update_block s = Ok () s' \<and> in_trans p s' \<and> content s' = updated ups (content s) \<and> disk_img s' = disk_img s
     \<and> log_base s' = log_base s \<and> length (logged s') \<le> length (logged s) + length ups \<and> set (logged s') = set (logged s) \<union> fst ` set ups"
proof (induction ups arbitrary: s)
  case (Cons u us)
  obtain k f where u: "u = (k, f)" by force
  obtain t where t: "update_block (k, f) s = Ok () t" "in_trans p t" "content t = (content s)(k := f (content s k))" "disk_img t = disk_img s"
    "log_base t = log_base s" "length (logged t) \<le> Suc (length (logged s))" "set (logged t) = insert k (set (logged s))"
    using update_block_run[OF Cons.prems(1), of k f] Cons.prems(2,3) by (auto simp: u ups_ok_def)
  obtain s' where "kfor us update_block t = Ok () s'" "in_trans p s'" "content s' = updated us (content t)" "disk_img s' = disk_img t"
    "log_base s' = log_base t" "length (logged s') \<le> length (logged t) + length us" "set (logged s') = set (logged t) \<union> fst ` set us"
    using Cons.IH[OF t(2)] Cons.prems(2,3) t(5,6) by (auto simp: ups_ok_def)
  then show ?case using t by (simp add: u run_kthen)
qed (simp add: kret_def)

section \<open>The space reserved by begin\_op\<close>

text \<open>The part of the log that the calls test, and what each call that returns does to it.\<close>

definition log_count :: "'z log_machine_scheme \<Rightarrow> bool \<times> int \<times> int" where
  "log_count s = (log_committing s, lh_n s, log_outstanding s)"

lemma upper_log_count: "upper log_count"
  by (simp add: upper_def log_count_def)

lemmas keeps_log = keeps_intros keeps_locks[OF upper_log_count] keeps_vdisk[OF upper_log_count] keeps_sched[OF upper_log_count]
  keeps_bread[OF upper_log_count] keeps_bufs[OF upper_log_count] keeps_printf[OF upper_log_count]

lemma run_kbind_OkD: "kbind m f s = Ok y u \<Longrightarrow> \<exists>x t. m s = Ok x t \<and> f x t = Ok y u"
  by (simp add: run_kbind split: result.splits)

lemma run_kthen_OkD: "kthen m n s = Ok y u \<Longrightarrow> \<exists>x t. m s = Ok x t \<and> n t = Ok y u"
  by (simp add: run_kthen split: result.splits)

lemma begin_op_loop_count:
  assumes "begin_op_loop s = Ok () t"
  shows "log_count t = (False, lh_n s, log_outstanding s + 1) \<and> lh_n s + (log_outstanding s + 1) * int MAXOPBLOCKS \<le> int LOGBLOCKS"
proof (cases "log_committing s \<or> int LOGBLOCKS < lh_n s + (log_outstanding s + 1) * int MAXOPBLOCKS")
  case True
  then have "begin_op_loop s = sleep ChLog Llog s" by (auto simp: begin_op_loop_def run_kbind)
  then show ?thesis using assms sleep_no_return by metis
next
  case False
  then have "release Llog (s\<lparr>log_outstanding := log_outstanding s + 1\<rparr>) = Ok () t"
    using assms by (simp add: begin_op_loop_def run_kbind run_kthen)
  from keepsD[OF keeps_locks(2)[OF upper_log_count] this] show ?thesis using False by (simp add: log_count_def)
qed

lemma begin_op_count:
  assumes "begin_op s = Ok () t \<or> begin_op_resume p saved s = Ok () t"
  shows "log_count t = (False, lh_n s, log_outstanding s + 1) \<and> lh_n s + (log_outstanding s + 1) * int MAXOPBLOCKS \<le> int LOGBLOCKS"
proof -
  obtain u where u: "log_count u = log_count s" "begin_op_loop u = Ok () t"
    using assms unfolding begin_op_def begin_op_resume_def
    by (metis (mono_tags) run_kthen_OkD keepsD keeps_locks(1) keeps_sched(3) upper_log_count)
  then show ?thesis using begin_op_loop_count[OF u(2)] by (simp add: log_count_def)
qed

lemma log_write_count:
  assumes "log_write b s = Ok () t"
  shows "\<exists>d. (d = 0 \<or> d = 1) \<and> log_count t = (log_committing s, lh_n s + d, log_outstanding s)"
proof -
  let ?i = "\<lambda>u. absorb_index (lh_block u) (nat (lh_n u)) (b_blockno (bufs u b))"
  obtain u where u: "acquire Llog s = Ok () u" using assms by (auto simp: log_write_def dest!: run_kthen_OkD)
  have cu: "log_count u = log_count s" by (rule keepsD[OF keeps_locks(1)[OF upper_log_count] u])
  have "kthen (lh_set (?i u) (sint (b_blockno (bufs u b)))) (kthen (kwhen (int (?i u) = lh_n u) (kthen (bpin b) (kmod (\<lambda>s. s\<lparr>lh_n := lh_n s + 1\<rparr>))))
     (release Llog)) u = Ok () t"
    using assms u by (simp add: log_write_def run_kthen[of "acquire Llog"] run_kbind get_buf_def run_kstop split: if_splits)
  then obtain v w where v: "lh_set (?i u) (sint (b_blockno (bufs u b))) u = Ok () v" "kwhen (int (?i u) = lh_n u) (kthen (bpin b) (kmod (\<lambda>s. s\<lparr>lh_n := lh_n s + 1\<rparr>))) v = Ok () w"
    and w: "release Llog w = Ok () t" by (auto dest!: run_kthen_OkD)
  have cv: "log_count v = log_count u" using v(1) by (auto simp: lh_set_def run_kstop log_count_def split: if_splits)
  have "\<exists>d. (d = 0 \<or> d = 1) \<and> log_count w = (log_committing v, lh_n v + d, log_outstanding v)"
  proof (cases "int (?i u) = lh_n u")
    case True
    then obtain x where "bpin b v = Ok () x" "w = x\<lparr>lh_n := lh_n x + 1\<rparr>" using v(2) by (auto simp: run_kthen split: result.splits)
    then show ?thesis using keepsD[OF keeps_bufs(3)[OF upper_log_count], of b v "()" x] by (intro exI[of _ 1]) (simp add: log_count_def)
  next
    case False
    then show ?thesis using v(2) by (intro exI[of _ 0]) (simp add: log_count_def)
  qed
  then show ?thesis using cu cv keepsD[OF keeps_locks(2)[OF upper_log_count] w] by (auto simp: log_count_def)
qed

lemma commit_count:
  assumes "commit s = Ok () t" "0 \<le> lh_n s"
  shows "log_count t = (log_committing s, 0, log_outstanding s)"
proof (cases "0 < lh_n s")
  case True
  have k: "keeps log_count write_log" "keeps log_count write_head" "keeps log_count (install_trans False)"
    unfolding write_log_def write_log_one_def write_head_def install_trans_def install_one_def log_bread_def lh_get_def copy_block_def
    by (intro keeps_log)+
  obtain s1 s2 s3 where r: "write_log s = Ok () s1" "write_head s1 = Ok () s2" "install_trans False s2 = Ok () s3" "write_head (s3\<lparr>lh_n := 0\<rparr>) = Ok () t"
    using assms(1) True by (auto simp: commit_def run_kbind run_kthen split: result.splits)
  show ?thesis using keepsD[OF k(1) r(1)] keepsD[OF k(2) r(2)] keepsD[OF k(3) r(3)] keepsD[OF k(2) r(4)] by (simp add: log_count_def)
next
  case False
  then show ?thesis using assms by (simp add: commit_def run_kbind log_count_def)
qed

lemma end_op_count:
  assumes "end_op s = Ok () t" "0 \<le> lh_n s"
  shows "log_count t = (False, if log_outstanding s = 1 then 0 else lh_n s, log_outstanding s - 1)"
proof -
  obtain u where u: "acquire Llog s = Ok () u" using assms(1) by (auto simp: end_op_def dest!: run_kthen_OkD)
  have cu: "log_committing u = log_committing s" "lh_n u = lh_n s" "log_outstanding u = log_outstanding s"
    using keepsD[OF keeps_locks(1)[OF upper_log_count] u] by (simp_all add: log_count_def)
  let ?u = "u\<lparr>log_outstanding := log_outstanding u - 1\<rparr>"
  have nc: "\<not> log_committing s" using assms(1) u cu by (auto simp: end_op_def run_kthen run_kbind run_kstop)
  show ?thesis
  proof (cases "log_outstanding s = 1")
    case True
    then obtain v w x y where v: "release Llog (?u\<lparr>log_committing := True\<rparr>) = Ok () v" "commit v = Ok () w" "acquire Llog w = Ok () x"
      "wakeup ChLog (x\<lparr>log_committing := False\<rparr>) = Ok () y" "release Llog y = Ok () t"
      using assms(1) u cu nc by (auto simp: end_op_def run_kthen run_kbind split: result.splits)
    have cv: "log_count v = (True, lh_n s, 0)" using keepsD[OF keeps_locks(2)[OF upper_log_count] v(1)] cu True by (simp add: log_count_def)
    then have "log_count w = (True, 0, 0)" using commit_count[OF v(2)] assms(2) by (simp add: log_count_def)
    then show ?thesis using True keepsD[OF keeps_locks(1)[OF upper_log_count] v(3)] keepsD[OF keeps_sched(1)[OF upper_log_count] v(4)]
      keepsD[OF keeps_locks(2)[OF upper_log_count] v(5)] by (simp add: log_count_def)
  next
    case False
    then obtain y where y: "wakeup ChLog ?u = Ok () y" "release Llog y = Ok () t"
      using assms(1) u cu nc by (auto simp: end_op_def run_kthen run_kbind split: result.splits)
    then show ?thesis using False keepsD[OF keeps_sched(1)[OF upper_log_count] y(1)]
      keepsD[OF keeps_locks(2)[OF upper_log_count] y(2)] cu nc by (simp add: log_count_def)
  qed
qed

text \<open>
  Any number of system calls that use the log at once. The list holds, for each call between \<^verbatim>\<open>begin_op\<close> and \<^verbatim>\<open>end_op\<close>,
  how often it has called \<^verbatim>\<open>log_write\<close>; a call may do so \<open>MAXOPBLOCKS\<close> times. A thread that waited in \<^verbatim>\<open>begin_op\<close> resumes
  there. Between these steps anything may happen that leaves the counters of the log alone.
\<close>

inductive log_use :: "nat list \<Rightarrow> 'z log_machine_scheme \<Rightarrow> bool" where
  idle: "log_count s = (False, 0, 0) \<Longrightarrow> log_use [] s"
| begins: "log_use ws s \<Longrightarrow> begin_op s = Ok () t \<Longrightarrow> log_use (0 # ws) t"
| resumes: "log_use ws s \<Longrightarrow> begin_op_resume p saved s = Ok () t \<Longrightarrow> log_use (0 # ws) t"
| logs: "log_use ws s \<Longrightarrow> i < length ws \<Longrightarrow> ws ! i < MAXOPBLOCKS \<Longrightarrow> log_write b s = Ok () t \<Longrightarrow> log_use (ws[i := Suc (ws ! i)]) t"
| ends: "log_use (us @ w # vs) s \<Longrightarrow> end_op s = Ok () t \<Longrightarrow> log_use (us @ vs) t"
| other: "log_use ws s \<Longrightarrow> log_count t = log_count s \<Longrightarrow> log_use ws t"

definition unused :: "nat list \<Rightarrow> int" where
  "unused ws = (\<Sum>w\<leftarrow>ws. int MAXOPBLOCKS - int w)"

lemma unused_update: "i < length ws \<Longrightarrow> unused (ws[i := Suc (ws ! i)]) = unused ws - 1"
  unfolding unused_def by (induction ws arbitrary: i) (auto split: nat.split simp: nth_Cons)

lemma unused_le: "unused ws \<le> int (length ws) * int MAXOPBLOCKS"
  unfolding unused_def by (induction ws) (simp_all add: algebra_simps)

lemma unused_pos: "\<forall>w\<in>set ws. w \<le> MAXOPBLOCKS \<Longrightarrow> i < length ws \<Longrightarrow> int MAXOPBLOCKS - int (ws ! i) \<le> unused ws"
proof (induction ws arbitrary: i)
  case (Cons w ws)
  have "0 \<le> unused ws" using Cons.prems(1) unfolding unused_def by (intro sum_list_nonneg) auto
  then show ?case using Cons.IH[of "i - 1"] Cons.prems by (cases i) (auto simp: unused_def)
qed simp

lemma log_use_inv:
  "log_use ws s \<Longrightarrow> log_outstanding s = int (length ws) \<and> 0 \<le> lh_n s \<and> (\<forall>w\<in>set ws. w \<le> MAXOPBLOCKS) \<and> lh_n s + unused ws \<le> int LOGBLOCKS"
proof (induction rule: log_use.induct)
  case (begins ws s t)
  then show ?case using begin_op_count[of s t] unused_le[of ws] by (auto simp: log_count_def unused_def algebra_simps)
next
  case (resumes ws s p saved t)
  then show ?case using begin_op_count[of s t p saved] unused_le[of ws] by (auto simp: log_count_def unused_def algebra_simps)
next
  case (logs ws s i b t)
  then show ?case using log_write_count[OF logs(4)] unused_update[of i ws] set_update_subset_insert[of ws i "Suc (ws ! i)"]
    by (auto simp: log_count_def)
next
  case (ends us w vs s t)
  then have "0 \<le> int MAXOPBLOCKS - int w" by simp
  moreover have "unused (us @ w # vs) = unused (us @ vs) + (int MAXOPBLOCKS - int w)" by (simp add: unused_def)
  ultimately show ?case using ends end_op_count[OF ends(2)] unused_le[of "us @ vs"]
    by (auto simp: log_count_def LOGBLOCKS_def split: if_splits)
qed (simp_all add: log_count_def unused_def)

section \<open>A log that fills the cache\<close>

lemma busy_cache:
  assumes ok: "cache_ok p s" and card: "card {k. 0 < refs s k} = NBUF"
  shows "\<not> free_buf s" "cached (bufs s) k = Some b \<Longrightarrow> 0 < refs s k"
proof -
  show nf: "\<not> free_buf s"
  proof
    assume "free_buf s"
    then obtain b where b: "b < NBUF" "b_refcnt (bufs s b) = 0" by (auto simp: free_buf_def)
    have "\<exists>c\<in>{..<NBUF} - {b}. k = the (key (bufs s c))" if rk: "0 < refs s k" for k
    proof -
      obtain c where c: "cached (bufs s) k = Some c" "b_refcnt (bufs s c) \<noteq> 0"
        using rk by (auto simp: refs_def unat_gt_0 split: option.splits)
      then have "c < NBUF" "key (bufs s c) = Some k" using cached_Some[OF cache_okD(3)[OF ok]] by auto
      then show ?thesis using c b by (intro bexI[of _ c]) auto
    qed
    then have "{k. 0 < refs s k} \<subseteq> (\<lambda>c. the (key (bufs s c))) ` ({..<NBUF} - {b})" by auto
    from card_mono[OF _ this] have "NBUF \<le> card ((\<lambda>c. the (key (bufs s c))) ` ({..<NBUF} - {b}))" using card by simp
    also have "\<dots> \<le> card ({..<NBUF} - {b})" by (rule card_image_le) simp
    finally show False using b(1) by (simp add: card_Diff_singleton)
  qed
  assume c: "cached (bufs s) k = Some b"
  then have "b < NBUF" using cached_Some[OF cache_okD(3)[OF ok]] by auto
  then show "0 < refs s k" using nf c by (auto simp: refs_def free_buf_def unat_gt_0)
qed

lemma full_cache_panics:
  assumes l: "log_ok s" and ok: "cache_ok p s" and full: "length (logged s) = LOGBLOCKS"
    and r: "\<And>k. 0 < refs s k \<longleftrightarrow> k \<in> set (logged s)"
  shows "\<exists>s'. log_bread (int (log_base s + 1)) s = Stop (Panic ''bget: no buffers'') s'"
proof -
  have "{k. 0 < refs s k} = set (logged s)" using r by auto
  then have card: "card {k. 0 < refs s k} = NBUF" using distinct_card[OF distinct_logged[OF l]] full by (simp add: LOGBLOCKS_val)
  note bc = busy_cache[OF ok card]
  have z: "0 < length (logged s)" using full by (simp add: LOGBLOCKS_val)
  note d = log_okD[OF l z]
  have "log_base s + 1 \<noteq> logged s ! i" if "i < length (logged s)" for i
    using log_okD(9)[OF l that] by (auto simp: log_region_def LOGBLOCKS_val)
  then have "log_base s + 1 \<notin> set (logged s)" by (metis in_set_conv_nth)
  then have c: "cached (bufs s) (log_base s + 1) = None" using bc(2) r by (cases "cached (bufs s) (log_base s + 1)") auto
  have u: "m < 2 ^ 31 \<Longrightarrow> unat (of_nat m :: u32) = m" for m by (simp add: unat_of_nat take_bit_nat_eq_self)
  have b31: "log_base s + 1 < 2 ^ 31" using d(4) unfolding LOGBLOCKS_val by linarith
  have "\<exists>s'. bread ROOTDEV (of_nat (log_base s + 1)) s = Stop (Panic ''bget: no buffers'') s'"
    by (rule bread_full[OF ok _ _ bc(1)]) (simp_all only: u[OF b31] b31 c)
  then show ?thesis using log_bread_root[OF d(1), of "int (log_base s + 1)"] unfolding root_bread_def nat_int by simp
qed

section \<open>A concrete machine\<close>

text \<open>The machine of \<^const>\<open>booted\<close> with a log that starts at block 2, and the same machine with another disk.\<close>

definition demo_log :: log_machine where
  "demo_log = disk_machine.extend booted
     (log_machine.fields 2 0 False 1 0 (replicate LOGBLOCKS 0))"

definition demo_boot :: "diskimg \<Rightarrow> log_machine" where
  "demo_boot im = demo_log\<lparr>disk_img := im\<rparr>"

lemma demo_log_sel [simp]:
  "hart demo_log = hart booted" "con demo_log = con booted" "procs demo_log = procs booted" "sleeplocks demo_log = sleeplocks booted"
  "vdisk demo_log = vdisk booted" "bufs demo_log = bufs booted" "disk_img demo_log = disk_img booted" "device demo_log = device booted"
  "log_start demo_log = 2" "log_outstanding demo_log = 0" "\<not> log_committing demo_log" "log_dev demo_log = 1" "lh_n demo_log = 0"
  "lh_block demo_log = replicate LOGBLOCKS 0"
  by (simp_all add: demo_log_def disk_machine.extend_def log_machine.fields_def)

lemma demo_boot_quiet:
  assumes "\<And>sec. length (img_read im sec) = BSIZE"
  shows "quiet 0 (demo_boot im)" "refs (demo_boot im) k = 0"
proof -
  have e: "bufs (demo_boot im) = bufs booted" "sleeplocks (demo_boot im) = sleeplocks booted" by (simp_all add: demo_boot_def)
  have r: "refs (demo_boot im) k = 0" "\<not> blocked (demo_boot im) k" for k
    using booted_ok(3,4)[of k] by (simp_all only: refs_def blocked_def e not_False_eq_True)
  then show "refs (demo_boot im) k = 0" by blast
  have "disk_ready 0 (demo_boot im)" by (rule disk_ready_cong[OF cache_okD(1)[OF booted_ok(1)]])
    (use cache_okD(1)[OF booted_ok(1)] in \<open>simp_all add: demo_boot_def disk_ready_def\<close>)
  then have "cache_ok 0 (demo_boot im)"
    using booted_ok(1,6-9) assms unfolding cache_ok_def buf_ok_def by (simp add: demo_boot_def)
  then show "quiet 0 (demo_boot im)" using r by (simp add: quiet_def in_use_def LOGBLOCKS_val)
qed

lemma demo_boot_ready:
  assumes "\<And>sec. length (img_read im sec) = BSIZE"
  shows "rebooted 0 2 (demo_boot im)"
  using demo_boot_quiet[OF assms] by (simp add: rebooted_def demo_boot_def LOGBLOCKS_val)

lemma demo_log_idle: "log_idle 0 demo_log" "log_base demo_log = 2"
proof -
  have b: "demo_boot blank_disk = demo_log" using booted_ok(10) by (simp add: demo_boot_def)
  have "quiet 0 demo_log" "\<And>k. refs demo_log k = 0"
    using demo_boot_quiet[of blank_disk] unfolding b by (simp_all add: blank_disk_def img_read_def)
  moreover have "head_count (disk_block blank_disk 2) = 0"
  proof -
    have "take 4 (disk_block blank_disk 2) = replicate 4 0" by (simp add: disk_block_def blank_disk_def img_read_def BSIZE_def)
    then show ?thesis by (simp add: head_count_def get32_def numeral_eq_Suc)
  qed
  ultimately show "log_idle 0 demo_log"
    using booted_ok(10) by (simp add: log_idle_def quiet_def log_ok_def log_base_def entries_ok_def LOGBLOCKS_val)
  show "log_base demo_log = 2" by (simp add: log_base_def)
qed

lemma begin_trans:
  assumes "log_idle p s"
  shows "\<exists>t. begin_op s = Ok () t \<and> in_trans p t \<and> logged t = [] \<and> log_base t = log_base s \<and> content t = disk_block (disk_img s)
     \<and> disk_img t = disk_img s \<and> log_machine.more t = log_machine.more s"
proof -
  have i: "cache_ok p s" "\<And>k. \<not> blocked s k" "\<And>k. refs s k = 0" "log_ok s" "lh_n s = 0" "log_outstanding s = 0" "\<not> log_committing s"
    using assms by (simp_all add: log_idle_def)
  have q: "quiet p s" using i by (simp add: quiet_def in_use_def LOGBLOCKS_val)
  let ?t = "s\<lparr>hart := scrub (hart s), log_outstanding := log_outstanding s + 1\<rparr>"
  have "begin_op s = Ok () ?t"
    by (rule begin_op_run[OF solo_ready[OF cache_okD(1)[OF i(1)]] i(7)]) (simp add: i(5,6) LOGBLOCKS_val MAXOPBLOCKS_def)
  moreover have t: "quiet p ?t" "content ?t = content s" "refs ?t = refs s" by (rule log_upd_ok[OF q]; simp)+
  moreover have lt: "log_ok ?t" "logged ?t = []" "log_base ?t = log_base s" using i(4,5) by (simp_all add: log_ok_def logged_def log_base_def)
  moreover have "in_trans p ?t" using t lt i by (simp add: in_trans_def quiet_def fun_eq_iff)
  moreover have "content s = disk_block (disk_img s)" using content_clean[OF i(1) i(3)] by blast
  ultimately show ?thesis by (intro exI[of _ ?t]) simp
qed

text \<open>A machine in the middle of a transaction that has changed the given blocks.\<close>

definition fill7 :: "u8 list \<Rightarrow> u8 list" where
  "fill7 d = replicate (length d) 7"

lemma demo_trans:
  assumes "\<forall>k\<in>set ks. 32 < k \<and> k < 2 ^ 31" "length ks \<le> LOGBLOCKS"
  shows "\<exists>s :: log_machine. in_trans 0 s \<and> set (logged s) = set ks \<and> log_base s = 2 \<and> disk_img s = blank_disk
     \<and> content s = updated (map (\<lambda>k. (k, fill7)) ks) (disk_block blank_disk)"
proof -
  obtain t :: log_machine where t: "in_trans 0 t" "logged t = []" "log_base t = 2" "content t = disk_block blank_disk" "disk_img t = blank_disk"
    using begin_trans[OF demo_log_idle(1)] demo_log_idle(2) booted_ok(10) by auto
  have "ups_ok (log_base t) (map (\<lambda>k. (k, fill7)) ks)"
    using assms(1) by (auto simp: ups_ok_def t(3) log_region_def LOGBLOCKS_val fill7_def)
  from updates_run[OF t(1) this] show ?thesis using assms(2) t by (auto simp: image_image)
qed

lemma blank_block: "k < 2 ^ 31 \<Longrightarrow> disk_block blank_disk k = replicate BSIZE 0"
  by (simp add: disk_block_def blank_disk_def img_read_def)

lemma blank_header: "head_count (disk_block blank_disk 2) = 0"
  using demo_log_idle booted_ok(10) by (simp add: log_idle_def)

lemma transaction_run:
  assumes "log_idle p s" "ups_ok (log_base s) ups" "length ups \<le> MAXOPBLOCKS"
  shows "\<exists>s'. transaction ups s = Ok () s' \<and> log_idle p s' \<and> log_base s' = log_base s
     \<and> (\<forall>k. k \<notin> log_region (log_base s) \<longrightarrow> disk_block (disk_img s') k = updated ups (disk_block (disk_img s)) k)"
proof -
  obtain t where t: "begin_op s = Ok () t" "in_trans p t" "logged t = []" "log_base t = log_base s" "content t = disk_block (disk_img s)"
    "disk_img t = disk_img s" using begin_trans[OF assms(1)] by blast
  obtain u where u: "kfor ups update_block t = Ok () u" "in_trans p u" "content u = updated ups (content t)" "disk_img u = disk_img t"
    "log_base u = log_base t" "length (logged u) \<le> length ups"
    using updates_run[OF t(2), of ups] assms(2,3) t(3,4) by (auto simp: LOGBLOCKS_val MAXOPBLOCKS_def)
  have "length (logged u) < NBUF" using u(6) assms(3) by (simp add: LOGBLOCKS_val MAXOPBLOCKS_def)
  moreover have "head_count (disk_block (disk_img u) (log_base u)) = 0" using assms(1) u(4,5) t by (simp add: log_idle_def)
  ultimately obtain s' where s': "end_op u = Ok () s'" "log_idle p s'" "log_base s' = log_base u"
    "\<And>k. k \<notin> log_region (log_base u) \<Longrightarrow> disk_block (disk_img s') k = content u k"
    using end_op_commits[OF u(2)] by blast
  then show ?thesis using t u by (intro exI[of _ s']) (simp add: transaction_def run_kthen)
qed

section \<open>Properties\<close>

text \<open>
  C2: A transaction of at most \<^verbatim>\<open>MAXOPBLOCKS\<close> updates, started while the log is idle, returns; every block outside the
  log then has its updated content on the disk, the log on the disk is empty and the log is idle again.
\<close>

theorem transaction_durable:
  assumes "log_idle p s" "ups_ok (log_base s) ups" "length ups \<le> MAXOPBLOCKS"
  shows "\<exists>s'. transaction ups s = Ok () s' \<and> log_idle p s' \<and> log_base s' = log_base s
     \<and> (\<forall>k. k \<notin> log_region (log_base s) \<longrightarrow> disk_block (disk_img s') k = updated ups (disk_block (disk_img s)) k)"
  by (rule transaction_run[OF assms])

theorem transaction_durable_witness:
  "\<exists>s'. transaction [(40, fill7), (41, fill7)] demo_log = Ok () s' \<and> disk_block (disk_img s') 40 = replicate BSIZE 7
     \<and> disk_block (disk_img s') 41 = replicate BSIZE 7 \<and> disk_block (disk_img s') 42 = replicate BSIZE 0"
proof -
  have "ups_ok (log_base demo_log) [(40, fill7), (41, fill7)]"
    by (simp add: ups_ok_def demo_log_idle(2) log_region_def LOGBLOCKS_val fill7_def)
  then show ?thesis
    using transaction_durable[OF demo_log_idle(1), of "[(40, fill7), (41, fill7)]"] booted_ok(10)
    by (auto simp: demo_log_idle(2) log_region_def LOGBLOCKS_val MAXOPBLOCKS_def fill7_def blank_block)
qed

text \<open>
  C1: Crash safety. A commit returns with the blocks of the transaction in place. If the machine stops at any moment of the
  commit, so that only the writes up to number \<open>i\<close> have reached the disk, a machine that boots from that disk recovers in
  \<^verbatim>\<open>initlog\<close> to all the old blocks if the header was not yet written, and to all the new blocks if it was: never to a mixture.
\<close>

theorem commit_crash_safe:
  assumes "commit_ready p s"
  shows "\<exists>s'. commit s = Ok () s' \<and> lh_n s' = 0
     \<and> (\<forall>k. k \<notin> log_region (log_base s) \<longrightarrow> disk_block (disk_img s') k = after_trans s k)
     \<and> (\<forall>i q (t :: 'y log_machine_scheme). length (img_writes (disk_img s)) \<le> i \<and> rebooted q (log_base s) t
          \<and> disk_img t = crash_at i (disk_img s') \<longrightarrow>
         (\<exists>t'. initlog 1 (of_nat (log_base s)) t = Ok () t' \<and> quiet q t' \<and> (\<forall>k. k \<notin> log_region (log_base s) \<longrightarrow>
            disk_block (disk_img t') k = (if i \<le> length (img_writes (disk_img s)) + length (logged s)
              then disk_block (disk_img s) k else after_trans s k))))"
proof -
  obtain s' where s': "commit s = Ok () s'" "outside s' = (outside s)\<lparr>lh_n := 0\<rparr>"
    "\<And>k. k \<notin> log_region (log_base s) \<Longrightarrow> disk_block (disk_img s') k = after_trans s k"
    and cr: "\<And>i. length (img_writes (disk_img s)) \<le> i \<Longrightarrow> head_ok (log_base s) (disk_block (crash_at i (disk_img s')) (log_base s))"
    "\<And>i k. length (img_writes (disk_img s)) \<le> i \<Longrightarrow> k \<notin> log_region (log_base s) \<Longrightarrow> log_view (log_base s) (crash_at i (disk_img s')) k =
            (if i \<le> length (img_writes (disk_img s)) + length (logged s) then disk_block (disk_img s) k else after_trans s k)"
    using commit_crash[OF assms] by blast
  have "lh_n s' = 0" using arg_cong[OF s'(2), of lh_n] by simp
  moreover have "\<exists>t'. initlog 1 (of_nat (log_base s)) t = Ok () t' \<and> quiet q t' \<and> (\<forall>k. k \<notin> log_region (log_base s) \<longrightarrow>
            disk_block (disk_img t') k = (if i \<le> length (img_writes (disk_img s)) + length (logged s)
              then disk_block (disk_img s) k else after_trans s k))"
    if "length (img_writes (disk_img s)) \<le> i" "rebooted q (log_base s) t" "disk_img t = crash_at i (disk_img s')" for i q and t :: "'y log_machine_scheme"
    using recover_crash[OF that(2)] cr[OF that(1)] that(3) by auto
  ultimately show ?thesis using s' by (intro exI[of _ s']) simp
qed

theorem commit_crash_safe_witness:
  "\<exists>(s :: log_machine) s' t'. commit s = Ok () s' \<and> disk_block (disk_img s) 40 = replicate BSIZE 0
     \<and> initlog 1 2 (demo_boot (disk_img s')) = Ok () t' \<and> disk_block (disk_img t') 40 = replicate BSIZE 7"
proof -
  obtain s :: log_machine where s: "in_trans 0 s" "set (logged s) = {40}" "log_base s = 2" "disk_img s = blank_disk"
    "content s = updated [(40, fill7)] (disk_block blank_disk)"
    using demo_trans[of "[40]"] by (auto simp: LOGBLOCKS_val)
  have l: "log_ok s" using s(1) by (simp add: in_trans_def)
  have n: "length (logged s) = 1" using distinct_card[OF distinct_logged[OF l]] s(2) by simp
  have cr0: "commit_ready 0 s" using in_trans_quiet[OF s(1)] s(1) n length_logged[OF l] blank_header
    by (simp add: commit_ready_def in_trans_def s(3,4) LOGBLOCKS_val)
  from commit_crash_safe[OF cr0, where 'y = unit] obtain s' where s': "commit s = Ok () s'" and
    cr: "\<And>i q (t :: log_machine). length (img_writes (disk_img s)) \<le> i \<and> rebooted q (log_base s) t \<and> disk_img t = crash_at i (disk_img s') \<Longrightarrow>
         \<exists>t'. initlog 1 (of_nat (log_base s)) t = Ok () t' \<and> quiet q t' \<and> (\<forall>k. k \<notin> log_region (log_base s) \<longrightarrow>
            disk_block (disk_img t') k = (if i \<le> length (img_writes (disk_img s)) + length (logged s)
              then disk_block (disk_img s) k else after_trans s k))" by blast
  have "quiet 0 s'" using commit_crash[OF cr0] s' by auto
  then have "rebooted 0 2 (demo_boot (disk_img s'))" using cache_okD(4)[OF quietD(1)] by (intro demo_boot_ready) blast
  moreover define i where "i = length (img_writes (disk_img s)) + length (img_writes (disk_img s')) + 2"
  moreover have "crash_at i (disk_img s') = disk_img s'" by (simp add: crash_at_def i_def)
  ultimately obtain t' where "initlog 1 2 (demo_boot (disk_img s')) = Ok () t'" "disk_block (disk_img t') 40 = after_trans s 40"
    using cr[of i 0 "demo_boot (disk_img s')"] s(3) n by (auto simp: demo_boot_def log_region_def LOGBLOCKS_val)
  moreover have "after_trans s 40 = replicate BSIZE 7" using s(2,5) by (simp add: after_trans_def fill7_def blank_block)
  ultimately show ?thesis using s' s(4) by (intro exI[of _ s] exI[of _ s'] exI[of _ t']) (simp add: blank_block)
qed

text \<open>
  C3: Recovery can be interrupted. \<^verbatim>\<open>initlog\<close> of a machine that boots from a disk with a readable header returns with the
  committed blocks installed and the header cleared; and if the machine stops in the middle of it, the disk still stands for
  the same blocks, with a header that can be read again.
\<close>

theorem recovery_restarts:
  assumes "rebooted p st s" "head_ok st (disk_block (disk_img s) st)"
  shows "\<exists>s'. initlog 1 (of_nat st) s = Ok () s' \<and> quiet p s' \<and> log_ok s' \<and> lh_n s' = 0 \<and> head_count (disk_block (disk_img s') st) = 0
     \<and> (\<forall>k. k \<notin> log_region st \<longrightarrow> disk_block (disk_img s') k = log_view st (disk_img s) k)
     \<and> (\<forall>i\<ge>length (img_writes (disk_img s)). head_ok st (disk_block (crash_at i (disk_img s')) st)
        \<and> (\<forall>k. k \<notin> log_region st \<longrightarrow> log_view st (crash_at i (disk_img s')) k = log_view st (disk_img s) k))"
  using recover_crash[OF assms] by blast

text \<open>A disk that was left after the header of a transaction on block 40 had been written.\<close>

definition torn_disk :: diskimg where
  "torn_disk = put_blocks [(3, replicate BSIZE 7), (2, head_bytes [40] (replicate BSIZE 0))] blank_disk"

lemma torn_disk_header: "disk_block torn_disk 2 = head_bytes [40] (replicate BSIZE 0)" "head_ok 2 (disk_block torn_disk 2)"
  "log_view 2 torn_disk 40 = replicate BSIZE 7"
proof -
  have e: "entries_ok 2 [40]" by (simp add: entries_ok_def LOGBLOCKS_val log_region_def)
  have im: "torn_disk = put_blocks (log_writes 2 (map nat [40]) (\<lambda>_. replicate BSIZE 7) @ [(2, head_bytes [40] (replicate BSIZE 0))]) blank_disk"
    by (simp add: torn_disk_def log_writes_def)
  note h = log_view_header[OF _ e _ im, of 40]
  show "disk_block torn_disk 2 = head_bytes [40] (replicate BSIZE 0)" "log_view 2 torn_disk 40 = replicate BSIZE 7"
    using h by (simp_all add: LOGBLOCKS_val log_region_def)
  then show "head_ok 2 (disk_block torn_disk 2)" using head_bytes_read(3)[OF _ e] by simp
qed

theorem recovery_restarts_witness:
  "\<exists>s'. initlog 1 2 (demo_boot torn_disk) = Ok () s' \<and> disk_block (disk_img s') 40 = replicate BSIZE 7"
proof -
  have "length (img_read torn_disk sec) = BSIZE" for sec
    using head_bytes_length[of "[40]" "replicate BSIZE 0"] by (simp add: torn_disk_def put_block_def blank_disk_def img_read_def[of "\<lparr>img_base = _, img_writes = _\<rparr>"] BSIZE_def)
  from recovery_restarts[OF demo_boot_ready[OF this]] torn_disk_header
  show ?thesis by (auto simp: demo_boot_def log_region_def LOGBLOCKS_val)
qed

text \<open>
  C4: The reservation of \<^verbatim>\<open>begin_op\<close> is enough. In every interleaving of system calls that each log at most \<^verbatim>\<open>MAXOPBLOCKS\<close>
  blocks, with commits in between, a call that has logged fewer finds room in the header: neither panic of \<^verbatim>\<open>log_write\<close> is
  possible, and with the locks free it returns.
\<close>

theorem log_write_fits:
  assumes "log_use ws s" "i < length ws" "ws ! i < MAXOPBLOCKS" "solo p s"
  shows "0 \<le> lh_n s \<and> lh_n s < int LOGBLOCKS \<and> 1 \<le> log_outstanding s \<and> (\<exists>s'. log_write b s = Ok () s' \<and> lh_n s' \<le> int LOGBLOCKS)"
proof -
  note v = log_use_inv[OF assms(1)]
  have "int MAXOPBLOCKS - int (ws ! i) \<le> unused ws" using unused_pos[OF _ assms(2)] v by blast
  then have n: "0 \<le> lh_n s" "lh_n s < int LOGBLOCKS" "1 \<le> log_outstanding s" using v assms(2,3) by linarith+
  obtain s' where s': "log_write b s = Ok () s'" using log_write_exact[OF assms(4) n refl] by blast
  then have "lh_n s' \<le> int LOGBLOCKS" using log_write_count[OF s'] n by (auto simp: log_count_def)
  then show ?thesis using n s' by blast
qed

theorem log_write_fits_witness:
  "\<exists>(s :: log_machine) s'. log_use [0] s \<and> log_write 3 s = Ok () s' \<and> lh_n s' \<le> int LOGBLOCKS"
proof -
  obtain t :: log_machine where t: "begin_op demo_log = Ok () t" "in_trans 0 t" using begin_trans[OF demo_log_idle(1)] by blast
  have "log_use [0] t" by (rule log_use.begins[OF log_use.idle t(1)]) (simp add: log_count_def)
  moreover have "solo 0 t" using t(2) solo_ready[OF cache_okD(1)] by (auto simp: in_trans_def)
  ultimately show ?thesis using log_write_fits[of "[0]" t 0 0 3] by (auto simp: MAXOPBLOCKS_def)
qed

text \<open>
  C33: A transaction that fills the log cannot be committed. The log and the buffer cache have the same size, so that with
  \<^verbatim>\<open>LOGBLOCKS\<close> blocks pinned no buffer is left for the log block that \<^verbatim>\<open>write_log\<close> reads first: the last \<^verbatim>\<open>end_op\<close> panics,
  although \<^verbatim>\<open>begin_op\<close> admits such a load and \<^verbatim>\<open>log_write\<close> accepts every one of these blocks.
\<close>

theorem full_log_panics:
  assumes t: "in_trans p s" and full: "length (logged s) = LOGBLOCKS"
  shows "\<exists>s'. end_op s = Stop (Panic ''bget: no buffers'') s'"
proof -
  have a: "cache_ok p s" "log_ok s" "refs s = (\<lambda>k. if k \<in> set (logged s) then 1 else 0)" "log_outstanding s = 1" "\<not> log_committing s"
    using t by (simp_all add: in_trans_def)
  note so = soloD[OF solo_ready[OF cache_okD(1)[OF a(1)]]]
  let ?s1 = "s\<lparr>log_outstanding := 0, log_committing := True, hart := scrub (hart s)\<rparr>"
  have e: "bufs ?s1 = bufs s" "disk_img ?s1 = disk_img s" "sleeplocks ?s1 = sleeplocks s" "procs ?s1 = procs s" by simp_all
  have ok: "cache_ok p ?s1" by (rule cache_ok_cong[OF a(1)]) (use disk_ready_cong[OF cache_okD(1)[OF a(1)], of ?s1] cache_okD(1)[OF a(1)]
      in \<open>simp_all add: disk_ready_def\<close>)
  have l1: "log_ok ?s1" "logged ?s1 = logged s" using a(2) by (simp_all add: log_ok_def logged_def log_base_def)
  have "refs ?s1 = refs s" using arg_cong[OF bio_view_cong[OF e(1-3)], of v_refs] by simp
  then have "0 < refs ?s1 k \<longleftrightarrow> k \<in> set (logged ?s1)" for k using l1(2) a(3) by simp
  from full_cache_panics[OF l1(1) ok _ this] obtain s' where s': "log_bread (int (log_base ?s1 + 1)) ?s1 = Stop (Panic ''bget: no buffers'') s'"
    using full l1(2) by auto
  have n: "nat (lh_n s) = 30" "log_start s = int (log_base ?s1)" using length_logged[OF a(2)] full log_ok_entries(6)[OF a(2)]
    by (simp_all add: LOGBLOCKS_val log_base_def)
  then have "[0..<nat (lh_n s)] = 0 # [1..<30]" by (simp add: upt_rec)
  then have "commit ?s1 = Stop (Panic ''bget: no buffers'') s'" using s' n
    by (simp add: commit_def write_log_def write_log_one_def run_kbind run_kthen add.commute)
  then show ?thesis using so a(4,5) by (simp add: end_op_def run_kthen run_kbind acquire_run release_run)
qed

theorem full_log_panics_witness:
  "\<exists>(s :: log_machine) s'. length (logged s) = 30 \<and> end_op s = Stop (Panic ''bget: no buffers'') s'"
proof -
  obtain s :: log_machine where s: "in_trans 0 s" "set (logged s) = set [40..<70]"
    using demo_trans[of "[40..<70]"] by (auto simp: LOGBLOCKS_val simp del: set_upt upt_Suc)
  have "length (logged s) = 30" using distinct_card[OF distinct_logged, of s] s by (simp add: in_trans_def)
  then show ?thesis using full_log_panics[OF s(1)] by (auto simp: LOGBLOCKS_val)
qed

end
