(* ===== verification/User_Copy.thy ===== *)
theory User_Copy
  imports User_Memory Sched
begin

text \<open>
  What the copies between kernel and user memory of \<^verbatim>\<open>kernel/vm.c\<close> do, against the view a user process has of its memory:
  an address is translated by the page table, byte by byte. A copy runs page by page through physical memory; the lemmas
  show that it is the copy of the bytes at the virtual addresses.
\<close>

section \<open>User addresses\<close>

definition uaddr :: "memory \<Rightarrow> u64 \<Rightarrow> u64 \<Rightarrow> u64" where
  "uaddr m root va = (case lookup m root va of None \<Rightarrow> 0 | Some v \<Rightarrow> PTE2PA v + va mod 4096)"

definition umapped :: "memory \<Rightarrow> u64 \<Rightarrow> u64 \<Rightarrow> bool" where
  "umapped m root va \<longleftrightarrow>
     (case lookup m root va of None \<Rightarrow> False | Some v \<Rightarrow> v AND PTE_U \<noteq> 0 \<and> PTE2PA v \<noteq> 0)"

definition uwritable :: "memory \<Rightarrow> u64 \<Rightarrow> u64 \<Rightarrow> bool" where
  "uwritable m root va \<longleftrightarrow>
     umapped m root va \<and> (case lookup m root va of None \<Rightarrow> False | Some v \<Rightarrow> v AND PTE_W \<noteq> 0)"

definition user_read :: "memory \<Rightarrow> u64 \<Rightarrow> u64 \<Rightarrow> nat \<Rightarrow> u8 list" where
  "user_read m root va n = map (\<lambda>i. m (uaddr m root (va + of_nat i))) [0..<n]"

text \<open>The addresses of a range, and a range that lies below \<^verbatim>\<open>MAXVA\<close>.\<close>

definition urange :: "u64 \<Rightarrow> nat \<Rightarrow> u64 set" where
  "urange va n = (\<lambda>i. va + of_nat i) ` {..<n}"

definition below_max :: "u64 \<Rightarrow> nat \<Rightarrow> bool" where
  "below_max va n \<longleftrightarrow> unat va + n \<le> 2 ^ 38"

lemma urange_0 [simp]: "urange va 0 = {}"
  by (simp add: urange_def)

lemma urange_add: "urange va (a + b) = urange va a \<union> urange (va + of_nat a) b"
proof -
  have "{..<a + b} = {..<a} \<union> (\<lambda>i. a + i) ` {..<b}" 
  proof -
    have "x \<in> (\<lambda>i. a + i) ` {..<b}" if "x < a + b" "a \<le> x" for x using that by (intro image_eqI[of _ _ "x - a"]) auto
    then show ?thesis by (auto simp: not_less[symmetric])
  qed
  then show ?thesis by (simp add: urange_def image_Un image_image add.assoc)
qed

lemma user_read_add: "user_read m root va (a + b) = user_read m root va a @ user_read m root (va + of_nat a) b"
  by (rule nth_equalityI) (auto simp: user_read_def nth_append add.assoc simp flip: of_nat_add)

lemma length_user_read [simp]: "length (user_read m root va n) = n"
  by (simp add: user_read_def)

lemma unat_MAXVA: "unat MAXVA = 2 ^ 38"
  by (simp add: MAXVA_def push_bit_eq_mult)

lemma below_maxD:
  assumes "below_max va n" "i < n"
  shows "unat (va + of_nat i) = unat va + i" "va + of_nat i < MAXVA"
proof -
  have "i < 2 ^ 64" "unat va + i < 2 ^ 38" using assms by (auto simp: below_max_def)
  then show *: "unat (va + of_nat i) = unat va + i" by (subst unat_add_no_wrap) (simp_all add: unat_of_nat)
  then show "va + of_nat i < MAXVA" using \<open>unat va + i < 2 ^ 38\<close> by (simp add: word_less_nat_alt unat_MAXVA)
qed

text \<open>The addresses from \<open>va\<close> to the end of its page.\<close>

lemma in_page_room:
  assumes "below_max va n" "i < n" "i < page_room va"
  shows "pgno (va + of_nat i) = pgno va" "(va + of_nat i) mod 4096 = va mod 4096 + of_nat i"
proof -
  have r: "unat va mod 4096 + i < 4096" using assms(3) by (simp add: page_room_eq)
  have e: "unat va + i = (unat va mod 4096 + i) + unat va div 4096 * 4096" by simp
  have d: "(unat va + i) div 4096 = unat va div 4096" by (subst e, subst div_mult_self1) (use r in simp_all)
  have mm: "(unat va + i) mod 4096 = unat va mod 4096 + i" by (subst e, subst mod_mult_self1) (use r in simp_all)
  show "pgno (va + of_nat i) = pgno va" using d by (simp add: pgno_def below_maxD(1)[OF assms(1,2)])
  have "unat (va mod 4096 + of_nat i) = unat va mod 4096 + i"
    using r by (subst unat_add_no_wrap) (simp_all add: unat_mod unat_of_nat)
  then show "(va + of_nat i) mod 4096 = va mod 4096 + of_nat i"
    using mm by (simp add: word_unat_eq_iff[where 'a = 64] unat_mod below_maxD(1)[OF assms(1,2)])
qed

lemma page_next:
  assumes "below_max va n" "page_room va < n"
  shows "PGROUNDDOWN va + PGSIZE = va + of_nat (page_room va)"
proof -
  have "unat (va mod 4096) \<le> 4096" by (simp add: unat_mod)
  then have "(of_nat (page_room va) :: u64) = 4096 - va mod 4096"
    by (simp add: page_room_eq word_unat_eq_iff unat_of_nat unat_sub word_le_nat_alt unat_mod)
  then show ?thesis by (simp add: PGROUNDDOWN_eq PGSIZE_def)
qed

lemma below_max_rest: "below_max va n \<Longrightarrow> k < n \<Longrightarrow> below_max (va + of_nat k) (n - k)"
  using below_maxD(1)[of va n k] by (simp add: below_max_def)

section \<open>One page\<close>

lemma pgno_PGROUNDDOWN: "pgno (PGROUNDDOWN va) = pgno va"
  by (simp add: pgno_def unat_PGROUNDDOWN minus_mod_eq_mult_div)

lemma lookup_PGROUNDDOWN: "lookup m root (PGROUNDDOWN va) = lookup m root va" "pte_of m 2 root (PGROUNDDOWN va) = pte_of m 2 root va"
  using same_page_look[OF pgno_PGROUNDDOWN] by blast+

lemma PGROUNDDOWN_max: "va < MAXVA \<Longrightarrow> PGROUNDDOWN va < MAXVA"
  by (simp add: word_less_nat_alt unat_PGROUNDDOWN)

lemma user_page_run:
  assumes "pt_wf (mem s) lev T root" "va < MAXVA" "lookup (mem s) root va = Some v" "v AND PTE_U \<noteq> 0" "PTE2PA v \<noteq> 0"
  shows "user_page root (PGROUNDDOWN va) s = Ok (PTE2PA v) s"
  using assms(2-) PGROUNDDOWN_max[OF assms(2)]
  by (simp add: user_page_def run_kbind walkaddr_run[OF assms(1)] lookup_PGROUNDDOWN kret_def)

lemma chunk_uaddr:
  assumes "below_max va n" "i < n" "i < page_room va" "lookup m root va = Some v"
  shows "uaddr m root (va + of_nat i) = PTE2PA v + (va - PGROUNDDOWN va) + of_nat i"
  using assms(4) in_page_room(2)[OF assms(1-3)] same_page_look(1)[OF in_page_room(1)[OF assms(1-3)], of m 2 root]
  by (simp add: uaddr_def PGROUNDDOWN_eq)

lemma chunk_read:
  assumes "below_max va n" "k \<le> n" "k \<le> page_room va" "lookup m root va = Some v"
  shows "mem_read m (PTE2PA v + (va - PGROUNDDOWN va)) k = user_read m root va k"
  unfolding mem_read_def user_read_def
  using chunk_uaddr[OF assms(1) _ _ assms(4)] assms(2,3) by (intro map_cong) auto

lemma urange_start: "0 < n \<Longrightarrow> va \<in> urange va n"
  unfolding urange_def by (rule image_eqI[of _ _ 0]) auto

lemma below_max_start: "below_max va n \<Longrightarrow> 0 < n \<Longrightarrow> va < MAXVA"
  using below_maxD(2)[of va n 0] by simp

section \<open>The copies\<close>

lemma copyin_run:
  "pt_wf (mem s) lev T root \<Longrightarrow> below_max va n \<Longrightarrow> \<forall>a\<in>urange va n. umapped (mem s) root a \<Longrightarrow>
    copyin root va n s = Ok (0, user_read (mem s) root va n) s"
proof (induction root va n rule: copyin.induct)
  case (1 root va n)
  show ?case
  proof (cases "n = 0")
    case True
    then show ?thesis by (subst copyin.simps) (simp add: kret_def user_read_def)
  next
    case False
    then have max: "va < MAXVA" using below_max_start[OF 1(3)] by simp
    have "umapped (mem s) root va" using 1(4) urange_start[of n va] False by simp
    then obtain v where v: "lookup (mem s) root va = Some v" "v AND PTE_U \<noteq> 0" "PTE2PA v \<noteq> 0"
      by (auto simp: umapped_def split: option.splits)
    define k where "k = min (page_room va) n"
    have k: "k \<le> n" "k \<le> page_room va" "n = k + (n - k)" by (simp_all add: k_def)
    have rest: "copyin root (PGROUNDDOWN va + PGSIZE) (n - k) s = Ok (0, user_read (mem s) root (va + of_nat k) (n - k)) s"
    proof (cases "n \<le> page_room va")
      case True
      then show ?thesis by (subst copyin.simps) (simp add: k_def kret_def user_read_def)
    next
      case r: False
      then have nx: "PGROUNDDOWN va + PGSIZE = va + of_nat k" using page_next[OF 1(3)] by (simp add: k_def)
      have "\<forall>a\<in>urange (va + of_nat k) (n - k). umapped (mem s) root a"
        using 1(4) urange_add[of va k "n - k"] k by simp
      then show ?thesis
        using 1(1)[OF False refl refl, of "PTE2PA v"] 1(2) below_max_rest[OF 1(3), of k] r v
        unfolding k_def[symmetric] nx by (simp add: k_def)
    qed
    show ?thesis
      using user_page_run[OF _ max v] 1(2) rest False chunk_read[OF 1(3) k(1,2) v(1)] v(3)
        user_read_add[of "mem s" root va k "n - k"] k(3)
      by (subst copyin.simps) (simp add: Let_def run_kbind k_def[symmetric] kget_def kret_def)
  qed
qed

text \<open>Frames that are not pages of the table, and not shared between two pages of the range.\<close>

definition uframe :: "memory \<Rightarrow> u64 \<Rightarrow> u64 \<Rightarrow> u64" where
  "uframe m root va = (case lookup m root va of None \<Rightarrow> 0 | Some v \<Rightarrow> PTE2PA v)"

definition private_frames :: "memory \<Rightarrow> u64 set \<Rightarrow> u64 \<Rightarrow> u64 set \<Rightarrow> bool" where
  "private_frames m T root A \<longleftrightarrow>
     (\<forall>a\<in>A. uframe m root a \<notin> T) \<and> (\<forall>a\<in>A. \<forall>b\<in>A. uframe m root a = uframe m root b \<longrightarrow> pgno a = pgno b)"

lemma uaddr_split:
  assumes "umapped m root a"
  shows "uaddr m root a = uframe m root a + a mod 4096" "uframe m root a mod 4096 = 0" "pgno (uaddr m root a) = pgno (uframe m root a)"
proof -
  show *: "uaddr m root a = uframe m root a + a mod 4096" "uframe m root a mod 4096 = 0"
    using assms by (auto simp: umapped_def uaddr_def uframe_def split: option.splits)
  show "pgno (uaddr m root a) = pgno (uframe m root a)"
    unfolding *(1) by (rule pgno_add_offset[OF *(2)]) (simp add: unat_mod)
qed

lemma uaddr_inj:
  assumes "private_frames m T root A" "a \<in> A" "b \<in> A" "umapped m root a" "umapped m root b" "uaddr m root a = uaddr m root b"
  shows "a = b"
proof -
  note sp = uaddr_split[OF assms(4)] uaddr_split[OF assms(5)]
  have fr: "uframe m root a = uframe m root b" using pgno_inj[OF sp(2,5)] sp(3,6) assms(6) by simp
  then have "pgno a = pgno b" using assms(1-3) unfolding private_frames_def by blast
  moreover have "a mod 4096 = b mod 4096" using sp(1,4) fr assms(6) by simp
  then have "unat a mod 4096 = unat b mod 4096" by (simp add: word_unat_eq_iff unat_mod)
  ultimately have "unat a = unat b" unfolding pgno_def by (metis div_mult_mod_eq)
  then show ?thesis by (simp add: word_unat_eq_iff)
qed

lemma private_frames_sub: "private_frames m T root A \<Longrightarrow> B \<subseteq> A \<Longrightarrow> private_frames m T root B"
  by (auto simp: private_frames_def)

text \<open>What a copy to user memory leaves behind.\<close>

definition uwritten :: "memory \<Rightarrow> u64 set \<Rightarrow> u64 \<Rightarrow> u64 \<Rightarrow> u8 list \<Rightarrow> memory \<Rightarrow> bool" where
  "uwritten m T root va bs m' \<longleftrightarrow>
     same_on T m m' \<and> (\<forall>i<length bs. m' (uaddr m root (va + of_nat i)) = bs ! i)
     \<and> (\<forall>x. x \<notin> uaddr m root ` urange va (length bs) \<longrightarrow> m' x = m x)"

lemma written_lookup:
  assumes "pt_wf m lev T root" "uwritten m T root va bs m'"
  shows "pt_wf m' lev T root" "lookup m' root = lookup m root" "uaddr m' root = uaddr m root" "umapped m' root = umapped m root"
    "uwritable m' root = uwritable m root" "uframe m' root = uframe m root" "private_frames m' T root = private_frames m T root"
proof -
  have so: "same_on T m m'" using assms(2) by (simp add: uwritten_def)
  show "pt_wf m' lev T root" by (rule pt_wf_cong[OF assms(1) so])
  show l: "lookup m' root = lookup m root" using look_cong[OF assms(1) so] pt_wf_root[OF assms(1)] by blast
  show "uaddr m' root = uaddr m root" "umapped m' root = umapped m root" "uframe m' root = uframe m root"
    by (auto simp: uaddr_def umapped_def uframe_def l fun_eq_iff)
  then show "uwritable m' root = uwritable m root" "private_frames m' T root = private_frames m T root"
    by (auto simp: uwritable_def private_frames_def l fun_eq_iff)
qed

lemma written_chunk:
  assumes wf: "pt_wf m lev T root" and b: "below_max va n" and k: "k \<le> n" "k \<le> page_room va" "length bs = k"
    and v: "lookup m root va = Some v" and um: "\<forall>a\<in>urange va n. umapped m root a" and pf: "private_frames m T root (urange va n)"
  shows "uwritten m T root va bs (mem_write (PTE2PA v + (va - PGROUNDDOWN va)) bs m)"
proof -
  let ?a = "PTE2PA v + (va - PGROUNDDOWN va)" let ?m = "mem_write ?a bs m"
  have k64: "k < 2 ^ 64" using k page_room_pos(2)[of va] by simp
  have ua: "uaddr m root (va + of_nat i) = ?a + of_nat i" if "i < k" for i
    using chunk_uaddr[OF b _ _ v] that k by simp
  have in1: "?m (uaddr m root (va + of_nat i)) = bs ! i" if "i < k" for i
    using that k(3) k64 by (simp add: ua mem_write_def unat_of_nat)
  have out: "?m x = m x" if "x \<notin> uaddr m root ` urange va k" for x
  proof -
    have "\<not> unat (x - ?a) < k"
    proof
      assume lt: "unat (x - ?a) < k"
      define i where "i = unat (x - ?a)"
      have "x = ?a + of_nat i" by (simp add: i_def)
      then have "x = uaddr m root (va + of_nat i)" using ua[of i] lt by (simp only: i_def)
      moreover have "va + of_nat i \<in> urange va k" unfolding urange_def by (rule imageI) (use lt in \<open>simp add: i_def\<close>)
      ultimately show False using that by blast
    qed
    then show ?thesis using k(3) by (simp add: mem_write_def)
  qed
  have "same_on T m ?m"
    unfolding same_on_def
  proof (intro allI impI)
    fix x assume x: "pgno x \<in> pgno ` T"
    show "?m x = m x"
    proof (rule out, rule notI)
      assume "x \<in> uaddr m root ` urange va k"
      then obtain a where a: "a \<in> urange va n" "x = uaddr m root a" using urange_add[of va k "n - k"] k(1) by auto
      obtain t where t: "t \<in> T" "pgno x = pgno t" using x by auto
      have "uframe m root a = t"
        using pgno_inj[of "uframe m root a" t] uaddr_split[of m root a] um a t pt_wf_page[OF wf t(1)] by simp
      then show False using pf a(1) t(1) by (auto simp: private_frames_def)
    qed
  qed
  then show ?thesis using in1 out k(3) by (simp add: uwritten_def)
qed

lemma written_append:
  assumes wf: "pt_wf m lev T root" and w1: "uwritten m T root va bs m1" and w2: "uwritten m1 T root (va + of_nat (length bs)) cs m2"
    and b: "below_max va n" and n: "n = length bs + length cs" and um: "\<forall>a\<in>urange va n. umapped m root a"
    and pf: "private_frames m T root (urange va n)"
  shows "uwritten m T root va (bs @ cs) m2"
proof -
  note same = written_lookup[OF wf w1]
  have range: "urange va n = urange va (length bs) \<union> urange (va + of_nat (length bs)) (length cs)"
    unfolding n by (rule urange_add)
  have out2: "m2 x = m1 x" if "x \<notin> uaddr m root ` urange (va + of_nat (length bs)) (length cs)" for x
    using w2 that by (simp add: uwritten_def same(3))
  have "m2 (uaddr m root (va + of_nat i)) = (bs @ cs) ! i" if i: "i < n" for i
  proof (cases "i < length bs")
    case True
    have mem1: "va + of_nat i \<in> urange va n" using i by (auto simp: urange_def)
    have "uaddr m root (va + of_nat i) \<notin> uaddr m root ` urange (va + of_nat (length bs)) (length cs)"
    proof
      assume "uaddr m root (va + of_nat i) \<in> uaddr m root ` urange (va + of_nat (length bs)) (length cs)"
      then obtain j where j: "j < length cs" "uaddr m root (va + of_nat i) = uaddr m root (va + of_nat (length bs + j))"
        by (auto simp: urange_def add.assoc)
      have mem2: "va + of_nat (length bs + j) \<in> urange va n" unfolding urange_def by (rule imageI) (use j n in simp)
      have "va + of_nat i = va + of_nat (length bs + j)" using uaddr_inj[OF pf mem1 mem2 _ _ j(2)] um mem1 mem2 by blast
      then show False using below_maxD(1)[OF b i] below_maxD(1)[OF b, of "length bs + j"] j(1) n True by simp
    qed
    then show ?thesis using out2 w1 True by (simp add: uwritten_def nth_append)
  next
    case False
    define j where "j = i - length bs"
    have j: "i = length bs + j" "j < length cs" using False i n by (simp_all add: j_def)
    have "m2 (uaddr m1 root (va + of_nat (length bs) + of_nat j)) = cs ! j" using w2 j(2) by (simp add: uwritten_def)
    then show ?thesis unfolding j(1) by (simp add: same(3) add.assoc)
  qed
  moreover have "m2 x = m x" if "x \<notin> uaddr m root ` urange va n" for x
    using that out2[of x] w1 range by (simp add: uwritten_def image_Un)
  moreover have "same_on T m m2" using w1 w2 by (simp add: uwritten_def same_on_def)
  ultimately show ?thesis by (simp add: uwritten_def n)
qed

lemma copyout_step:
  assumes wf: "pt_wf (mem s) lev T root" and b: "below_max va (length bs)" and ne: "bs \<noteq> []" and w: "uwritable (mem s) root va"
  shows "copyout root va bs s = copyout root (PGROUNDDOWN va + PGSIZE) (drop (page_room va) bs)
    (s\<lparr>mem := mem_write (uframe (mem s) root va + (va - PGROUNDDOWN va)) (take (page_room va) bs) (mem s)\<rparr>)"
proof -
  have max: "va < MAXVA" "\<not> MAXVA \<le> PGROUNDDOWN va"
    using below_max_start[OF b] ne PGROUNDDOWN_max[of va] by (auto simp: not_le)
  obtain v where v: "lookup (mem s) root va = Some v" "v AND PTE_U \<noteq> 0" "PTE2PA v \<noteq> 0" "v AND PTE_W \<noteq> 0"
    using w by (auto simp: uwritable_def umapped_def split: option.splits)
  then obtain a where a: "pte_of (mem s) 2 root va = Some a" "load64 (mem s) a = v"
    by (auto simp: look_pte_of Let_def split: option.splits if_splits)
  have "walk root (PGROUNDDOWN va) False s = Ok a s"
    using max(2) a by (simp add: walk_noalloc lookup_PGROUNDDOWN not_le)
  then show ?thesis
    using user_page_run[OF wf max(1) v(1-3)] max(2) ne v a pte_of_nonzero[OF wf a(1)]
    by (subst copyout.simps) (simp add: Let_def run_kbind run_kthen kload_def kmod_def uframe_def min_def)
qed

lemma copyout_run:
  "pt_wf (mem s) lev T root \<Longrightarrow> below_max va (length bs) \<Longrightarrow> \<forall>a\<in>urange va (length bs). uwritable (mem s) root a \<Longrightarrow>
   private_frames (mem s) T root (urange va (length bs)) \<Longrightarrow>
   \<exists>m'. copyout root va bs s = Ok 0 (s\<lparr>mem := m'\<rparr>) \<and> uwritten (mem s) T root va bs m'"
proof (induction "length bs" arbitrary: va bs s rule: less_induct)
  case less
  show ?case
  proof (cases "bs = []")
    case True
    then show ?thesis by (subst copyout.simps) (auto simp: kret_def uwritten_def same_on_def intro!: exI[of _ "mem s"])
  next
    case False
    define k where "k = min (page_room va) (length bs)"
    let ?b1 = "take (page_room va) bs" and ?b2 = "drop (page_room va) bs"
    let ?m1 = "mem_write (uframe (mem s) root va + (va - PGROUNDDOWN va)) ?b1 (mem s)" let ?s1 = "s\<lparr>mem := ?m1\<rparr>"
    have k: "k \<le> length bs" "k \<le> page_room va" "length ?b1 = k" "length ?b2 = length bs - k" by (simp_all add: k_def)
    have w: "uwritable (mem s) root va" using less.prems(3) urange_start[of "length bs" va] False by simp
    have um: "\<forall>a\<in>urange va (length bs). umapped (mem s) root a" using less.prems(3) by (simp add: uwritable_def)
    obtain v where v: "lookup (mem s) root va = Some v" "uframe (mem s) root va = PTE2PA v"
      using w by (auto simp: uwritable_def umapped_def uframe_def split: option.splits)
    have w1: "uwritten (mem s) T root va ?b1 ?m1"
      using written_chunk[OF less.prems(1,2) k(1,2,3) v(1) um less.prems(4)] v(2) by simp
    note same = written_lookup[OF less.prems(1) w1]
    have sub: "urange (va + of_nat k) (length ?b2) \<subseteq> urange va (length bs)"
      using urange_add[of va k "length bs - k"] k by auto
    have "\<exists>m'. copyout root (PGROUNDDOWN va + PGSIZE) ?b2 ?s1 = Ok 0 (?s1\<lparr>mem := m'\<rparr>) \<and> uwritten ?m1 T root (va + of_nat k) ?b2 m'"
    proof (cases "?b2 = []")
      case True
      then show ?thesis
        by (subst copyout.simps) (auto simp: kret_def uwritten_def same_on_def intro!: exI[of _ ?m1])
    next
      case b2: False
      then have r: "page_room va < length bs" "k = page_room va" by (simp_all add: k_def)
      have "below_max (va + of_nat k) (length ?b2)" using below_max_rest[OF less.prems(2), of k] r by simp
      moreover have "\<forall>a\<in>urange (va + of_nat k) (length ?b2). uwritable ?m1 root a"
        using less.prems(3) sub unfolding same by blast
      moreover have "private_frames ?m1 T root (urange (va + of_nat k) (length ?b2))"
        unfolding same by (rule private_frames_sub[OF less.prems(4) sub])
      moreover have "length ?b2 < length bs" using False page_room_pos[of va] by simp
      ultimately show ?thesis
        using less.hyps[of ?b2 ?s1 "va + of_nat k"] same(1) page_next[OF less.prems(2) r(1)] r(2) by simp
    qed
    then obtain m' where m': "copyout root (PGROUNDDOWN va + PGSIZE) ?b2 ?s1 = Ok 0 (s\<lparr>mem := m'\<rparr>)"
      "uwritten ?m1 T root (va + of_nat (length ?b1)) ?b2 m'" unfolding k(3) by auto
    show ?thesis
      using written_append[OF less.prems(1) w1 m'(2) less.prems(2) _ um less.prems(4)] m'(1)
        copyout_step[OF less.prems(1,2) False w] by (intro exI[of _ m']) simp
  qed
qed

lemma written_read:
  assumes "pt_wf m lev T root" "uwritten m T root va bs m'"
  shows "user_read m' root va (length bs) = bs"
  using assms(2) unfolding user_read_def written_lookup(3)[OF assms]
  by (intro nth_equalityI) (simp_all add: uwritten_def)

section \<open>A small address space\<close>

text \<open>A table of three pages that maps the user pages 0 and 1, for reading and writing, to two frames.\<close>

definition demo_mem :: memory where
  "demo_mem =
     store64 0x87000000 (PA2PTE 0x87001000 OR PTE_V) (
     store64 0x87001000 (PA2PTE 0x87002000 OR PTE_V) (
     store64 0x87002000 (leaf_entry 0x87003000 (PTE_R OR PTE_W OR PTE_U)) (
     store64 0x87002008 (leaf_entry 0x87004000 (PTE_R OR PTE_W OR PTE_U)) (\<lambda>_. 0))))"

definition demo_level :: "u64 \<Rightarrow> nat" where
  "demo_level p = (if p = 0x87000000 then 2 else if p = 0x87001000 then 1 else 0)"

definition demo_tables :: "u64 set" where
  "demo_tables = {0x87000000, 0x87001000, 0x87002000}"

lemma load_store_pte:
  assumes "p mod 4096 = 0" "q mod 4096 = 0"
  shows "load64 (store64 (pte_addr q k vb) v m) (pte_addr p l va)
    = (if p = q \<and> PX l va = PX k vb then v else load64 m (pte_addr p l va))"
proof (cases "pte_addr q k vb = pte_addr p l va")
  case True
  then show ?thesis using pte_addr_inj[OF assms(2,1) True] by simp
next
  case False
  then have "\<not> (p = q \<and> PX l va = PX k vb)" by (auto simp: pte_addr_def)
  then show ?thesis using load64_store64_other[OF pte_addr_aligned[OF assms(2)] pte_addr_aligned[OF assms(1)] False] by auto
qed

lemma demo_PX: "PX l 0 = 0" "PX 0 0x1000 = 1" "PX 1 0x1000 = 0" "PX 2 0x1000 = 0"
  by (simp_all add: PX_def PGSHIFT_def drop_bit_eq_div)

lemma demo_load:
  assumes "p mod 4096 = 0"
  shows "load64 demo_mem (pte_addr p l va) =
    (if p = 0x87000000 \<and> PX l va = 0 then PA2PTE 0x87001000 OR PTE_V
     else if p = 0x87001000 \<and> PX l va = 0 then PA2PTE 0x87002000 OR PTE_V
     else if p = 0x87002000 \<and> PX l va = 0 then leaf_entry 0x87003000 (PTE_R OR PTE_W OR PTE_U)
     else if p = 0x87002000 \<and> PX l va = 1 then leaf_entry 0x87004000 (PTE_R OR PTE_W OR PTE_U) else 0)"
proof -
  have "0x87000000 = pte_addr 0x87000000 0 0" "0x87001000 = pte_addr 0x87001000 0 0" "0x87002000 = pte_addr 0x87002000 0 0"
    "0x87002008 = pte_addr 0x87002000 0 0x1000" by (simp_all add: pte_addr_def demo_PX)
  then have m: "demo_mem =
     store64 (pte_addr 0x87000000 0 0) (PA2PTE 0x87001000 OR PTE_V) (
     store64 (pte_addr 0x87001000 0 0) (PA2PTE 0x87002000 OR PTE_V) (
     store64 (pte_addr 0x87002000 0 0) (leaf_entry 0x87003000 (PTE_R OR PTE_W OR PTE_U)) (
     store64 (pte_addr 0x87002000 0 0x1000) (leaf_entry 0x87004000 (PTE_R OR PTE_W OR PTE_U)) (\<lambda>_. 0))))"
    by (simp add: demo_mem_def)
  have z: "load64 (\<lambda>_. 0) a = 0" for a by (simp add: load64_def mem_read_def le_word_def)
  show ?thesis unfolding m using assms by (simp add: load_store_pte demo_PX z)
qed

lemma demo_inner:
  assumes "p \<in> demo_tables" "demo_level p = Suc l" "bit (load64 demo_mem (pte_addr p k va)) 0"
  shows "PX k va = 0" "(l = 1 \<and> p = 0x87000000 \<and> PTE2PA (load64 demo_mem (pte_addr p k va)) = 0x87001000)
    \<or> (l = 0 \<and> p = 0x87001000 \<and> PTE2PA (load64 demo_mem (pte_addr p k va)) = 0x87002000)"
proof -
  have p: "p = 0x87000000 \<and> l = 1 \<or> p = 0x87001000 \<and> l = 0"
    using assms(1,2) by (auto simp: demo_tables_def demo_level_def split: if_splits)
  then show px: "PX k va = 0" using assms(3) by (elim disjE) (simp_all add: demo_load split: if_splits)
  show "(l = 1 \<and> p = 0x87000000 \<and> PTE2PA (load64 demo_mem (pte_addr p k va)) = 0x87001000)
    \<or> (l = 0 \<and> p = 0x87001000 \<and> PTE2PA (load64 demo_mem (pte_addr p k va)) = 0x87002000)"
    using p px by (elim disjE) (simp_all add: demo_load)
qed

lemma demo_wf: "pt_wf demo_mem demo_level demo_tables 0x87000000"
proof (rule pt_wfI)
  show "PTE2PA (load64 demo_mem (pte_addr p (Suc l) va)) \<in> demo_tables \<and> demo_level (PTE2PA (load64 demo_mem (pte_addr p (Suc l) va))) = l"
    if "p \<in> demo_tables" "demo_level p = Suc l" "bit (load64 demo_mem (pte_addr p (Suc l) va)) 0" for p l va
    using demo_inner(2)[OF that] by (elim disjE conjE; simp add: demo_tables_def demo_level_def)
  show "p = q \<and> PX (Suc l) va = PX (Suc l) vb"
    if "p \<in> demo_tables" "q \<in> demo_tables" "demo_level p = Suc l" "demo_level q = Suc l"
      "bit (load64 demo_mem (pte_addr p (Suc l) va)) 0" "bit (load64 demo_mem (pte_addr q (Suc l) vb)) 0" for p q l va vb
    using demo_inner[OF that(1,3,5)] demo_inner[OF that(2,4,6)] by (elim disjE conjE; simp)
qed (auto simp: demo_tables_def demo_level_def)

lemma demo_leaf:
  assumes "PX 2 a = 0" "PX 1 a = 0" "load64 demo_mem (pte_addr 0x87002000 0 a) = leaf_entry pa perm"
  shows "lookup demo_mem 0x87000000 a = Some (leaf_entry pa perm)"
proof -
  have "load64 demo_mem (pte_addr 0x87000000 2 a) = PA2PTE 0x87001000 OR PTE_V"
    "load64 demo_mem (pte_addr 0x87001000 1 a) = PA2PTE 0x87002000 OR PTE_V"
    using assms(1,2) by (simp_all add: demo_load)
  moreover have "PTE2PA (PA2PTE 0x87001000 OR PTE_V) = 0x87001000" "PTE2PA (PA2PTE 0x87002000 OR PTE_V) = 0x87002000" by simp_all
  ultimately show ?thesis using assms(3) by (simp add: numeral_2_eq_2 Let_def)
qed

lemma demo_lookup:
  assumes "pgno a < 2"
  shows "lookup demo_mem 0x87000000 a = Some (leaf_entry (if pgno a = 0 then 0x87003000 else 0x87004000) (PTE_R OR PTE_W OR PTE_U))"
proof -
  have 1: "lookup demo_mem 0x87000000 0 = Some (leaf_entry 0x87003000 (PTE_R OR PTE_W OR PTE_U))"
    by (rule demo_leaf) (simp_all add: demo_load demo_PX)
  have 2: "lookup demo_mem 0x87000000 0x1000 = Some (leaf_entry 0x87004000 (PTE_R OR PTE_W OR PTE_U))"
    by (rule demo_leaf[OF demo_PX(4,3)]) (simp add: demo_load demo_PX(2))
  show ?thesis
  proof (cases "pgno a = 0")
    case True
    then have "pgno a = pgno 0" by (simp add: pgno_def)
    then show ?thesis using 1 True by (simp only: same_page_look(1)[of a 0]) simp
  next
    case False
    then have "pgno a = pgno 0x1000" using assms by (simp add: pgno_def)
    then show ?thesis using 2 False by (simp only: same_page_look(1)[of a "0x1000"]) simp
  qed
qed

lemma demo_frame:
  assumes "pgno a < 2"
  shows "uframe demo_mem 0x87000000 a = (if pgno a = 0 then 0x87003000 else 0x87004000)" "uwritable demo_mem 0x87000000 a"
proof -
  let ?perm = "PTE_R OR PTE_W OR PTE_U"
  have pa: "PTE2PA (leaf_entry pa ?perm) = pa" if "pa mod 4096 = 0" for pa
    unfolding leaf_entry_def or.assoc by (rule PTE2PA_PA2PTE) (use that in \<open>simp_all add: pte_bits\<close>)
  have "bit (leaf_entry pa ?perm AND PTE_U) 4" "bit (leaf_entry pa ?perm AND PTE_W) 2" for pa
    by (simp_all add: leaf_entry_def pte_bits bit_simps)
  then have perm: "leaf_entry pa ?perm AND PTE_U \<noteq> 0" "leaf_entry pa ?perm AND PTE_W \<noteq> 0" for pa
    by (metis bit_0_eq bot_apply bot_bool_def)+
  show "uframe demo_mem 0x87000000 a = (if pgno a = 0 then 0x87003000 else 0x87004000)"
    using demo_lookup[OF assms] by (simp add: uframe_def pa)
  show "uwritable demo_mem 0x87000000 a"
    using demo_lookup[OF assms] perm by (simp add: uwritable_def umapped_def pa)
qed

section \<open>Properties\<close>

text \<open>
  C8: What the kernel copies to a writable range of user memory is what it reads back from there, however the range
  crosses pages and wherever the page table puts them. The copies return, no byte of physical memory changes but those behind
  the range, and the page table is not touched.
\<close>

theorem copy_round_trip:
  assumes "pt_wf (mem s) lev T root" "below_max va (length bs)" "\<forall>a\<in>urange va (length bs). uwritable (mem s) root a"
    "private_frames (mem s) T root (urange va (length bs))"
  shows "\<exists>s'. copyout root va bs s = Ok 0 s' \<and> copyin root va (length bs) s' = Ok (0, bs) s'
     \<and> (\<forall>x. x \<notin> uaddr (mem s) root ` urange va (length bs) \<longrightarrow> mem s' x = mem s x)
     \<and> lookup (mem s') root = lookup (mem s) root"
proof -
  obtain m' where m': "copyout root va bs s = Ok 0 (s\<lparr>mem := m'\<rparr>)" "uwritten (mem s) T root va bs m'"
    using copyout_run[OF assms] by blast
  note same = written_lookup[OF assms(1) m'(2)]
  have "copyin root va (length bs) (s\<lparr>mem := m'\<rparr>) = Ok (0, user_read m' root va (length bs)) (s\<lparr>mem := m'\<rparr>)"
    using copyin_run[of "s\<lparr>mem := m'\<rparr>" lev T root va "length bs"] same(1) assms(2,3) by (simp add: same uwritable_def)
  then show ?thesis using m' written_read[OF assms(1) m'(2)] same(2) by (simp add: uwritten_def)
qed

text \<open>The string crosses from the first page to the second, which lie in different frames.\<close>

theorem copy_round_trip_witness:
  "\<exists>s s' :: proc_machine. copyout 0x87000000 0xFFE [1, 2, 3, 4] s = Ok 0 s' \<and> copyin 0x87000000 0xFFE 4 s' = Ok (0, [1, 2, 3, 4]) s'"
proof -
  let ?s = "(demo_table (\<lambda>_. proc0) None)\<lparr>mem := demo_mem\<rparr>"
  have r: "urange 0xFFE 4 = {0xFFE, 0xFFF, 0x1000, 0x1001}" by (simp add: urange_def lessThan_Suc numeral_eq_Suc insert_commute)
  have "\<forall>a\<in>urange 0xFFE 4. pgno a < 2" by (simp add: r pgno_def)
  then have "\<forall>a\<in>urange 0xFFE 4. uwritable demo_mem 0x87000000 a" "private_frames demo_mem demo_tables 0x87000000 (urange 0xFFE 4)"
    using less_2_cases by (fastforce simp: demo_frame private_frames_def demo_tables_def split: if_splits)+
  moreover have l: "length [1, 2, 3, 4 :: u8] = 4" by simp
  ultimately have "\<forall>a\<in>urange 0xFFE (length [1, 2, 3, 4 :: u8]). uwritable (mem ?s) 0x87000000 a"
    "private_frames (mem ?s) demo_tables 0x87000000 (urange 0xFFE (length [1, 2, 3, 4 :: u8]))"
    "pt_wf (mem ?s) demo_level demo_tables 0x87000000" "below_max 0xFFE (length [1, 2, 3, 4 :: u8])"
    unfolding l by (simp_all add: demo_wf below_max_def)
  from copy_round_trip[OF this(3,4,1,2)] show ?thesis unfolding l by blast
qed

end
