(* ===== verification/Ring.thy ===== *)
theory Ring
  imports Prelude
begin

text \<open>
  Ring buffers with 32-bit counters that only grow, as pipes and the console input use them: the byte number \<open>k\<close> is at place
  \<open>k mod N\<close>, and the counters wrap around at \<open>2 ^ 32\<close>. The bytes between two counters form a queue; the interface \<open>fifo\<close> states
  what a client may rely on.
\<close>

section \<open>The bytes between two counters\<close>

definition ring :: "nat \<Rightarrow> (nat \<Rightarrow> u8) \<Rightarrow> u32 \<Rightarrow> u32 \<Rightarrow> u8 list" where
  "ring N d r w = map (\<lambda>i. d ((unat r + i) mod N)) [0..<unat (w - r)]"

lemma length_ring [simp]: "length (ring N d r w) = unat (w - r)"
  by (simp add: ring_def)

lemma ring_same [simp]: "ring N d r r = []"
  by (simp add: ring_def)

lemma ring_empty: "ring N d r w = [] \<longleftrightarrow> r = w"
  by (auto simp: ring_def unat_eq_zero)

lemma ring_full:
  assumes "unat (w - r :: u32) \<le> N" "N < 2 ^ 32"
  shows "w = r + of_nat N \<longleftrightarrow> unat (w - r) = N"
proof
  assume "w = r + of_nat N"
  then show "unat (w - r) = N" using assms(2) by (simp add: unat_of_nat)
next
  assume "unat (w - r) = N"
  then have "w - r = of_nat N" by auto
  then show "w = r + of_nat N" by (simp add: algebra_simps)
qed

text \<open>A size that divides the range of the counters makes places insensitive to the wrap-around.\<close>

lemma unat_add_mod:
  assumes "N dvd 2 ^ 32"
  shows "unat (r + of_nat i :: u32) mod N = (unat r + i) mod N"
proof -
  have "unat (r + of_nat i :: u32) = (unat r + i) mod 2 ^ 32" by (simp add: unat_word_ariths unat_of_nat mod_simps)
  then show ?thesis using assms by (simp add: mod_mod_cancel)
qed

lemma unat_Suc_diff:
  assumes "unat (w - r :: u32) < 2 ^ 32 - 1"
  shows "unat (w + 1 - r) = Suc (unat (w - r))"
proof -
  have e: "w + 1 - r = (w - r) + 1" by simp
  show ?thesis unfolding e using assms by (simp add: unat_word_ariths)
qed

lemma ring_push:
  assumes "N dvd 2 ^ 32" "unat (w - r) < N" "N < 2 ^ 32"
  shows "ring N (d(unat w mod N := c)) r (w + 1) = ring N d r w @ [c]"
proof -
  define n where "n = unat (w - r)"
  have w: "w = r + of_nat n" by (simp add: n_def)
  have wm: "unat w mod N = (unat r + n) mod N" unfolding w by (rule unat_add_mod[OF assms(1)])
  have s: "unat (w + 1 - r) = Suc n" unfolding n_def by (rule unat_Suc_diff) (use assms in simp)
  have "(unat r + i) mod N \<noteq> (unat r + n) mod N" if "i < n" for i
  proof
    assume eq: "(unat r + i) mod N = (unat r + n) mod N"
    have "N dvd (unat r + n) - (unat r + i)" using eq that mod_eq_dvd_iff_nat[of "unat r + i" "unat r + n" N] by simp
    then have "N dvd n - i" by simp
    then show False using that assms(2) n_def by (auto dest: dvd_imp_le)
  qed
  then show ?thesis unfolding ring_def s by (simp add: wm n_def[symmetric])
qed

lemma ring_pop:
  assumes "N dvd 2 ^ 32" "r \<noteq> w"
  shows "ring N d r w = d (unat r mod N) # ring N d (r + 1) w" "unat (w - r) = Suc (unat (w - (r + 1)))"
proof -
  define n where "n = unat (w - (r + 1))"
  have "w - r \<noteq> 0" "unat (w - r) \<noteq> 0" using assms(2) by (auto simp: unat_eq_zero)
  moreover have e: "w - (r + 1) = (w - r) - 1" by (simp add: algebra_simps)
  ultimately show s: "unat (w - r) = Suc (unat (w - (r + 1)))" unfolding e using unat_minus_one[of "w - r"] by simp
  have "ring N d r w = d (unat r mod N) # map (\<lambda>i. d ((unat r + Suc i) mod N)) [0..<n]"
    unfolding ring_def s n_def[symmetric] by (simp add: upt_conv_Cons map_Suc_upt[symmetric] comp_def del: upt_Suc map_Suc_upt)
  moreover have "(unat (r + 1) + i) mod N = (unat r + Suc i) mod N" for i
  proof -
    have "unat (r + 1) mod N = (unat r + 1) mod N" using unat_add_mod[OF assms(1), of r 1] by simp
    then show ?thesis by (metis add.commute add_Suc_right mod_add_left_eq plus_1_eq_Suc add.assoc)
  qed
  ultimately show "ring N d r w = d (unat r mod N) # ring N d (r + 1) w" by (simp add: ring_def n_def)
qed

lemma ring_last:
  assumes "N dvd 2 ^ 32" "w \<noteq> r" "unat (w - r) \<le> N" "N < 2 ^ 32"
  shows "ring N d r w = ring N d r (w - 1) @ [d (unat (w - 1) mod N)]" "unat (w - r) = Suc (unat (w - 1 - r))"
proof -
  have "w - r \<noteq> 0" "unat (w - r) \<noteq> 0" using assms(2) by (auto simp: unat_eq_zero)
  moreover have e: "w - 1 - r = (w - r) - 1" by (simp add: algebra_simps)
  ultimately show s: "unat (w - r) = Suc (unat (w - 1 - r))" unfolding e using unat_minus_one[of "w - r"] by simp
  then show "ring N d r w = ring N d r (w - 1) @ [d (unat (w - 1) mod N)]"
    using ring_push[of N "w - 1" r d "d (unat (w - 1) mod N)"] assms by simp
qed

lemma ring_append:
  assumes "N dvd 2 ^ 32" "unat (m - r) + unat (w - m) = unat (w - r)"
  shows "ring N d r w = ring N d r m @ ring N d m w"
proof -
  have "(unat m + i) mod N = (unat r + (unat (m - r) + i)) mod N" for i
  proof -
    have "unat m mod N = (unat r + unat (m - r)) mod N" using unat_add_mod[OF assms(1), of r "unat (m - r)"] by simp
    then show ?thesis by (metis add.assoc mod_add_left_eq)
  qed
  then show ?thesis unfolding ring_def assms(2)[symmetric] by (intro nth_equalityI) (auto simp: nth_append)
qed

section \<open>The interface\<close>

locale fifo =
  fixes ok :: "'q \<Rightarrow> bool" and contents :: "'q \<Rightarrow> 'a list" and cap :: nat
    and push :: "'a \<Rightarrow> 'q \<Rightarrow> 'q" and front :: "'q \<Rightarrow> 'a" and pop :: "'q \<Rightarrow> 'q"
    and full :: "'q \<Rightarrow> bool" and empty :: "'q \<Rightarrow> bool"
  assumes push_law: "ok q \<Longrightarrow> \<not> full q \<Longrightarrow> ok (push c q) \<and> contents (push c q) = contents q @ [c]"
    and pop_law: "ok q \<Longrightarrow> contents q = c # cs \<Longrightarrow> front q = c \<and> ok (pop q) \<and> contents (pop q) = cs"
    and full_law: "ok q \<Longrightarrow> length (contents q) \<le> cap \<and> (full q \<longleftrightarrow> length (contents q) = cap)"
    and empty_law: "ok q \<Longrightarrow> empty q \<longleftrightarrow> contents q = []"
begin

definition room :: "'q \<Rightarrow> nat" where
  "room q = cap - length (contents q)"

lemma room_step: "ok q \<Longrightarrow> 0 < room q \<Longrightarrow> \<not> full q \<and> room (push c q) = room q - 1"
  using full_law[of q] push_law[of q c] by (auto simp: room_def)

lemma room_0: "ok q \<Longrightarrow> room q = 0 \<longleftrightarrow> full q"
  using full_law[of q] by (auto simp: room_def)

lemma pushes: "ok q \<Longrightarrow> length cs \<le> room q \<Longrightarrow> ok (fold push cs q) \<and> contents (fold push cs q) = contents q @ cs"
proof (induction cs arbitrary: q)
  case (Cons c cs)
  have "ok (push c q) \<and> contents (push c q) = contents q @ [c] \<and> room (push c q) = room q - 1"
    using room_step[of q c] push_law[of q c] Cons.prems by auto
  then show ?case using Cons.IH[of "push c q"] Cons.prems by simp
qed simp

lemma pops: "ok q \<Longrightarrow> n \<le> length (contents q) \<Longrightarrow> ok ((pop ^^ n) q) \<and> contents ((pop ^^ n) q) = drop n (contents q)"
proof (induction n)
  case (Suc n)
  have ih: "ok ((pop ^^ n) q) \<and> contents ((pop ^^ n) q) = drop n (contents q)" using Suc by simp
  then have "contents ((pop ^^ n) q) = (contents q ! n) # drop (Suc n) (contents q)" using Suc.prems by (simp add: Cons_nth_drop_Suc)
  then show ?case using pop_law[of "(pop ^^ n) q"] ih by simp
qed simp

lemma front_nth: "ok q \<Longrightarrow> n < length (contents q) \<Longrightarrow> \<not> empty ((pop ^^ n) q) \<and> front ((pop ^^ n) q) = contents q ! n"
  using pops[of q n] empty_law[of "(pop ^^ n) q"] pop_law[of "(pop ^^ n) q" "contents q ! n" "drop (Suc n) (contents q)"]
  by (simp add: Cons_nth_drop_Suc)

end

end
