(* ===== verification/Pipe_Laws.thy ===== *)
theory Pipe_Laws
  imports Pipe User_Copy Ring
begin

text \<open>
  A pipe is a bounded queue of bytes: \<^verbatim>\<open>pipewrite\<close> appends what the writer has in its memory, \<^verbatim>\<open>piperead\<close> takes from the
  front, across the wrap-around of the counters. The ring of \<^verbatim>\<open>kernel/pipe.c\<close> provides the interface of queues.
\<close>

section \<open>The ring of a pipe\<close>

definition pipe_push :: "u8 \<Rightarrow> pipe \<Rightarrow> pipe" where
  "pipe_push c x = x\<lparr>pi_data := (pi_data x)(unat (pi_nwrite x) mod PIPESIZE := c), pi_nwrite := pi_nwrite x + 1\<rparr>"

definition pipe_pop :: "pipe \<Rightarrow> pipe" where
  "pipe_pop x = x\<lparr>pi_nread := pi_nread x + 1\<rparr>"

definition pipe_front :: "pipe \<Rightarrow> u8" where
  "pipe_front x = pi_data x (unat (pi_nread x) mod PIPESIZE)"

definition pipe_ok :: "pipe \<Rightarrow> bool" where
  "pipe_ok x \<longleftrightarrow> unat (pi_nwrite x - pi_nread x) \<le> PIPESIZE"

definition pipe_queue :: "pipe \<Rightarrow> u8 list" where
  "pipe_queue x = ring PIPESIZE (pi_data x) (pi_nread x) (pi_nwrite x)"

definition pipe_full :: "pipe \<Rightarrow> bool" where
  "pipe_full x \<longleftrightarrow> pi_nwrite x = pi_nread x + of_nat PIPESIZE"

definition pipe_empty :: "pipe \<Rightarrow> bool" where
  "pipe_empty x \<longleftrightarrow> pi_nread x = pi_nwrite x"

lemma pipe_full_iff: "pipe_ok x \<Longrightarrow> pipe_full x \<longleftrightarrow> unat (pi_nwrite x - pi_nread x) = PIPESIZE"
  unfolding pipe_full_def pipe_ok_def by (rule ring_full) (simp_all add: PIPESIZE_def)

interpretation pipe_fifo: fifo pipe_ok pipe_queue PIPESIZE pipe_push pipe_front pipe_pop pipe_full pipe_empty
proof
  show "pipe_ok (pipe_push c x) \<and> pipe_queue (pipe_push c x) = pipe_queue x @ [c]" if "pipe_ok x" "\<not> pipe_full x" for x c
  proof -
    have "unat (pi_nwrite x - pi_nread x) < PIPESIZE" using that pipe_full_iff[OF that(1)] by (simp add: pipe_ok_def)
    then show ?thesis
      using ring_push[of PIPESIZE "pi_nwrite x" "pi_nread x"] unat_Suc_diff[of "pi_nwrite x" "pi_nread x"]
      by (simp add: pipe_ok_def pipe_queue_def pipe_push_def PIPESIZE_def)
  qed
  show "pipe_front x = c \<and> pipe_ok (pipe_pop x) \<and> pipe_queue (pipe_pop x) = cs" if "pipe_ok x" "pipe_queue x = c # cs" for x c cs
  proof -
    have "pi_nread x \<noteq> pi_nwrite x" using that(2) unfolding pipe_queue_def by (metis list.distinct(1) ring_empty)
    then show ?thesis
      using ring_pop[of PIPESIZE "pi_nread x" "pi_nwrite x"] that
      by (simp add: pipe_ok_def pipe_queue_def pipe_front_def pipe_pop_def) (simp add: PIPESIZE_def)
  qed
  show "length (pipe_queue x) \<le> PIPESIZE \<and> (pipe_full x \<longleftrightarrow> length (pipe_queue x) = PIPESIZE)" if "pipe_ok x" for x
    using that pipe_full_iff[OF that] by (simp add: pipe_ok_def pipe_queue_def)
  show "pipe_empty x \<longleftrightarrow> pipe_queue x = []" if "pipe_ok x" for x
    by (simp add: pipe_empty_def pipe_queue_def ring_empty)
qed

lemma pipe_flags [simp]:
  "pi_readopen (pipe_push c x) = pi_readopen x" "pi_writeopen (pipe_push c x) = pi_writeopen x"
  "pi_readopen (pipe_pop x) = pi_readopen x" "pi_writeopen (pipe_pop x) = pi_writeopen x"
  by (simp_all add: pipe_push_def pipe_pop_def)

section \<open>Writing\<close>

text \<open>A thread of process \<open>p\<close> that holds no lock, and one that holds the lock of the pipe.\<close>

definition runs :: "nat \<Rightarrow> 'z proc_machine_scheme \<Rightarrow> bool" where
  "runs p s \<longleftrightarrow> hart_ok (hart s) \<and> noff (cur (hart s)) = 0 \<and> cpu_proc (cur (hart s)) = Some p \<and> (\<forall>l. lock_free l (hart s))"

definition in_pipe :: "u64 \<Rightarrow> nat \<Rightarrow> harts \<Rightarrow> 'z pipe_machine_scheme \<Rightarrow> bool" where
  "in_pipe pi p h t \<longleftrightarrow> hart t = acq (Lpipe pi) h \<and> hart_ok h \<and> noff (cur h) = 0 \<and> cpu_proc (cur h) = Some p \<and> (\<forall>l. lock_free l h)"

lemma in_pipeD:
  assumes "in_pipe pi p h t"
  shows "hart t = acq (Lpipe pi) h" "hart_ok h" "noff (cur h) = 0" "cpu_proc (cur h) = Some p" "lock_free l h"
  using assms by (simp_all add: in_pipe_def)

lemma in_pipe_cong:
  fixes t t' :: "'z pipe_machine_scheme"
  shows "in_pipe pi p h t \<Longrightarrow> hart t' = hart t \<Longrightarrow> in_pipe pi p h t'"
  by (simp add: in_pipe_def)

lemma killed_run: "in_pipe pi p h t \<Longrightarrow> killed p t = Ok (p_killed (procs t p)) t"
  using in_pipeD[of pi p h t] by (simp add: killed_def run_kthen run_kbind acquire_run release_run get_proc_def kret_def)

lemma wakeup_in_pipe:
  assumes "in_pipe pi p h t"
  shows "wakeup ch t = Ok () (t\<lparr>procs := woken (Some p) ch {..<NPROC} (procs t)\<rparr>)"
proof -
  have "proc_ready t" using in_pipeD[OF assms] by (simp add: proc_ready_def)
  then show ?thesis using wakeup_run[of t ch] in_pipeD[OF assms] by simp
qed

lemma release_in_pipe:
  "in_pipe pi p h t \<Longrightarrow> release (Lpipe pi) t = Ok () (t\<lparr>hart := scrub h\<rparr>)"
  using in_pipeD[of pi p h t] by (simp add: release_run)

text \<open>The memory of a process: its page table is well formed, and the range is mapped.\<close>

definition user_src :: "'z proc_machine_scheme \<Rightarrow> nat \<Rightarrow> u64 \<Rightarrow> nat \<Rightarrow> bool" where
  "user_src s p va n \<longleftrightarrow> (\<exists>lev T. pt_wf (mem s) lev T (p_pagetable (procs s p))) \<and> below_max va n
     \<and> (\<forall>a\<in>urange va n. umapped (mem s) (p_pagetable (procs s p)) a)"

definition user_bytes :: "'z proc_machine_scheme \<Rightarrow> nat \<Rightarrow> u64 \<Rightarrow> nat \<Rightarrow> u8 list" where
  "user_bytes s p va n = user_read (mem s) (p_pagetable (procs s p)) va n"

lemma user_src_split:
  assumes "user_src s p va (Suc n)"
  shows "user_src s p va 1" "user_src s p (va + 1) n" "user_bytes s p va (Suc n) = mem s (uaddr (mem s) (p_pagetable (procs s p)) va) # user_bytes s p (va + 1) n"
proof -
  have u: "urange va (Suc n) = urange va 1 \<union> urange (va + 1) n" using urange_add[of va 1 n] by simp
  show "user_src s p va 1" using assms u by (auto simp: user_src_def below_max_def)
  have "unat (va + 1) = unat va + 1" using assms by (simp add: user_src_def below_max_def unat_word_ariths)
  then have "below_max (va + 1) n" using assms by (simp add: user_src_def below_max_def)
  then show "user_src s p (va + 1) n" using assms u by (auto simp: user_src_def)
  show "user_bytes s p va (Suc n) = mem s (uaddr (mem s) (p_pagetable (procs s p)) va) # user_bytes s p (va + 1) n"
    using user_read_add[of "mem s" _ va 1 n] by (simp add: user_bytes_def user_read_def)
qed

lemma copyin_byte:
  "user_src s p va 1 \<Longrightarrow> copyin (p_pagetable (procs s p)) va 1 s = Ok (0, [mem s (uaddr (mem s) (p_pagetable (procs s p)) va)]) s"
  using copyin_run[of s _ _ "p_pagetable (procs s p)" va 1] by (auto simp: user_src_def user_read_def)

lemma pipewrite_step:
  assumes t: "in_pipe pi p h t" and o: "pi_readopen (pipes t pi)" "p_killed (procs t p) = 0" and f: "\<not> pipe_full (pipes t pi)"
    and u: "user_src t p (addr + of_nat i) 1"
  shows "pipewrite_loop pi p addr i (Suc left) t = pipewrite_loop pi p addr (Suc i) left
    (t\<lparr>pipes := (pipes t)(pi := pipe_push (mem t (uaddr (mem t) (p_pagetable (procs t p)) (addr + of_nat i))) (pipes t pi))\<rparr>)"
  using o f copyin_byte[OF u] killed_run[OF t]
  by (simp add: run_kbind run_kthen get_pipe_def set_pipe_def get_proc_def pipe_full_def pipe_push_def)

lemma pipewrite_fill:
  "in_pipe pi p h t \<Longrightarrow> pi_readopen (pipes t pi) \<Longrightarrow> p_killed (procs t p) = 0 \<Longrightarrow> pipe_ok (pipes t pi) \<Longrightarrow>
   user_src t p (addr + of_nat i) k \<Longrightarrow> k \<le> pipe_fifo.room (pipes t pi) \<Longrightarrow>
   pipewrite_loop pi p addr i (k + left) t = pipewrite_loop pi p addr (i + k) left
     (t\<lparr>pipes := (pipes t)(pi := fold pipe_push (user_bytes t p (addr + of_nat i) k) (pipes t pi))\<rparr>)"
proof (induction k arbitrary: i t)
  case 0
  then show ?case by (simp add: user_bytes_def user_read_def)
next
  case (Suc k)
  let ?c = "mem t (uaddr (mem t) (p_pagetable (procs t p)) (addr + of_nat i))"
  let ?t = "t\<lparr>pipes := (pipes t)(pi := pipe_push ?c (pipes t pi))\<rparr>"
  note sp = user_src_split[OF Suc.prems(5)]
  have room: "\<not> pipe_full (pipes t pi)" "k \<le> pipe_fifo.room (pipe_push ?c (pipes t pi))"
    using pipe_fifo.room_step[OF Suc.prems(4), of ?c] Suc.prems(6) by auto
  define t1 where "t1 = ?t"
  have f: "mem t1 = mem t" "procs t1 = procs t" "hart t1 = hart t" "pipes t1 pi = pipe_push ?c (pipes t pi)"
    "t1\<lparr>pipes := (pipes t1)(pi := y)\<rparr> = t\<lparr>pipes := (pipes t)(pi := y)\<rparr>" for y by (simp_all add: t1_def)
  have nx: "addr + of_nat (Suc i) = (addr + of_nat i) + 1" by simp
  have "user_src t1 p (addr + of_nat (Suc i)) k" using sp(2) unfolding nx by (simp add: user_src_def f)
  then have ih: "pipewrite_loop pi p addr (Suc i) (k + left) t1 = pipewrite_loop pi p addr (Suc i + k) left
     (t1\<lparr>pipes := (pipes t1)(pi := fold pipe_push (user_bytes t1 p (addr + of_nat (Suc i)) k) (pipes t1 pi))\<rparr>)"
    using Suc.prems(1-3) room(2) pipe_fifo.push_law[OF Suc.prems(4) room(1), of ?c]
    by (intro Suc.IH) (simp_all add: in_pipe_def f)
  have "user_bytes t1 p (addr + of_nat (Suc i)) k = user_bytes t p (addr + of_nat i + 1) k"
    unfolding nx by (simp add: user_bytes_def f)
  then have "fold pipe_push (user_bytes t1 p (addr + of_nat (Suc i)) k) (pipes t1 pi)
      = fold pipe_push (user_bytes t p (addr + of_nat i) (Suc k)) (pipes t pi)"
    unfolding sp(3) f(4) by simp
  then show ?case
    unfolding add_Suc pipewrite_step[OF Suc.prems(1-3) room(1) sp(1)] t1_def[symmetric] ih f(5) add_Suc_right by (simp add: fun_upd_def)
qed

text \<open>The writer stores what fits; then it returns, or it wakes the readers and sleeps until there is room.\<close>

lemma pipewrite_done:
  assumes "in_pipe pi p h t"
  shows "pipewrite_loop pi p addr i 0 t
    = Ok (int i) (t\<lparr>procs := woken (Some p) (ChNread pi) {..<NPROC} (procs t), hart := scrub h\<rparr>)"
  using wakeup_in_pipe[OF assms] release_in_pipe[OF in_pipe_cong[OF assms]] by (simp add: run_kthen kret_def)

lemma pipewrite_blocks:
  assumes t: "in_pipe pi p h t" and o: "pi_readopen (pipes t pi)" "p_killed (procs t p) = 0" and f: "pipe_full (pipes t pi)"
  shows "pipewrite_loop pi p addr i (Suc left) t = Stop Switched (t\<lparr>hart := acq (Lproc p) h,
    procs := (woken (Some p) (ChNread pi) {..<NPROC} (procs t))(p := (procs t p)\<lparr>p_chan := ChNwrite pi, p_state := SLEEPING\<rparr>)\<rparr>)"
proof -
  let ?t = "t\<lparr>procs := woken (Some p) (ChNread pi) {..<NPROC} (procs t)\<rparr>"
  have "sleep (ChNwrite pi) (Lpipe pi) ?t = Stop Switched (?t\<lparr>hart := acq (Lproc p) h,
      procs := (procs ?t)(p := (procs ?t p)\<lparr>p_chan := ChNwrite pi, p_state := SLEEPING\<rparr>)\<rparr>)"
    by (rule sleep_run) (use in_pipeD[OF t] in simp_all)
  moreover have "procs ?t p = procs t p" by (simp add: woken_def)
  ultimately show ?thesis
    using o f killed_run[OF t] wakeup_in_pipe[OF t]
    by (simp add: run_kbind run_kthen get_pipe_def pipe_full_def)
qed

lemma pipewrite_enter:
  assumes "runs p s"
  shows "pipewrite pi addr (int n) s = pipewrite_loop pi p addr 0 n (s\<lparr>hart := acq (Lpipe pi) (scrub (hart s))\<rparr>)"
    and "in_pipe pi p (scrub (hart s)) (s\<lparr>hart := acq (Lpipe pi) (scrub (hart s))\<rparr>)"
  using assms by (simp_all add: pipewrite_def run_kbind run_kthen runs_def in_pipe_def this_proc_run acquire_run)

definition appended :: "u64 \<Rightarrow> nat \<Rightarrow> u8 list \<Rightarrow> 'z pipe_machine_scheme \<Rightarrow> 'z pipe_machine_scheme \<Rightarrow> bool" where
  "appended pi p bs s s' \<longleftrightarrow> pipe_ok (pipes s' pi) \<and> pipe_queue (pipes s' pi) = pipe_queue (pipes s pi) @ bs
     \<and> mem s' = mem s \<and> (\<forall>q<NPROC. q \<noteq> p \<longrightarrow> p_state (procs s q) = SLEEPING \<longrightarrow> p_chan (procs s q) = ChNread pi \<longrightarrow>
          p_state (procs s' q) = RUNNABLE)"

lemma pipewrite_result:
  assumes r: "runs p s" and x: "pipe_ok (pipes s pi)" "pi_readopen (pipes s pi)" and k: "p_killed (procs s p) = 0"
    and u: "user_src s p addr n"
  shows "if n \<le> pipe_fifo.room (pipes s pi)
    then \<exists>s'. pipewrite pi addr (int n) s = Ok (int n) s' \<and> appended pi p (user_bytes s p addr n) s s'
    else \<exists>s'. pipewrite pi addr (int n) s = Stop Switched s' \<and> p_state (procs s' p) = SLEEPING \<and> p_chan (procs s' p) = ChNwrite pi
       \<and> appended pi p (take (pipe_fifo.room (pipes s pi)) (user_bytes s p addr n)) s s'"
proof -
  define k where "k = min n (pipe_fifo.room (pipes s pi))"
  define t where "t = s\<lparr>hart := acq (Lpipe pi) (scrub (hart s))\<rparr>"
  define x' where "x' = fold pipe_push (user_bytes s p addr k) (pipes s pi)"
  let ?t = "t\<lparr>pipes := (pipes t)(pi := x')\<rparr>"
  have t: "in_pipe pi p (scrub (hart s)) t" "pipewrite pi addr (int n) s = pipewrite_loop pi p addr 0 n t"
    using pipewrite_enter[OF r] by (simp_all add: t_def)
  have f: "pipes t = pipes s" "procs t = procs s" "mem t = mem s" by (simp_all add: t_def)
  have nk: "n = k + (n - k)" "k \<le> n" by (simp_all add: k_def)
  have bytes: "user_bytes s p addr k = take k (user_bytes s p addr n)"
    using user_read_add[of "mem s" _ addr k "n - k"] nk by (simp add: user_bytes_def)
  have "user_src t p (addr + of_nat 0) k" using u urange_add[of addr k "n - k"] nk by (auto simp: user_src_def f below_max_def)
  then have run: "pipewrite pi addr (int n) s = pipewrite_loop pi p addr k (n - k) ?t"
    using pipewrite_fill[OF t(1), of addr 0 k "n - k"] x k nk t(2) by (simp add: f x'_def user_bytes_def k_def)
  have q: "pipe_ok x' \<and> pipe_queue x' = pipe_queue (pipes s pi) @ user_bytes s p addr k"
    unfolding x'_def by (rule pipe_fifo.pushes[OF x(1)]) (simp add: user_bytes_def k_def)
  have t': "in_pipe pi p (scrub (hart s)) ?t" by (rule in_pipe_cong[OF t(1)]) simp
  have flags: "pi_readopen x' = pi_readopen (pipes s pi)" unfolding x'_def
    by (rule fold_invariant[where Q = "\<lambda>_. True" and P = "\<lambda>x. pi_readopen x = pi_readopen (pipes s pi)"]) simp_all
  show ?thesis
  proof (cases "n \<le> pipe_fifo.room (pipes s pi)")
    case True
    then have "k = n" by (simp add: k_def)
    then show ?thesis
      using True run pipewrite_done[OF t', of addr n] q by (simp add: appended_def f woken_def)
  next
    case False
    have full: "pipe_full x'"
      using False q pipe_fifo.full_law[of x'] pipe_fifo.full_law[OF x(1)] by (auto simp: pipe_fifo.room_def k_def user_bytes_def)
    obtain l where l: "n - k = Suc l" using False by (cases "n - k") (simp_all add: k_def)
    have "k = pipe_fifo.room (pipes s pi)" using False by (simp add: k_def)
    then show ?thesis
      using False run pipewrite_blocks[OF t', of addr k l] q full flags x k l bytes
      by (simp add: appended_def f woken_def)
  qed
qed

section \<open>Reading\<close>

definition user_dst :: "'z proc_machine_scheme \<Rightarrow> nat \<Rightarrow> (u64 \<Rightarrow> nat) \<Rightarrow> u64 set \<Rightarrow> u64 \<Rightarrow> nat \<Rightarrow> bool" where
  "user_dst s p lev T va n \<longleftrightarrow> pt_wf (mem s) lev T (p_pagetable (procs s p)) \<and> below_max va n
     \<and> (\<forall>a\<in>urange va n. uwritable (mem s) (p_pagetable (procs s p)) a)
     \<and> private_frames (mem s) T (p_pagetable (procs s p)) (urange va n)"

lemma user_dst_sub:
  assumes "user_dst s p lev T va n" "k \<le> n"
  shows "user_dst s p lev T va k"
  using assms urange_add[of va k "n - k"] private_frames_sub[of "mem s" T _ "urange va n" "urange va k"]
  by (auto simp: user_dst_def below_max_def)

lemma user_dst_next:
  assumes "user_dst s p lev T va (Suc n)" and w: "uwritten (mem s) T (p_pagetable (procs s p)) va [c] m1"
    and t: "mem t = m1" "procs t = procs s"
  shows "user_dst t p lev T (va + 1) n"
proof -
  have d: "pt_wf (mem s) lev T (p_pagetable (procs s p))" using assms(1) by (simp add: user_dst_def)
  have sub: "urange (va + 1) n \<subseteq> urange va (Suc n)" using urange_add[of va 1 n] by simp
  have "unat (va + 1) = unat va + 1" using assms(1) by (simp add: user_dst_def below_max_def unat_word_ariths)
  then have "below_max (va + 1) n" using assms(1) by (simp add: user_dst_def below_max_def)
  then show ?thesis
    using written_lookup[OF d w] assms(1) sub private_frames_sub[OF _ sub] by (auto simp: user_dst_def t)
qed

lemma copyout_byte:
  assumes "user_dst s p lev T va 1"
  shows "\<exists>m1. copyout (p_pagetable (procs s p)) va [c] s = Ok 0 (s\<lparr>mem := m1\<rparr>) \<and> uwritten (mem s) T (p_pagetable (procs s p)) va [c] m1"
  using copyout_run[of s lev T "p_pagetable (procs s p)" va "[c]"] assms by (simp add: user_dst_def)

lemma piperead_step:
  assumes "\<not> pipe_empty (pipes t pi)"
    and "copyout (p_pagetable (procs t p)) (addr + of_nat i) [pipe_front (pipes t pi)] t = Ok 0 (t\<lparr>mem := m1\<rparr>)"
  shows "piperead_copy pi p addr i (Suc left) t
    = piperead_copy pi p addr (Suc i) left (t\<lparr>mem := m1, pipes := (pipes t)(pi := pipe_pop (pipes t pi))\<rparr>)"
  using assms by (simp add: run_kbind run_kthen get_pipe_def set_pipe_def get_proc_def pipe_empty_def pipe_front_def pipe_pop_def)

lemma piperead_fill:
  "pipe_ok (pipes t pi) \<Longrightarrow> user_dst t p lev T (addr + of_nat i) k \<Longrightarrow> k \<le> length (pipe_queue (pipes t pi)) \<Longrightarrow>
   \<exists>m'. piperead_copy pi p addr i (k + left) t
      = piperead_copy pi p addr (i + k) left (t\<lparr>mem := m', pipes := (pipes t)(pi := (pipe_pop ^^ k) (pipes t pi))\<rparr>)
     \<and> uwritten (mem t) T (p_pagetable (procs t p)) (addr + of_nat i) (take k (pipe_queue (pipes t pi))) m'"
proof (induction k arbitrary: i t)
  case 0
  have "(pipes t)(pi := pipes t pi) = pipes t" by simp
  then show ?case by (auto simp: uwritten_def same_on_def intro!: exI[of _ "mem t"])
next
  case (Suc k)
  let ?x = "pipes t pi" let ?root = "p_pagetable (procs t p)" let ?a = "addr + of_nat i"
  obtain c cs where q: "pipe_queue ?x = c # cs" using Suc.prems(3) by (cases "pipe_queue ?x") auto
  note law = pipe_fifo.pop_law[OF Suc.prems(1) q] pipe_fifo.empty_law[OF Suc.prems(1)]
  obtain m1 where m1: "copyout ?root ?a [c] t = Ok 0 (t\<lparr>mem := m1\<rparr>)" "uwritten (mem t) T ?root ?a [c] m1"
    using copyout_byte[OF user_dst_sub[OF Suc.prems(2)], of c] by auto
  define t1 where "t1 = t\<lparr>mem := m1, pipes := (pipes t)(pi := pipe_pop ?x)\<rparr>"
  have f: "mem t1 = m1" "procs t1 = procs t" "pipes t1 pi = pipe_pop ?x"
    "t1\<lparr>mem := m, pipes := (pipes t1)(pi := y)\<rparr> = t\<lparr>mem := m, pipes := (pipes t)(pi := y)\<rparr>" for m y
    by (simp_all add: t1_def)
  have nx: "addr + of_nat (Suc i) = ?a + 1" by simp
  have "user_dst t1 p lev T (addr + of_nat (Suc i)) k"
    unfolding nx by (rule user_dst_next[OF Suc.prems(2) m1(2) f(1,2)])
  then obtain m' where m': "piperead_copy pi p addr (Suc i) (k + left) t1
      = piperead_copy pi p addr (Suc i + k) left (t1\<lparr>mem := m', pipes := (pipes t1)(pi := (pipe_pop ^^ k) (pipe_pop ?x))\<rparr>)"
    "uwritten m1 T ?root (?a + 1) (take k cs) m'"
    using Suc.IH[of t1 "Suc i"] law q Suc.prems(3) unfolding nx f by auto
  have step: "piperead_copy pi p addr i (Suc (k + left)) t = piperead_copy pi p addr (Suc i) (k + left) t1"
    unfolding t1_def by (rule piperead_step) (use law q m1(1) in auto)
  have "uwritten (mem t) T ?root ?a ([c] @ take k cs) m'"
    using Suc.prems(2,3) q m1(2) m'(2) by (intro written_append[of _ lev]) (auto simp: user_dst_def uwritable_def)
  then show ?case
    using m'(1) unfolding f by (intro exI[of _ m']) (simp add: step q funpow_swap1 fun_upd_def del: piperead_copy.simps)
qed

lemma piperead_end:
  assumes "in_pipe pi p h t" "left = 0 \<or> pipe_empty (pipes t pi)"
  shows "piperead_copy pi p addr i left t
    = Ok (int i) (t\<lparr>procs := woken (Some p) (ChNwrite pi) {..<NPROC} (procs t), hart := scrub h\<rparr>)"
proof -
  have "piperead_copy pi p addr i left t = piperead_done pi (int i) t"
    using assms(2) by (cases left) (auto simp: run_kbind get_pipe_def pipe_empty_def)
  then show ?thesis
    using wakeup_in_pipe[OF assms(1)] release_in_pipe[OF in_pipe_cong[OF assms(1)]]
    by (simp add: piperead_done_def run_kthen kret_def)
qed

lemma piperead_enter:
  assumes "runs p s" "\<not> pipe_empty (pipes s pi) \<or> \<not> pi_writeopen (pipes s pi)"
  shows "piperead pi addr (int n) s = piperead_copy pi p addr 0 n (s\<lparr>hart := acq (Lpipe pi) (scrub (hart s))\<rparr>)"
  using assms
  by (auto simp: piperead_def piperead_wait_def run_kbind run_kthen runs_def this_proc_run acquire_run get_pipe_def pipe_empty_def)

definition taken :: "u64 \<Rightarrow> nat \<Rightarrow> u64 \<Rightarrow> nat \<Rightarrow> 'z pipe_machine_scheme \<Rightarrow> 'z pipe_machine_scheme \<Rightarrow> bool" where
  "taken pi p addr k s s' \<longleftrightarrow> pipe_ok (pipes s' pi) \<and> pipe_queue (pipes s' pi) = drop k (pipe_queue (pipes s pi))
     \<and> user_bytes s' p addr k = take k (pipe_queue (pipes s pi))
     \<and> (\<forall>x. x \<notin> uaddr (mem s) (p_pagetable (procs s p)) ` urange addr k \<longrightarrow> mem s' x = mem s x)
     \<and> (\<forall>q<NPROC. q \<noteq> p \<longrightarrow> p_state (procs s q) = SLEEPING \<longrightarrow> p_chan (procs s q) = ChNwrite pi \<longrightarrow>
          p_state (procs s' q) = RUNNABLE)"

lemma piperead_result:
  assumes r: "runs p s" and x: "pipe_ok (pipes s pi)" "\<not> pipe_empty (pipes s pi) \<or> \<not> pi_writeopen (pipes s pi)"
    and k: "k = min n (length (pipe_queue (pipes s pi)))" and u: "user_dst s p lev T addr k"
  shows "\<exists>s'. piperead pi addr (int n) s = Ok (int k) s' \<and> taken pi p addr k s s'"
proof -
  let ?root = "p_pagetable (procs s p)" let ?q = "pipe_queue (pipes s pi)"
  define t where "t = s\<lparr>hart := acq (Lpipe pi) (scrub (hart s))\<rparr>"
  have f: "pipes t = pipes s" "procs t = procs s" "mem t = mem s" by (simp_all add: t_def)
  have t: "in_pipe pi p (scrub (hart s)) t" using pipewrite_enter(2)[OF r] by (simp add: t_def)
  have en: "piperead pi addr (int n) s = piperead_copy pi p addr 0 n t" using piperead_enter[OF r x(2), of addr n] by (simp add: t_def)
  have nk: "n = k + (n - k)" "k \<le> length ?q" using k by simp_all
  have "user_dst t p lev T (addr + of_nat 0) k" using u by (simp add: user_dst_def f)
  then obtain m' where m': "piperead_copy pi p addr 0 (k + (n - k)) t
      = piperead_copy pi p addr (0 + k) (n - k) (t\<lparr>mem := m', pipes := (pipes t)(pi := (pipe_pop ^^ k) (pipes t pi))\<rparr>)"
    "uwritten (mem s) T ?root addr (take k ?q) m'"
    using piperead_fill[of t pi p lev T addr 0 k "n - k"] x(1) nk(2) by (auto simp: f)
  let ?t = "t\<lparr>mem := m', pipes := (pipes t)(pi := (pipe_pop ^^ k) (pipes t pi))\<rparr>"
  have q: "pipe_ok ((pipe_pop ^^ k) (pipes s pi)) \<and> pipe_queue ((pipe_pop ^^ k) (pipes s pi)) = drop k ?q"
    by (rule pipe_fifo.pops[OF x(1) nk(2)])
  then have "n - k = 0 \<or> pipe_empty (pipes ?t pi)" using pipe_fifo.empty_law k by (auto simp: f)
  from piperead_end[OF in_pipe_cong[OF t] this, of addr k]
  have run: "piperead pi addr (int n) s
      = Ok (int k) (?t\<lparr>procs := woken (Some p) (ChNwrite pi) {..<NPROC} (procs s), hart := scrub (scrub (hart s))\<rparr>)"
    using en m'(1) nk(1) by (simp add: f)
  have wf: "pt_wf (mem s) lev T ?root" using u by (simp add: user_dst_def)
  have "length (take k ?q) = k" using nk(2) by simp
  then have "user_read m' ?root addr k = take k ?q" "\<forall>x. x \<notin> uaddr (mem s) ?root ` urange addr k \<longrightarrow> m' x = mem s x"
    using written_read[OF wf m'(2)] m'(2) by (simp_all add: uwritten_def)
  then show ?thesis unfolding run using q by (simp add: taken_def user_bytes_def f woken_def)
qed

section \<open>Properties\<close>

text \<open>
  C9: \<^verbatim>\<open>pipewrite\<close> refines appending to a bounded queue. It stores the bytes of the writer's memory behind those already in the
  pipe, in order and across the wrap-around of the counters, and wakes every process that waits for data. If all bytes fit, it
  returns their number; else it fills the pipe, and sleeps until there is room.
\<close>

theorem pipewrite_appends:
  assumes "runs p s" "pipe_ok (pipes s pi)" "pi_readopen (pipes s pi)" "p_killed (procs s p) = 0" "user_src s p addr n"
  shows "if n \<le> PIPESIZE - length (pipe_queue (pipes s pi))
    then \<exists>s'. pipewrite pi addr (int n) s = Ok (int n) s' \<and> appended pi p (user_bytes s p addr n) s s'
    else \<exists>s'. pipewrite pi addr (int n) s = Stop Switched s' \<and> p_state (procs s' p) = SLEEPING \<and> p_chan (procs s' p) = ChNwrite pi
       \<and> appended pi p (take (PIPESIZE - length (pipe_queue (pipes s pi))) (user_bytes s p addr n)) s s'"
  using pipewrite_result[OF assms] unfolding pipe_fifo.room_def .

text \<open>
  C10: \<^verbatim>\<open>piperead\<close> refines taking from the front of the queue. When the pipe has bytes, or no writer is left, it returns
  with as many bytes as there are, at most the number asked for: they are in the reader's memory, in the order they were
  written, and no longer in the pipe; no other byte of memory changes; and every process that waits for room is woken.
\<close>

theorem piperead_takes:
  assumes "runs p s" "pipe_ok (pipes s pi)" "\<not> pipe_empty (pipes s pi) \<or> \<not> pi_writeopen (pipes s pi)"
    and "k = min n (length (pipe_queue (pipes s pi)))" "user_dst s p lev T addr k"
  shows "\<exists>s'. piperead pi addr (int n) s = Ok (int k) s' \<and> taken pi p addr k s s'"
  by (rule piperead_result[OF assms])

text \<open>A machine whose process 0 has the small address space, and a pipe whose counters are about to wrap around.\<close>

definition demo_pipe :: "u32 \<Rightarrow> pipe" where
  "demo_pipe n = \<lparr>pi_data = (\<lambda>i. of_nat i), pi_nread = 0xFFFFFFFE, pi_nwrite = 0xFFFFFFFE + n, pi_readopen = True, pi_writeopen = True\<rparr>"

definition demo_pipes :: "u32 \<Rightarrow> pipe_machine \<Rightarrow> pipe_machine" where
  "demo_pipes n s = s\<lparr>hart := on_proc (Some 0) hart0, mem := demo_mem, procs := (\<lambda>_. proc0\<lparr>p_pagetable := 0x87000000\<rparr>),
     pipes := (\<lambda>_. demo_pipe n)\<rparr>"

lemma demo_pipes_runs: "runs 0 (demo_pipes n s)"
  by (simp add: runs_def demo_pipes_def)

lemma demo_range: "\<forall>a\<in>urange 0xFFE 4. pgno a < 2"
proof -
  have "urange 0xFFE 4 = {0xFFE, 0xFFF, 0x1000, 0x1001}" by (simp add: urange_def lessThan_Suc numeral_eq_Suc insert_commute)
  then show ?thesis by (simp add: pgno_def)
qed

lemma demo_pipes_user: "user_dst (demo_pipes n s) 0 demo_level demo_tables 0xFFE 4" "user_src (demo_pipes n s) 0 0xFFE 4"
proof -
  have "\<forall>a\<in>urange 0xFFE 4. uwritable demo_mem 0x87000000 a" "private_frames demo_mem demo_tables 0x87000000 (urange 0xFFE 4)"
    using demo_range less_2_cases by (fastforce simp: demo_frame private_frames_def demo_tables_def split: if_splits)+
  then show *: "user_dst (demo_pipes n s) 0 demo_level demo_tables 0xFFE 4"
    by (simp add: user_dst_def demo_pipes_def demo_wf below_max_def)
  then show "user_src (demo_pipes n s) 0 0xFFE 4" by (auto simp: user_dst_def user_src_def uwritable_def)
qed

theorem pipewrite_appends_witness:
  "\<forall>s. \<exists>s'. pipewrite 0 0xFFE 4 (demo_pipes 0 s) = Ok 4 s'
     \<and> pipe_queue (pipes s' 0) = user_bytes (demo_pipes 0 s) 0 0xFFE 4"
proof
  fix s
  have q: "pipes (demo_pipes 0 s) 0 = demo_pipe 0" "p_killed (procs (demo_pipes 0 s) 0) = 0" by (simp_all add: demo_pipes_def proc0_def)
  have "pipe_queue (demo_pipe 0) = []" "pipe_ok (demo_pipe 0)" "pi_readopen (demo_pipe 0)"
    by (simp_all add: pipe_queue_def ring_def demo_pipe_def pipe_ok_def)
  then show "\<exists>s'. pipewrite 0 0xFFE 4 (demo_pipes 0 s) = Ok 4 s' \<and> pipe_queue (pipes s' 0) = user_bytes (demo_pipes 0 s) 0 0xFFE 4"
    using pipewrite_appends[OF demo_pipes_runs, of 0 s 0 "0xFFE" 4] q demo_pipes_user(2)[of 0 s]
    by (auto simp: PIPESIZE_def appended_def)
qed

theorem piperead_takes_witness:
  "\<forall>s. \<exists>s'. piperead 0 0xFFE 9 (demo_pipes 4 s) = Ok 4 s' \<and> user_bytes s' 0 0xFFE 4 = [254, 255, 0, 1] \<and> pipe_queue (pipes s' 0) = []"
proof
  fix s
  have q: "pipes (demo_pipes 4 s) 0 = demo_pipe 4" by (simp add: demo_pipes_def)
  have "pipe_queue (demo_pipe 4) = [254, 255, 0, 1]"
    by (simp add: pipe_queue_def ring_def demo_pipe_def PIPESIZE_def upt_rec[of _ "numeral n" for n])
  moreover have "pipe_ok (demo_pipe 4)" "\<not> pipe_empty (demo_pipe 4)" by (simp_all add: demo_pipe_def pipe_ok_def pipe_empty_def PIPESIZE_def)
  ultimately show "\<exists>s'. piperead 0 0xFFE 9 (demo_pipes 4 s) = Ok 4 s' \<and> user_bytes s' 0 0xFFE 4 = [254, 255, 0, 1]
      \<and> pipe_queue (pipes s' 0) = []"
    using piperead_takes[OF demo_pipes_runs, of 4 s 0 4 9 demo_level demo_tables "0xFFE"] q demo_pipes_user(1)[of 4 s]
    by (auto simp: taken_def)
qed

end
