(* ===== verification/Console_Laws.thy ===== *)
theory Console_Laws
  imports Console Ring
begin

text \<open>
  The input side of the console is a line editor. Its state is two sequences of characters: the lines that readers may take, and
  the line that is being typed. \<^verbatim>\<open>consoleintr\<close> of \<^verbatim>\<open>kernel/console.c\<close> implements it on one ring with three wrapping counters.
\<close>

section \<open>The line editor\<close>

definition line_edit :: "int \<Rightarrow> u8 list \<times> u8 list \<Rightarrow> u8 list \<times> u8 list" where
  "line_edit ch st =
     (case st of (ready, typed) \<Rightarrow>
      if ch = ctrl CHR ''U'' then (ready, [])
      else if ch = ctrl CHR ''H'' \<or> ch = 0x7F then (ready, butlast typed)
      else if ch = 0 \<or> INPUT_BUF_SIZE \<le> length ready + length typed then (ready, typed)
      else let c = (if ch = 13 then 10 else ch); typed' = typed @ [word_of_int c] in
        if c = 10 \<or> c = ctrl CHR ''D'' \<or> length ready + length typed' = INPUT_BUF_SIZE then (ready @ typed', [])
        else (ready, typed'))"

definition cons_lines :: "cons \<Rightarrow> u8 list \<times> u8 list" where
  "cons_lines c = (ring INPUT_BUF_SIZE (c_buf c) (c_r c) (c_w c), ring INPUT_BUF_SIZE (c_buf c) (c_w c) (c_e c))"

text \<open>The counters are in order and at most a buffer apart, and no line end is in the line being typed.\<close>

definition cons_ok :: "cons \<Rightarrow> bool" where
  "cons_ok c \<longleftrightarrow> unat (c_w c - c_r c) + unat (c_e c - c_w c) = unat (c_e c - c_r c)
     \<and> unat (c_e c - c_r c) \<le> INPUT_BUF_SIZE \<and> 10 \<notin> set (snd (cons_lines c))"

lemma buf_size: "INPUT_BUF_SIZE dvd 2 ^ 32" "INPUT_BUF_SIZE < 2 ^ 32"
  by (simp_all add: INPUT_BUF_SIZE_def)

text \<open>One character back.\<close>

definition cons_back :: "cons \<Rightarrow> cons" where
  "cons_back c = c\<lparr>c_e := c_e c - 1\<rparr>"

lemma cons_back_ok:
  assumes ok: "cons_ok c" and ne: "c_e c \<noteq> c_w c"
  shows "cons_ok (cons_back c)" "cons_lines (cons_back c) = (fst (cons_lines c), butlast (snd (cons_lines c)))"
    "c_buf c (unat (c_e c - 1) mod INPUT_BUF_SIZE) \<noteq> 10" "unat (c_e c - c_w c) = Suc (unat (c_e (cons_back c) - c_w c))"
proof -
  have le: "unat (c_e c - c_w c) \<le> INPUT_BUF_SIZE" using ok by (auto simp: cons_ok_def)
  have er: "c_e c \<noteq> c_r c"
  proof
    assume "c_e c = c_r c"
    then have "unat (c_e c - c_w c) = 0" using ok by (simp add: cons_ok_def)
    then show False using ne by (simp add: unat_eq_zero)
  qed
  note l = ring_last(1)[OF buf_size(1) ne le buf_size(2), of "c_buf c"] ring_last(2)[OF buf_size(1) ne le buf_size(2)]
  have l2: "unat (c_e c - c_r c) = Suc (unat (c_e c - 1 - c_r c))"
    by (rule ring_last(2)[OF buf_size(1) er _ buf_size(2)]) (use ok in \<open>simp add: cons_ok_def\<close>)
  show "c_buf c (unat (c_e c - 1) mod INPUT_BUF_SIZE) \<noteq> 10" using ok l(1) by (simp add: cons_ok_def cons_lines_def)
  show "cons_lines (cons_back c) = (fst (cons_lines c), butlast (snd (cons_lines c)))"
    using l(1) by (simp add: cons_lines_def cons_back_def)
  show "cons_ok (cons_back c)" using ok l l2 by (simp add: cons_ok_def cons_lines_def cons_back_def)
  show "unat (c_e c - c_w c) = Suc (unat (c_e (cons_back c) - c_w c))" using l(2) by (simp add: cons_back_def)
qed

text \<open>One character more, and the end of a line.\<close>

definition cons_put :: "u8 \<Rightarrow> cons \<Rightarrow> cons" where
  "cons_put b c = c\<lparr>c_buf := (c_buf c)(unat (c_e c) mod INPUT_BUF_SIZE := b), c_e := c_e c + 1\<rparr>"

definition cons_commit :: "cons \<Rightarrow> cons" where
  "cons_commit c = c\<lparr>c_w := c_e c\<rparr>"

lemma cons_put_lines:
  assumes ok: "cons_ok c" and room: "unat (c_e c - c_r c) < INPUT_BUF_SIZE"
  shows "cons_lines (cons_put b c) = (fst (cons_lines c), snd (cons_lines c) @ [b])"
    "unat (c_w c - c_r c) + unat (c_e c + 1 - c_w c) = unat (c_e c + 1 - c_r c)" "unat (c_e c + 1 - c_r c) = Suc (unat (c_e c - c_r c))"
proof -
  let ?N = INPUT_BUF_SIZE
  have w: "unat (c_e c - c_w c) < ?N" "unat (c_w c - c_r c) + unat (c_e c - c_w c) = unat (c_e c - c_r c)"
    using ok room by (auto simp: cons_ok_def)
  have s: "unat (c_e c + 1 - c_r c) = Suc (unat (c_e c - c_r c))" "unat (c_e c + 1 - c_w c) = Suc (unat (c_e c - c_w c))"
    by (rule unat_Suc_diff; use room w in \<open>simp add: INPUT_BUF_SIZE_def\<close>)+
  show "unat (c_w c - c_r c) + unat (c_e c + 1 - c_w c) = unat (c_e c + 1 - c_r c)"
    "unat (c_e c + 1 - c_r c) = Suc (unat (c_e c - c_r c))" using s w by simp_all
  let ?d = "(c_buf c)(unat (c_e c) mod ?N := b)"
  have "ring ?N ?d (c_r c) (c_e c + 1) = ring ?N (c_buf c) (c_r c) (c_e c) @ [b]"
    by (rule ring_push[OF buf_size(1) room buf_size(2)])
  moreover have "ring ?N ?d (c_w c) (c_e c + 1) = ring ?N (c_buf c) (c_w c) (c_e c) @ [b]"
    by (rule ring_push[OF buf_size(1) w(1) buf_size(2)])
  moreover have "ring ?N ?d (c_r c) (c_e c + 1) = ring ?N ?d (c_r c) (c_w c) @ ring ?N ?d (c_w c) (c_e c + 1)"
    by (rule ring_append[OF buf_size(1)]) (use s w in simp)
  moreover have "ring ?N (c_buf c) (c_r c) (c_e c) = ring ?N (c_buf c) (c_r c) (c_w c) @ ring ?N (c_buf c) (c_w c) (c_e c)"
    by (rule ring_append[OF buf_size(1) w(2)])
  ultimately show "cons_lines (cons_put b c) = (fst (cons_lines c), snd (cons_lines c) @ [b])"
    by (simp add: cons_lines_def cons_put_def)
qed

lemma cons_put_ok:
  assumes "cons_ok c" "unat (c_e c - c_r c) < INPUT_BUF_SIZE" "b \<noteq> 10"
  shows "cons_ok (cons_put b c)"
  using cons_put_lines(1)[OF assms(1,2), of b] cons_put_lines(2,3)[OF assms(1,2)] assms by (simp add: cons_ok_def) (simp add: cons_put_def)

lemma cons_commit_ok:
  assumes "cons_ok c" "unat (c_e c - c_r c) < INPUT_BUF_SIZE"
  shows "cons_ok (cons_commit (cons_put b c))"
    "cons_lines (cons_commit (cons_put b c)) = (fst (cons_lines c) @ snd (cons_lines c) @ [b], [])"
proof -
  note p = cons_put_lines(1)[OF assms, of b] cons_put_lines(2,3)[OF assms]
  have "ring INPUT_BUF_SIZE (c_buf (cons_put b c)) (c_r c) (c_e c + 1)
      = ring INPUT_BUF_SIZE (c_buf (cons_put b c)) (c_r c) (c_w c) @ ring INPUT_BUF_SIZE (c_buf (cons_put b c)) (c_w c) (c_e c + 1)"
    by (rule ring_append[OF buf_size(1) p(2)])
  then show l: "cons_lines (cons_commit (cons_put b c)) = (fst (cons_lines c) @ snd (cons_lines c) @ [b], [])"
    using p(1) by (simp add: cons_lines_def cons_commit_def cons_put_def ring_empty)
  show "cons_ok (cons_commit (cons_put b c))"
    using p(3) assms(2) unfolding cons_ok_def l by (simp add: cons_commit_def cons_put_def)
qed

section \<open>The interrupt handler\<close>

text \<open>A run that holds the lock of the console.\<close>

definition in_cons :: "harts \<Rightarrow> 'z cons_machine_scheme \<Rightarrow> bool" where
  "in_cons h t \<longleftrightarrow> hart t = acq Lcons h \<and> hart_ok h \<and> can_print t \<and> cons_ok (cons t)
     \<and> (\<forall>p<NPROC. cpu_proc (cur h) \<noteq> Some p \<longrightarrow> lock_free (Lproc p) h)"

lemma in_consD:
  assumes "in_cons h t"
  shows "hart t = acq Lcons h" "hart_ok h" "can_print t" "cons_ok (cons t)" "proc_ready t"
  using assms by (auto simp: in_cons_def proc_ready_def)

lemma echo_run:
  assumes "in_cons h t"
  shows "consputc c t = Ok () (t\<lparr>con := outs (putc_bytes c) (con t)\<rparr>)"
  using in_consD[OF assms] by (simp add: consputc_run)

lemma echo_in_cons:
  fixes t t' :: "'z cons_machine_scheme"
  assumes "in_cons h t" "hart t' = hart t" "con t' = outs bs (con t)" "cons_ok (cons t')"
  shows "in_cons h t'"
  using assms by (auto simp: in_cons_def can_print_def outs_def)

definition edited :: "harts \<Rightarrow> 'z cons_machine_scheme \<Rightarrow> u8 list \<times> u8 list \<Rightarrow> 'z cons_machine_scheme \<Rightarrow> bool" where
  "edited h t st t' \<longleftrightarrow> in_cons h t' \<and> cons_lines (cons t') = st \<and> procs t' =
     (if fst st = fst (cons_lines (cons t)) then procs t else woken (cpu_proc (cur h)) ChConsR {..<NPROC} (procs t))"

lemma kill_line_run:
  "in_cons h t \<Longrightarrow> unat (c_e (cons t) - c_w (cons t)) \<le> n \<Longrightarrow>
   \<exists>t'. kill_line n t = Ok () t' \<and> edited h t (fst (cons_lines (cons t)), []) t'"
proof (induction n arbitrary: t)
  case 0
  then have "c_e (cons t) = c_w (cons t)" by (simp add: unat_eq_zero)
  then show ?case using 0(1) by (simp add: kret_def edited_def cons_lines_def ring_empty)
next
  case (Suc n)
  let ?c = "cons t"
  show ?case
  proof (cases "c_e ?c = c_w ?c")
    case True
    then show ?thesis using Suc.prems(1) by (simp add: run_kbind kwhen_def kret_def edited_def cons_lines_def ring_empty)
  next
    case False
    note b = cons_back_ok[OF in_consD(4)[OF Suc.prems(1)] False]
    define t1 where "t1 = t\<lparr>cons := cons_back ?c\<rparr>"
    define t2 where "t2 = t1\<lparr>con := outs (putc_bytes BACKSPACE) (con t1)\<rparr>"
    have t1: "in_cons h t1" using Suc.prems(1) b(1) by (simp add: in_cons_def can_print_def t1_def)
    have t2: "in_cons h t2" by (rule echo_in_cons[OF t1]) (use b(1) in \<open>simp_all add: t2_def t1_def\<close>)
    have f: "cons t2 = cons_back ?c" "procs t2 = procs t" by (simp_all add: t2_def t1_def)
    have "c_w (cons_back ?c) = c_w ?c" by (simp add: cons_back_def)
    then have "unat (c_e (cons t2) - c_w (cons t2)) \<le> n" using b(4) Suc.prems(2) by (simp add: f)
    then obtain t' where t': "kill_line n t2 = Ok () t'" "edited h t2 (fst (cons_lines (cons t2)), []) t'"
      using Suc.IH[OF t2] by blast
    have "kill_line (Suc n) t = kill_line n t2"
      using False b(3) echo_run[OF t1] by (simp add: run_kbind run_kthen kwhen_def set_cons_def cons_back_def[symmetric] t1_def[symmetric] t2_def)
    then show ?thesis using t' b(2) by (auto simp: edited_def f)
  qed
qed

lemma erase_run:
  assumes "in_cons h t"
  shows "\<exists>t'. kbind (kget cons) (\<lambda>c. kwhen (c_e c \<noteq> c_w c) (kthen (set_cons (\<lambda>c. c\<lparr>c_e := c_e c - 1\<rparr>)) (consputc BACKSPACE))) t = Ok () t'
    \<and> edited h t (fst (cons_lines (cons t)), butlast (snd (cons_lines (cons t)))) t'"
proof (cases "c_e (cons t) = c_w (cons t)")
  case True
  then show ?thesis using assms by (simp add: run_kbind kwhen_def kret_def edited_def cons_lines_def ring_empty)
next
  case False
  note b = cons_back_ok[OF in_consD(4)[OF assms] False]
  define t1 where "t1 = t\<lparr>cons := cons_back (cons t)\<rparr>"
  have t1: "in_cons h t1" using assms b(1) by (simp add: in_cons_def can_print_def t1_def)
  let ?t = "t1\<lparr>con := outs (putc_bytes BACKSPACE) (con t1)\<rparr>"
  have "in_cons h ?t" by (rule echo_in_cons[OF t1]) (use b(1) in \<open>simp_all add: t1_def\<close>)
  then show ?thesis
    using False b(2) echo_run[OF t1]
    by (simp add: run_kbind run_kthen kwhen_def set_cons_def cons_back_def[symmetric] t1_def[symmetric] edited_def) (simp add: t1_def)
qed

lemma byte_neq_10: "0 \<le> c \<Longrightarrow> c < 256 \<Longrightarrow> c \<noteq> 10 \<Longrightarrow> (word_of_int c :: u8) \<noteq> 10"
  by (simp add: word_uint_eq_iff uint_word_of_int)

lemma wakeup_in_cons:
  assumes "in_cons h t"
  shows "wakeup ch t = Ok () (t\<lparr>procs := woken (cpu_proc (cur h)) ch {..<NPROC} (procs t)\<rparr>)"
  using wakeup_run[OF in_consD(5)[OF assms], of ch] in_consD[OF assms] by simp

lemma store_run:
  assumes t: "in_cons h t" and ch: "0 \<le> ch" "ch < 256" "ch \<noteq> ctrl CHR ''U''" "ch \<noteq> ctrl CHR ''H''" "ch \<noteq> 0x7F"
  shows "\<exists>t'. console_store ch t = Ok () t' \<and> edited h t (line_edit ch (cons_lines (cons t))) t'"
proof -
  let ?c = "cons t" let ?b = "if ch = 13 then 10 else ch" let ?l = "cons_lines ?c"
  note ok = in_consD(4)[OF t]
  have len: "length (fst ?l) + length (snd ?l) = unat (c_e ?c - c_r ?c)" using ok by (simp add: cons_ok_def cons_lines_def)
  show ?thesis
  proof (cases "ch \<noteq> 0 \<and> unat (c_e ?c - c_r ?c) < INPUT_BUF_SIZE")
    case False
    then have "line_edit ch ?l = ?l" using ch len by (auto simp: line_edit_def split: prod.splits)
    moreover have "console_store ch t = Ok () t" using False by (auto simp: console_store_def run_kbind kwhen_def kret_def)
    ultimately show ?thesis using t by (simp add: edited_def)
  next
    case True
    define t1 where "t1 = t\<lparr>con := outs (putc_bytes ?b) (con t)\<rparr>"
    let ?p = "cons_put (word_of_int ?b) ?c"
    have e1: "console_store ch t = kbind (kget cons) (\<lambda>c. kwhen (?b = 10 \<or> ?b = ctrl CHR ''D'' \<or> unat (c_e c - c_r c) = INPUT_BUF_SIZE)
        (kthen (set_cons (\<lambda>c. c\<lparr>c_w := c_e c\<rparr>)) (wakeup ChConsR))) (t1\<lparr>cons := ?p\<rparr>)"
      using True echo_run[OF t, of ?b]
      by (simp add: console_store_def run_kbind run_kthen kwhen_def Let_def set_cons_def cons_put_def t1_def)
    have full: "unat (c_e ?p - c_r ?p) = length (fst ?l) + length (snd ?l @ [word_of_int ?b :: u8])"
      using cons_put_lines(3)[OF ok] True len by (simp add: cons_put_def)
    show ?thesis
    proof (cases "?b = 10 \<or> ?b = ctrl CHR ''D'' \<or> unat (c_e ?p - c_r ?p) = INPUT_BUF_SIZE")
      case end_of_line: True
      note q = cons_commit_ok[OF ok conjunct2[OF True], of "word_of_int ?b"]
      define t2 where "t2 = t1\<lparr>cons := cons_commit ?p\<rparr>"
      have t2: "in_cons h t2" by (rule echo_in_cons[OF t]) (use q(1) in \<open>simp_all add: t2_def t1_def\<close>)
      have run: "console_store ch t = Ok () (t2\<lparr>procs := woken (cpu_proc (cur h)) ChConsR {..<NPROC} (procs t)\<rparr>)"
        using e1 end_of_line wakeup_in_cons[OF t2, of ChConsR]
        by (simp add: run_kbind run_kthen kwhen_def set_cons_def cons_commit_def[symmetric] t2_def[symmetric]) (simp add: t2_def t1_def)
      have "line_edit ch ?l = (fst ?l @ snd ?l @ [word_of_int ?b], [])"
        using ch True len end_of_line full by (cases "ch = 13") (auto simp: line_edit_def Let_def split: prod.splits)
      then show ?thesis using run q(2) t2 by (auto simp: edited_def in_cons_def can_print_def t2_def)
    next
      case False
      have "word_of_int ?b \<noteq> (10 :: u8)" using False byte_neq_10[of ?b] ch by auto
      note q = cons_put_ok[OF ok conjunct2[OF True] this] cons_put_lines(1)[OF ok conjunct2[OF True], of "word_of_int ?b"]
      have t2: "in_cons h (t1\<lparr>cons := ?p\<rparr>)" by (rule echo_in_cons[OF t]) (use q(1) in \<open>simp_all add: t1_def\<close>)
      have "line_edit ch ?l = (fst ?l, snd ?l @ [word_of_int ?b])"
        using ch True len False full by (cases "ch = 13") (auto simp: line_edit_def Let_def split: prod.splits)
      then show ?thesis using e1 False q(2) t2
        by (simp add: run_kbind kwhen_def kret_def edited_def) (simp add: t1_def)
    qed
  qed
qed

lemma consoleintr_locked:
  assumes "in_cons h t" "0 \<le> ch" "ch < 256" "ch \<noteq> ctrl CHR ''P''"
  shows "\<exists>t'. (if ch = ctrl CHR ''P'' then procdump
            else if ch = ctrl CHR ''U'' then kbind (kget cons) (\<lambda>c. kill_line (unat (c_e c - c_w c)))
            else if ch = ctrl CHR ''H'' \<or> ch = 0x7F then
              kbind (kget cons) (\<lambda>c. kwhen (c_e c \<noteq> c_w c) (kthen (set_cons (\<lambda>c. c\<lparr>c_e := c_e c - 1\<rparr>)) (consputc BACKSPACE)))
            else console_store ch) t = Ok () t' \<and> edited h t (line_edit ch (cons_lines (cons t))) t'"
proof (cases "ch = ctrl CHR ''U''")
  case True
  then show ?thesis using assms(4) kill_line_run[OF assms(1) order_refl] by (cases "cons_lines (cons t)") (simp add: run_kbind line_edit_def)
next
  case U: False
  show ?thesis
  proof (cases "ch = ctrl CHR ''H'' \<or> ch = 0x7F")
    case True
    then have "line_edit ch (cons_lines (cons t)) = (fst (cons_lines (cons t)), butlast (snd (cons_lines (cons t))))"
      using U by (auto simp: line_edit_def split: prod.splits)
    then show ?thesis using True U assms(4) erase_run[OF assms(1)] by (simp only: if_False if_True simp_thms)
  next
    case False
    then show ?thesis using U assms store_run[OF assms(1-3)] by simp
  qed
qed

section \<open>Properties\<close>

text \<open>
  C11: \<^verbatim>\<open>consoleintr\<close> refines a line editor. On every character from the UART, control-P apart, which only prints the process list, it
  returns; the lines that readers may take and the line being typed change as the editor says: erase and kill act on the
  line being typed only, a character that does not fit is dropped, and a line end, end of file or a full buffer hands the line
  over and wakes the readers. The invariant of the ring is kept, and all locks are as before.
\<close>

theorem consoleintr_edits:
  assumes "proc_ready s" "can_print s" "lock_free Lcons (hart s)" "cons_ok (cons s)" "0 \<le> ch" "ch < 256" "ch \<noteq> ctrl CHR ''P''"
  shows "\<exists>s'. consoleintr ch s = Ok () s' \<and> cons_ok (cons s') \<and> cons_lines (cons s') = line_edit ch (cons_lines (cons s))
     \<and> locks (hart s') = locks (hart s)
     \<and> (fst (cons_lines (cons s')) \<noteq> fst (cons_lines (cons s)) \<longrightarrow>
          (\<forall>p<NPROC. cpu_proc (cur (hart s)) \<noteq> Some p \<longrightarrow> p_state (procs s p) = SLEEPING \<longrightarrow> p_chan (procs s p) = ChConsR \<longrightarrow>
             p_state (procs s' p) = RUNNABLE))"
proof -
  let ?t = "s\<lparr>hart := acq Lcons (hart s)\<rparr>"
  have t: "in_cons (hart s) ?t" using assms(1-4) by (simp add: in_cons_def proc_ready_def can_print_def)
  obtain t' where t': "edited (hart s) ?t (line_edit ch (cons_lines (cons s))) t'"
    "consoleintr ch s = release Lcons t'"
    using consoleintr_locked[OF t assms(5-7)] assms(3) unfolding consoleintr_def run_kthen
    by (auto simp: acquire_run lock_free_def run_kthen)
  have h: "hart t' = acq Lcons (hart s)" using t'(1) by (simp add: edited_def in_cons_def)
  then have "release Lcons t' = Ok () (t'\<lparr>hart := scrub (hart s)\<rparr>)"
    using assms(1,3) by (simp add: release_run proc_ready_def)
  moreover have "locks (scrub (hart s)) = locks (hart s)" by (simp add: scrub_def)
  ultimately show ?thesis using t' by (auto simp: edited_def in_cons_def woken_def)
qed

text \<open>A machine with an empty console buffer whose counters are about to wrap around.\<close>

definition demo_cons :: "cons_machine \<Rightarrow> cons_machine" where
  "demo_cons s = s\<lparr>hart := hart0, con := con0, cons := \<lparr>c_buf = (\<lambda>_. 0), c_r = 0xFFFFFFFF, c_w = 0xFFFFFFFF, c_e = 0xFFFFFFFF\<rparr>\<rparr>"

theorem consoleintr_edits_witness:
  "\<forall>s. \<exists>s'. consoleintr 65 (demo_cons s) = Ok () s' \<and> cons_lines (cons s') = ([], [65])"
proof
  fix s
  have c: "cons_lines (cons (demo_cons s)) = ([], [])" by (simp add: demo_cons_def cons_lines_def)
  have "line_edit 65 ([], []) = ([], [65])" by (simp add: line_edit_def ctrl_def INPUT_BUF_SIZE_def)
  moreover have "65 \<noteq> ctrl CHR ''P''" by (simp add: ctrl_def)
  moreover have "cons_ok (cons (demo_cons s))" using c by (simp add: cons_ok_def) (simp add: demo_cons_def)
  moreover have "proc_ready (demo_cons s)" "can_print (demo_cons s)" "lock_free Lcons (hart (demo_cons s))"
    by (simp_all add: demo_cons_def proc_ready_def can_print_def con0_def)
  ultimately show "\<exists>s'. consoleintr 65 (demo_cons s) = Ok () s' \<and> cons_lines (cons s') = ([], [65])"
    using consoleintr_edits[of "demo_cons s" 65] c by auto
qed

end
