(* ===== verification/Path_Laws.thy ===== *)
theory Path_Laws
  imports Fs
begin

text \<open>
  Path names. \<^verbatim>\<open>skipelem\<close> of \<^verbatim>\<open>kernel/fs.c\<close> moves a pointer through the path and cuts out one element at a time; \<^verbatim>\<open>namex\<close> looks
  each one up in the directory before. The reference reads the path as a whole: it splits it at the slashes, ignores empty
  parts, cuts each part to the length of a directory entry, and then walks the list.
\<close>

section \<open>The elements of a path\<close>

fun split_slash :: "u8 list \<Rightarrow> u8 list list" where
  "split_slash [] = [[]]"
| "split_slash (c # cs) =
     (if c = slash then [] # split_slash cs
      else case split_slash cs of [] \<Rightarrow> [[c]] | x # xs \<Rightarrow> (c # x) # xs)"

definition clip_name :: "u8 list \<Rightarrow> u8 list" where
  "clip_name s = (if DIRSIZ \<le> length s then take DIRSIZ s else s @ [0])"

definition path_names :: "u8 list \<Rightarrow> u8 list list" where
  "path_names path = map clip_name (filter (\<lambda>s. s \<noteq> []) (split_slash path))"

lemma split_slash_first:
  "split_slash p = takeWhile (\<lambda>c. c \<noteq> slash) p
     # (case dropWhile (\<lambda>c. c \<noteq> slash) p of [] \<Rightarrow> [] | _ # r \<Rightarrow> split_slash r)"
  by (induction p) simp_all

lemma path_names_slashes: "path_names (dropWhile (\<lambda>c. c = slash) p) = path_names p"
  by (induction p) (simp_all add: path_names_def)

lemma path_names_slash: "path_names (slash # p) = path_names p"
  by (simp add: path_names_def)

lemma path_names_Nil: "path_names [] = []"
  by (simp add: path_names_def)

lemma path_names_first:
  assumes "split_slash p = s # (case q of [] \<Rightarrow> [] | _ # r \<Rightarrow> split_slash r)" "s \<noteq> []" "q = [] \<or> (\<exists>r. q = slash # r)"
  shows "path_names p = clip_name s # path_names q"
  using assms by (auto simp: path_names_def)

lemma after_slashes:
  assumes "dropWhile (\<lambda>c. c \<noteq> slash) p = q"
  shows "q = [] \<or> (\<exists>r. q = slash # r)"
proof (cases q)
  case (Cons c r)
  then show ?thesis using hd_dropWhile[of "\<lambda>c. c \<noteq> slash" p] assms by (metis list.distinct(1) list.sel(1))
qed simp

lemma path_names_skip:
  "path_names path = (case skipelem path of None \<Rightarrow> [] | Some (rest, name) \<Rightarrow> name # path_names rest)"
proof -
  let ?p = "dropWhile (\<lambda>c. c = slash) path"
  show ?thesis
  proof (cases "?p = []")
    case True
    then have "path_names path = []" using path_names_slashes[of path] path_names_Nil by (simp only: True)
    then show ?thesis using True by (simp add: skipelem_def)
  next
    case False
    let ?s = "takeWhile (\<lambda>c. c \<noteq> slash) ?p" and ?q = "dropWhile (\<lambda>c. c \<noteq> slash) ?p"
    have s: "?s \<noteq> []" using hd_dropWhile[OF False] False by (cases ?p) auto
    have "path_names path = path_names ?p" by (rule path_names_slashes[symmetric])
    also have "\<dots> = clip_name ?s # path_names ?q"
      by (rule path_names_first[OF split_slash_first s after_slashes[OF refl]])
    also have "path_names ?q = path_names (dropWhile (\<lambda>c. c = slash) ?q)" by (rule path_names_slashes[symmetric])
    finally show ?thesis using False by (simp add: skipelem_def Let_def clip_name_def)
  qed
qed

text \<open>The rest that \<^verbatim>\<open>skipelem\<close> leaves is empty exactly when no element is left.\<close>

lemma skipelem_last:
  assumes "skipelem path = Some (rest, name)"
  shows "rest = [] \<longleftrightarrow> path_names rest = []"
proof -
  obtain q where "rest = dropWhile (\<lambda>c. c = slash) q" using assms by (auto simp: skipelem_def Let_def split: if_splits)
  then have "rest \<noteq> [] \<Longrightarrow> hd rest \<noteq> slash" using hd_dropWhile[of "\<lambda>c. c = slash" q] by simp
  then have "rest \<noteq> [] \<Longrightarrow> skipelem rest \<noteq> None" by (cases rest) (auto simp: skipelem_def Let_def)
  then have "rest \<noteq> [] \<Longrightarrow> path_names rest \<noteq> []" by (subst path_names_skip) (auto split: option.splits)
  then show ?thesis by (auto simp: path_names_Nil)
qed

section \<open>The walk\<close>

primrec walk_names ::
  "u8 list list \<Rightarrow> bool \<Rightarrow> nat \<Rightarrow> u8 list \<Rightarrow> ('z fs_machine_scheme, (nat \<times> u8 list) option) kern" where
  "walk_names [] parent ip name = (if parent then kthen (iput ip) (kret None) else kret (Some (ip, name)))"
| "walk_names (e # es) parent ip name =
     kthen (ilock ip) (
     kbind (get_inode ip) (\<lambda>i.
     if i_type i \<noteq> T_DIR then kthen (iunlockput ip) (kret None)
     else if parent \<and> es = [] then kthen (iunlock ip) (kret (Some (ip, e)))
     else kbind (dirlookup ip e) (\<lambda>r.
       case r of
         None \<Rightarrow> kthen (iunlockput ip) (kret None)
       | Some (nxt, _) \<Rightarrow> kthen (iunlockput ip) (walk_names es parent nxt e))))"

lemma namex_loop_walk: "namex_loop path parent ip name = walk_names (path_names path) parent ip name"
proof (induction "length path" arbitrary: path ip name rule: less_induct)
  case less
  show ?case
  proof (cases "skipelem path")
    case None
    then show ?thesis using path_names_skip[of path] by (subst namex_loop.simps) simp
  next
    case (Some x)
    obtain rest e where x: "x = (rest, e)" by (cases x)
    have "length rest < length path" using Some x skipelem_shorter by simp
    note ih = less[OF this]
    show ?thesis
      using Some x path_names_skip[of path] skipelem_last[of path rest e]
      by (subst namex_loop.simps) (simp add: ih cong: option.case_cong if_cong)
  qed
qed

section \<open>Properties\<close>

text \<open>
  C12: Name lookup follows the elements of the path. \<^verbatim>\<open>namex\<close> behaves, in every state and on every path, as the walk over the
  list of the parts between slashes, empty parts ignored and long ones cut: from the root for a path that starts with a
  slash, else from the current directory; for the parent it stops before the last part.
\<close>

theorem namex_walks:
  "namex path parent =
     kbind (if path \<noteq> [] \<and> hd path = slash then iget ROOTDEV ROOTINO
            else kbind this_proc (\<lambda>p. kbind (get_proc p) (\<lambda>pr.
                 case p_cwd pr of None \<Rightarrow> kpanic ''kerneltrap'' | Some ip \<Rightarrow> idup ip)))
       (\<lambda>ip. walk_names (path_names path) parent ip [])"
  unfolding namex_def namex_loop_walk ..

end
