(* ===== verification/Inode_Laws.thy ===== *)
theory Inode_Laws
  imports Fs Transaction
begin

text \<open>
  Inodes on the disk: the 64 bytes that \<^verbatim>\<open>iupdate\<close> of \<^verbatim>\<open>kernel/fs.c\<close> stores in the block of an inode, and what \<^verbatim>\<open>ilock\<close> reads from
  there. \<^verbatim>\<open>iupdate\<close> is an update of one block in the sense of the log.
\<close>

section \<open>The bytes of an inode\<close>

definition inode_wf :: "inode \<Rightarrow> bool" where
  "inode_wf i \<longleftrightarrow> length (i_addrs i) = NDIRECT + 1"

text \<open>The fields that live on the disk.\<close>

definition inode_fields :: "inode \<Rightarrow> u16 \<times> u16 \<times> u16 \<times> u16 \<times> u32 \<times> u32 list" where
  "inode_fields i = (i_type i, i_major i, i_minor i, i_nlink i, i_size i, i_addrs i)"

lemma length_addrs: "length (concat (map (le_bytes 4) xs)) = 4 * length xs"
  by (induction xs) simp_all

lemma length_dinode_bytes: "inode_wf i \<Longrightarrow> length (dinode_bytes i) = DINODE"
  by (simp add: dinode_bytes_def inode_wf_def NDIRECT_def DINODE_def length_addrs)

lemma addrs_nth: "k < length xs \<Longrightarrow> take 4 (drop (4 * k) (concat (map (le_bytes 4) xs))) = le_bytes 4 (xs ! k)"
proof (induction xs arbitrary: k)
  case (Cons x xs)
  then show ?case by (cases k) simp_all
qed simp

lemma dinode_off_fits: "length d = BSIZE \<Longrightarrow> dinode_off n + DINODE \<le> length d"
proof -
  assume d: "length d = BSIZE"
  have "unat n mod 16 < 16" by simp
  then show ?thesis using d by (simp add: dinode_off_def IPB_def DINODE_def BSIZE_def)
qed

lemma inode_slot:
  assumes "inode_wf i" "length d = BSIZE"
  shows "take DINODE (drop (dinode_off n) (patch (dinode_off n) (dinode_bytes i) d)) = dinode_bytes i"
  using patch_read_same[OF dinode_off_fits[OF assms(2)] length_dinode_bytes[OF assms(1)]] .

lemma take_in_slot:
  assumes "take m (drop off d) = bs" "j + k \<le> m"
  shows "take k (drop (off + j) d) = take k (drop j bs)"
proof -
  have "take k (drop j bs) = take k (take (m - j) (drop j (drop off d)))" unfolding assms(1)[symmetric] by (simp add: drop_take)
  also have "\<dots> = take k (drop j (drop off d))" using assms(2) by (simp add: min_def)
  finally show ?thesis by (simp add: add.commute)
qed

lemma load_from_slot:
  assumes wf: "inode_wf i" and slot: "take DINODE (drop off d) = dinode_bytes i"
  shows "inode_fields (load_dinode d off j) = inode_fields i"
proof -
  note at = take_in_slot[OF slot]
  have a: "get32 (off + 12 + 4 * k) d = i_addrs i ! k" if "k < NDIRECT + 1" for k
  proof -
    have "take 4 (drop (off + (12 + 4 * k)) d) = take 4 (drop (12 + 4 * k) (dinode_bytes i))"
      by (rule at) (use that in \<open>simp add: DINODE_def NDIRECT_def\<close>)
    also have "\<dots> = le_bytes 4 (i_addrs i ! k)"
      using addrs_nth[of k "i_addrs i"] wf that by (simp add: dinode_bytes_def inode_wf_def)
    finally show ?thesis by (simp add: get32_def le_word_le_bytes add.assoc)
  qed
  have "map (\<lambda>k. get32 (off + 12 + 4 * k) d) [0..<NDIRECT + 1] = i_addrs i"
    using wf a by (intro nth_equalityI) (simp_all add: inode_wf_def del: upt_Suc)
  moreover have "get16 (off + 0) d = i_type i" "get16 (off + 2) d = i_major i" "get16 (off + 4) d = i_minor i"
    "get16 (off + 6) d = i_nlink i" "get32 (off + 8) d = i_size i"
    unfolding get16_def get32_def by (subst at; simp add: DINODE_def dinode_bytes_def le_word_le_bytes)+
  ultimately show ?thesis by (simp add: inode_fields_def load_dinode_def)
qed

lemma slot_other:
  assumes "inode_wf i" "length d = BSIZE" "unat m mod IPB \<noteq> unat n mod IPB"
  shows "take DINODE (drop (dinode_off m) (patch (dinode_off n) (dinode_bytes i) d)) = take DINODE (drop (dinode_off m) d)"
proof (rule patch_read_other)
  show "dinode_off n + length (dinode_bytes i) \<le> length d" using dinode_off_fits[OF assms(2)] length_dinode_bytes[OF assms(1)] by simp
  show "dinode_off m + DINODE \<le> dinode_off n \<or> dinode_off n + length (dinode_bytes i) \<le> dinode_off m"
    using assms(3) length_dinode_bytes[OF assms(1)] by (auto simp: dinode_off_def DINODE_def neq_iff)
qed

section \<open>iupdate as an update of a block\<close>

lemma iupdate_update:
  assumes "inodes s ip = i" "i_dev i = ROOTDEV"
  shows "iupdate ip s = update_block (unat (IBLOCK (i_inum i) (sb s)), patch (dinode_off (i_inum i)) (dinode_bytes i)) s"
  using assms by (simp add: iupdate_def update_block_def run_kbind get_inode_def root_bread_def buf_edit_def)

lemma begin_op_fs:
  fixes s t :: "'z fs_machine_scheme"
  assumes "log_machine.more t = log_machine.more s"
  shows "inodes t = inodes s" "sb t = sb s"
  using assms by (cases s; cases t; simp)+

definition update_inode :: "nat \<Rightarrow> ('z fs_machine_scheme, unit) kern" where
  "update_inode ip = kthen begin_op (kthen (iupdate ip) end_op)"

lemma update_inode_transaction:
  assumes idle: "log_idle p s" and i: "inodes s ip = i" "i_dev i = ROOTDEV"
  shows "update_inode ip s
    = transaction [(unat (IBLOCK (i_inum i) (sb s)), patch (dinode_off (i_inum i)) (dinode_bytes i))] s"
proof -
  obtain t where t: "begin_op s = Ok () t" "log_machine.more t = log_machine.more s" using begin_trans[OF idle] by blast
  have "iupdate ip t = update_block (unat (IBLOCK (i_inum i) (sb s)), patch (dinode_off (i_inum i)) (dinode_bytes i)) t"
    using iupdate_update[of t ip i] begin_op_fs[OF t(2)] i by simp
  then show ?thesis using t(1) by (simp add: update_inode_def transaction_def run_kthen kret_def split: result.splits)
qed

lemma idle_blocks:
  assumes "log_idle p s" "k < 2 ^ 31"
  shows "length (disk_block (disk_img s) k) = BSIZE"
proof -
  have i: "cache_ok p s" "\<And>k. refs s k = 0" using assms(1) by (simp_all add: log_idle_def)
  then show ?thesis using content_length[OF i(1) assms(2)] content_clean[OF i(1,2)] by simp
qed

lemma patch_update_ok:
  assumes "inode_wf i" "k < 2 ^ 31" "k \<notin> log_region st"
  shows "ups_ok st [(k, patch (dinode_off n) (dinode_bytes i))]"
proof -
  have "length (patch (dinode_off n) (dinode_bytes i) d) = BSIZE" if "length d = BSIZE" for d
    using that dinode_off_fits[OF that, of n] length_dinode_bytes[OF assms(1)] by simp
  then show ?thesis using assms(2,3) by (simp add: ups_ok_def)
qed

section \<open>A machine with an inode\<close>

definition demo_inode :: inode where
  "demo_inode = \<lparr>i_dev = ROOTDEV, i_inum = 5, i_ref = 1, i_valid = True, i_type = T_FILE, i_major = 0, i_minor = 0, i_nlink = 1,
     i_size = 700, i_addrs = replicate 13 77\<rparr>"

definition demo_fs :: fs_machine where
  "demo_fs = log_machine.extend demo_log (fs_machine.fields
     \<lparr>sb_magic = FSMAGIC, sb_size = 2000, sb_nblocks = 1953, sb_ninodes = 200, sb_nlog = 31, sb_logstart = 2, sb_inodestart = 33, sb_bmapstart = 46\<rparr>
     (\<lambda>_. demo_inode))"

lemma demo_fs_sel [simp]:
  "hart demo_fs = hart booted" "con demo_fs = con booted" "procs demo_fs = procs booted" "sleeplocks demo_fs = sleeplocks booted"
  "vdisk demo_fs = vdisk booted" "bufs demo_fs = bufs booted" "disk_img demo_fs = disk_img booted" "device demo_fs = device booted"
  "log_start demo_fs = 2" "log_outstanding demo_fs = 0" "\<not> log_committing demo_fs" "log_dev demo_fs = 1" "lh_n demo_fs = 0"
  "lh_block demo_fs = replicate LOGBLOCKS 0" "inodes demo_fs ip = demo_inode" "sb_inodestart (sb demo_fs) = 33"
  by (simp_all add: demo_fs_def demo_log_def log_machine.extend_def disk_machine.extend_def log_machine.fields_def fs_machine.fields_def)

lemma demo_fs_idle: "log_idle 0 demo_fs" "log_base demo_fs = 2"
proof -
  have r: "refs demo_fs k = 0" "\<not> blocked demo_fs k" for k
    using booted_ok(3,4)[of k] by (simp_all only: refs_def blocked_def demo_fs_sel not_False_eq_True)
  have d: "disk_ready 0 demo_fs" by (rule disk_ready_cong[OF cache_okD(1)[OF booted_ok(1)]])
    (use cache_okD(1)[OF booted_ok(1)] in \<open>simp_all add: disk_ready_def\<close>)
  have "cache_ok 0 demo_fs" using d booted_ok(1) unfolding cache_ok_def buf_ok_def by simp
  then show "log_idle 0 demo_fs" using r blank_header booted_ok(10)
    by (simp add: log_idle_def log_ok_def log_base_def entries_ok_def LOGBLOCKS_val)
  show "log_base demo_fs = 2" by (simp add: log_base_def)
qed

lemma demo_inode_wf: "inode_wf demo_inode"
  by (simp add: inode_wf_def demo_inode_def NDIRECT_def)

end
