(* ===== verification/Syscall_Laws.thy ===== *)
theory Syscall_Laws
  imports Syscall
begin

text \<open>
  What the dispatcher of \<^verbatim>\<open>kernel/syscall.c\<close> does with numbers that name no system call.
\<close>

definition call_number :: "'z proc_machine_scheme \<Rightarrow> nat \<Rightarrow> int" where
  "call_number s p = sint (ucast (load64 (mem s) (p_trapframe (procs s p) + tf_a7)) :: u32)"

text \<open>
  C37: A system call number outside the table is refused and harms nothing. The dispatcher returns, the caller finds -1 in its
  register \<^verbatim>\<open>a0\<close>, one message on the console names the process and the number, and no other word of memory, no process and no lock
  changes. The number is the low half of the register, read as a signed integer: negative numbers are refused as well.
\<close>

theorem syscall_unknown:
  assumes "hart_ok (hart s)" "cpu_proc (cur (hart s)) = Some p" "can_print s" "lock_free Lpr (hart s)"
    and "call_number s p \<le> 0 \<or> 21 < call_number s p"
  shows "\<exists>s'. syscall s = Ok () s' \<and> mem s' = store64 (p_trapframe (procs s p) + tf_a0) (- 1) (mem s)
     \<and> load64 (mem s') (p_trapframe (procs s p) + tf_a0) = - 1 \<and> procs s' = procs s \<and> locks (hart s') = locks (hart s)
     \<and> uart_out (con s') = uart_out (con s) @ printed unknown_fmt
          [VaI (word_of_int (p_pid (procs s p))), VaS (Some (cstring (p_name (procs s p)))), VaI (word_of_int (call_number s p))]"
proof -
  have n: "(if 0 < call_number s p \<and> call_number s p < 22 then f else None) = None" for f using assms(5) by auto
  have l: "locks (scrub (scrub (hart s))) = locks (hart s)" by (simp add: scrub_def)
  show ?thesis
    using assms(1-4) unfolding syscall_def
    by (simp add: run_kbind run_kthen this_proc_run tf_get_def Let_def call_number_def[symmetric] n get_proc_def printf_run can_print_def
        tf_set_def l)
qed

text \<open>A process that calls number 0.\<close>

theorem syscall_unknown_witness:
  "\<forall>s :: file_machine. \<exists>s'. syscall (s\<lparr>hart := on_proc (Some 0) hart0, con := con0, mem := (\<lambda>_. 0), procs := (\<lambda>_. proc0)\<rparr>) = Ok () s'
     \<and> load64 (mem s') tf_a0 = - 1"
proof
  fix s :: file_machine
  let ?s = "s\<lparr>hart := on_proc (Some 0) hart0, con := con0, mem := (\<lambda>_. 0), procs := (\<lambda>_. proc0)\<rparr>"
  have "load64 (\<lambda>_. 0) a = 0" for a by (simp add: load64_def mem_read_def le_word_def)
  then have "call_number ?s 0 \<le> 0" by (simp add: call_number_def)
  then show "\<exists>s'. syscall ?s = Ok () s' \<and> load64 (mem s') tf_a0 = - 1"
    using syscall_unknown[of ?s 0] by (auto simp: can_print_def con0_def proc0_def)
qed

end
