(* ===== verification/Grep.thy ===== *)
theory Grep
  imports Kernel_Monad
begin

text \<open>
  The user program \<^verbatim>\<open>user/grep.c\<close>: the pattern matcher of Kernighan and Pike and the loop that reads a file through a
  buffer of 1024 bytes. A C string is the list of its characters before the terminating NUL, and a pointer into it is the
  suffix it points to. The matcher is shown equivalent to a declarative reading of patterns, and the loop is shown to end and to
  print the matching lines however the file is cut into the results of \<^verbatim>\<open>read\<close>.
\<close>

section \<open>The matcher\<close>

text \<open>\<^verbatim>\<open>s[0]\<close> and \<^verbatim>\<open>s[1]\<close> of a C string.\<close>

definition ch0 :: "string \<Rightarrow> char" where
  "ch0 s = (case s of [] \<Rightarrow> CHR 0x00 | c # _ \<Rightarrow> c)"

definition ch1 :: "string \<Rightarrow> char" where
  "ch1 s = ch0 (tl s)"

function matchhere :: "string \<Rightarrow> string \<Rightarrow> bool" and matchstar :: "char \<Rightarrow> string \<Rightarrow> string \<Rightarrow> bool" where
  "matchhere re tx =
     (if re = [] then True
      else if ch1 re = CHR ''*'' then matchstar (ch0 re) (tl (tl re)) tx
      else if ch0 re = CHR ''$'' \<and> tl re = [] then tx = []
      else if tx \<noteq> [] \<and> (ch0 re = CHR ''.'' \<or> ch0 re = ch0 tx) then matchhere (tl re) (tl tx)
      else False)"
| "matchstar c re tx =
     (if matchhere re tx then True
      else if tx \<noteq> [] \<and> (ch0 tx = c \<or> c = CHR ''.'') then matchstar c re (tl tx)
      else False)"
  by pat_completeness auto

termination
  by (relation "measures [\<lambda>x. case x of Inl (re, _) \<Rightarrow> length re | Inr (_, re, _) \<Rightarrow> length re,
        \<lambda>x. case x of Inl (_, t) \<Rightarrow> length t | Inr (_, _, t) \<Rightarrow> length t, \<lambda>x. case x of Inl _ \<Rightarrow> 0 | Inr _ \<Rightarrow> 1]")
    (auto simp: neq_Nil_conv ch1_def ch0_def split: list.splits)

declare matchhere.simps [simp del] matchstar.simps [simp del]

text \<open>The loop of \<^verbatim>\<open>match\<close> looks at every suffix, the empty one included.\<close>

fun match_from :: "string \<Rightarrow> string \<Rightarrow> bool" where
  "match_from re tx =
     (if matchhere re tx then True else case tx of [] \<Rightarrow> False | _ # t \<Rightarrow> match_from re t)"

declare match_from.simps [simp del]

definition match_re :: "string \<Rightarrow> string \<Rightarrow> bool" where
  "match_re re tx = (if ch0 re = CHR ''^'' then matchhere (tl re) tx else match_from re tx)"

section \<open>Reading a file\<close>

text \<open>
  The input of a program: the pieces in which a file, a pipe or the console delivers it. \<^verbatim>\<open>read\<close> of \<open>n\<close> bytes
  returns at most \<open>n\<close> bytes of the next piece, and nothing at the end.
\<close>

fun u_read :: "nat \<Rightarrow> string list \<Rightarrow> string \<times> string list" where
  "u_read n [] = ([], [])"
| "u_read n (c # cs) = (if n = 0 then ([], c # cs) else (take n c, if length c \<le> n then cs else drop n c # cs))"

text \<open>
  The inner loop: the output for the lines that end in the buffer, and the bytes left over. \<^verbatim>\<open>strchr\<close> stops at a NUL.
\<close>

function scan_lines :: "string \<Rightarrow> string \<Rightarrow> string \<times> string" where
  "scan_lines pat p =
     (let l = takeWhile (\<lambda>c. c \<noteq> CHR 0x0A \<and> c \<noteq> CHR 0x00) p; q = drop (length l) p in
      if q \<noteq> [] \<and> hd q = CHR 0x0A
      then (let (out, r) = scan_lines pat (tl q) in ((if match_re pat l then l @ [CHR 0x0A] else []) @ out, r))
      else ([], p))"
  by pat_completeness auto

termination
  by (relation "measure (\<lambda>(pat, p). length p)") (auto simp: neq_Nil_conv dest: arg_cong[of _ _ length])

declare scan_lines.simps [simp del]

partial_function (option) grep_loop :: "string \<Rightarrow> string \<Rightarrow> string list \<Rightarrow> string option" where
  "grep_loop pat b input =
     (let (r, input') = u_read (1024 - length b - 1) input in
      if r = [] then Some []
      else let (out, b') = scan_lines pat (b @ r) in
           Option.bind (grep_loop pat b' input') (\<lambda>rest. Some (out @ rest)))"

text \<open>\<^verbatim>\<open>grep(pattern, fd)\<close>: what it writes to standard output.\<close>

definition grep :: "string \<Rightarrow> string list \<Rightarrow> string option" where
  "grep pat input = grep_loop pat [] input"

text \<open>
  \<^verbatim>\<open>main\<close>: the files in order. \<open>open_file\<close> stands for \<^verbatim>\<open>open\<close> of a path for reading, and gives the pieces of the file. The result is
  what is written to standard output, what is written to standard error, and the exit status.
\<close>

primrec grep_files :: "string \<Rightarrow> (string \<Rightarrow> string list option) \<Rightarrow> string list \<Rightarrow> (string \<times> string \<times> int) option" where
  "grep_files pat open_file [] = Some ([], [], 0)"
| "grep_files pat open_file (f # fs) =
     (case open_file f of
        None \<Rightarrow> Some (''grep: cannot open '' @ f @ [CHR 0x0A], [], 1)
      | Some input \<Rightarrow>
          Option.bind (grep pat input) (\<lambda>out.
          Option.bind (grep_files pat open_file fs) (\<lambda>(out', err, status). Some (out @ out', err, status))))"

definition grep_main :: "(string \<Rightarrow> string list option) \<Rightarrow> string list \<Rightarrow> string list \<Rightarrow> (string \<times> string \<times> int) option" where
  "grep_main open_file stdin argv =
     (case argv of
        _ # pat # fs \<Rightarrow>
          if fs = [] then Option.bind (grep pat stdin) (\<lambda>out. Some (out, [], 0)) else grep_files pat open_file fs
      | _ \<Rightarrow> Some ([], ''usage: grep pattern [file ...]'' @ [CHR 0x0A], 1))"

section \<open>What a pattern means\<close>

datatype elem = Once char | Many char | End

fun parse_re :: "string \<Rightarrow> elem list" where
  "parse_re [] = []"
| "parse_re [c] = (if c = CHR ''$'' then [End] else [Once c])"
| "parse_re (c # d # re) = (if d = CHR ''*'' then Many c # parse_re re else Once c # parse_re (d # re))"

definition fits :: "char \<Rightarrow> char \<Rightarrow> bool" where
  "fits c x \<longleftrightarrow> c = CHR ''.'' \<or> c = x"

fun covers :: "elem \<Rightarrow> string \<Rightarrow> bool" where
  "covers (Once c) part \<longleftrightarrow> (\<exists>x. part = [x] \<and> fits c x)"
| "covers (Many c) part \<longleftrightarrow> (\<forall>x\<in>set part. fits c x)"
| "covers End part \<longleftrightarrow> part = []"

text \<open>A pattern holds at the start of a text that splits into one part for each element, and a rest, empty after \<open>End\<close>.\<close>

definition holds_at :: "elem list \<Rightarrow> string \<Rightarrow> bool" where
  "holds_at es tx \<longleftrightarrow> (\<exists>parts rest. tx = concat parts @ rest \<and> list_all2 covers es parts \<and> (End \<in> set es \<longrightarrow> rest = []))"

lemma holds_at_Nil [simp]: "holds_at [] tx"
  by (auto simp: holds_at_def)

lemma holds_at_Cons:
  "holds_at (e # es) tx \<longleftrightarrow> (\<exists>part t. tx = part @ t \<and> covers e part \<and> (if e = End then es = [] \<and> t = [] else holds_at es t))"
  if "e = End \<Longrightarrow> es = []"
proof
  assume "holds_at (e # es) tx"
  then obtain part parts rest where "tx = (part @ concat parts) @ rest" "covers e part" "list_all2 covers es parts" "End \<in> set (e # es) \<longrightarrow> rest = []"
    unfolding holds_at_def list_all2_Cons1 by fastforce
  then show "\<exists>part t. tx = part @ t \<and> covers e part \<and> (if e = End then es = [] \<and> t = [] else holds_at es t)"
    using that by (intro exI[of _ part] exI[of _ "concat parts @ rest"]) (auto simp: holds_at_def)
next
  assume "\<exists>part t. tx = part @ t \<and> covers e part \<and> (if e = End then es = [] \<and> t = [] else holds_at es t)"
  then obtain part t where *: "tx = part @ t" "covers e part" "if e = End then es = [] \<and> t = [] else holds_at es t" by blast
  show "holds_at (e # es) tx"
  proof (cases "e = End")
    case True
    then show ?thesis using * by (auto simp: holds_at_def intro!: exI[of _ "[[]]"])
  next
    case False
    then obtain parts rest where "t = concat parts @ rest" "list_all2 covers es parts" "End \<in> set es \<longrightarrow> rest = []"
      using *(3) by (auto simp: holds_at_def)
    then show ?thesis using * False unfolding holds_at_def by (intro exI[of _ "part # parts"] exI[of _ rest]) auto
  qed
qed

lemma holds_at_Once: "holds_at (Once c # es) tx \<longleftrightarrow> (\<exists>x t. tx = x # t \<and> fits c x \<and> holds_at es t)"
proof -
  have "holds_at (Once c # es) tx \<longleftrightarrow> (\<exists>part t. tx = part @ t \<and> (\<exists>x. part = [x] \<and> fits c x) \<and> holds_at es t)"
    by (subst holds_at_Cons) simp_all
  also have "\<dots> \<longleftrightarrow> (\<exists>x t. tx = [x] @ t \<and> fits c x \<and> holds_at es t)" by blast
  finally show ?thesis by simp
qed

lemma holds_at_End: "holds_at [End] tx \<longleftrightarrow> tx = []"
  by (subst holds_at_Cons) auto

lemma holds_at_Many:
  "holds_at (Many c # es) tx \<longleftrightarrow> holds_at es tx \<or> (\<exists>x t. tx = x # t \<and> fits c x \<and> holds_at (Many c # es) t)"
proof -
  have m: "holds_at (Many c # es) u \<longleftrightarrow> (\<exists>part t. u = part @ t \<and> (\<forall>x\<in>set part. fits c x) \<and> holds_at es t)" for u
    by (subst holds_at_Cons) auto
  show ?thesis
  proof
    assume "holds_at (Many c # es) tx"
    then obtain part t where "tx = part @ t" "\<forall>x\<in>set part. fits c x" "holds_at es t" unfolding m by blast
    then show "holds_at es tx \<or> (\<exists>x t. tx = x # t \<and> fits c x \<and> holds_at (Many c # es) t)"
      unfolding m by (cases part) auto
  next
    assume "holds_at es tx \<or> (\<exists>x t. tx = x # t \<and> fits c x \<and> holds_at (Many c # es) t)"
    then show "holds_at (Many c # es) tx"
    proof
      assume "holds_at es tx"
      then show ?thesis unfolding m by (intro exI[of _ "[]"] exI[of _ tx]) auto
    next
      assume "\<exists>x t. tx = x # t \<and> fits c x \<and> holds_at (Many c # es) t"
      then obtain x part t where "tx = x # part @ t" "fits c x" "\<forall>x\<in>set part. fits c x" "holds_at es t" unfolding m by blast
      then show ?thesis unfolding m by (intro exI[of _ "x # part"] exI[of _ t]) auto
    qed
  qed
qed

lemma matchstar_iff:
  assumes "\<And>t. matchhere re t \<longleftrightarrow> holds_at es t"
  shows "matchstar c re tx \<longleftrightarrow> holds_at (Many c # es) tx"
proof (induction tx)
  case Nil
  show ?case unfolding matchstar.simps[of c re "[]"] holds_at_Many[of c es "[]"] using assms by simp
next
  case (Cons x t)
  then show ?case unfolding matchstar.simps[of c re "x # t"] holds_at_Many[of c es "x # t"] using assms by (auto simp: ch0_def fits_def)
qed

lemma matchhere_iff: "matchhere re tx \<longleftrightarrow> holds_at (parse_re re) tx"
proof (induction re arbitrary: tx rule: parse_re.induct)
  case 1
  show ?case by (simp add: matchhere.simps)
next
  case (2 c)
  show ?case
    by (subst matchhere.simps) (auto simp: ch1_def ch0_def holds_at_End holds_at_Once fits_def matchhere.simps neq_Nil_conv split: list.splits)
next
  case (3 c d re)
  show ?case
  proof (cases "d = CHR ''*''")
    case True
    then show ?thesis using matchstar_iff[OF "3.IH"(1)[OF True]] by (subst matchhere.simps) (simp add: ch1_def ch0_def)
  next
    case False
    then show ?thesis using "3.IH"(2)[OF False]
      by (subst matchhere.simps) (auto simp: ch1_def ch0_def holds_at_Once fits_def neq_Nil_conv split: list.splits)
  qed
qed

lemma match_from_iff: "match_from re tx \<longleftrightarrow> (\<exists>pre post. tx = pre @ post \<and> matchhere re post)"
proof (induction tx)
  case Nil
  show ?case by (subst match_from.simps) simp
next
  case (Cons c t)
  have "(\<exists>pre post. c # t = pre @ post \<and> matchhere re post) \<longleftrightarrow> matchhere re (c # t) \<or> (\<exists>pre post. t = pre @ post \<and> matchhere re post)"
    by (auto simp: Cons_eq_append_conv)
  then show ?case using Cons by (subst match_from.simps) simp
qed

section \<open>Lines\<close>

abbreviation NL :: char where "NL \<equiv> CHR 0x0A"

text \<open>Lines with their newlines, and a line that a C string can hold.\<close>

definition join :: "string list \<Rightarrow> string" where
  "join ls = concat (map (\<lambda>l. l @ [NL]) ls)"

definition plain :: "string \<Rightarrow> bool" where
  "plain l \<longleftrightarrow> NL \<notin> set l \<and> CHR 0x00 \<notin> set l"

lemma join_simps [simp]: "join [] = []" "join (l # ls) = l @ NL # join ls"
  by (simp_all add: join_def)

lemma line_unique:
  "NL \<notin> set l \<Longrightarrow> NL \<notin> set k \<Longrightarrow> l @ NL # u = k @ NL # v \<longleftrightarrow> l = k \<and> u = v"
proof (induction l arbitrary: k)
  case Nil
  then show ?case by (cases k) auto
next
  case (Cons a l)
  then show ?case by (cases k) auto
qed

lemma join_prefix:
  assumes "join ls1 @ y = join ls @ r" "\<forall>l\<in>set ls1. NL \<notin> set l" "\<forall>l\<in>set ls. NL \<notin> set l" "NL \<notin> set r"
  shows "\<exists>ls2. ls = ls1 @ ls2 \<and> y = join ls2 @ r"
  using assms
proof (induction ls1 arbitrary: ls)
  case (Cons l ls1)
  have "NL \<in> set (join ls @ r)" using Cons.prems(1) by (metis append_Cons in_set_conv_decomp join_simps(2) append_assoc)
  then obtain k ks where ls: "ls = k # ks" using Cons.prems(4) by (cases ls) auto
  have "l = k" "join ls1 @ y = join ks @ r" using Cons.prems line_unique[of l k] by (simp_all add: ls)
  then show ?case using Cons.IH[of ks] Cons.prems by (auto simp: ls)
qed simp

lemma scan_lines_run:
  assumes "CHR 0x00 \<notin> set x"
  shows "\<exists>ls b. x = join ls @ b \<and> NL \<notin> set b \<and> (\<forall>l\<in>set ls. NL \<notin> set l) \<and> scan_lines pat x = (join (filter (match_re pat) ls), b)"
  using assms
proof (induction pat x rule: scan_lines.induct)
  case (1 pat p)
  define l where "l = takeWhile (\<lambda>c. c \<noteq> NL \<and> c \<noteq> CHR 0x00) p"
  define q where "q = drop (length l) p"
  have un: "scan_lines pat p = (if q \<noteq> [] \<and> hd q = NL
      then (let (out, r) = scan_lines pat (tl q) in ((if match_re pat l then l @ [NL] else []) @ out, r)) else ([], p))"
    by (subst scan_lines.simps) (simp only: Let_def l_def q_def)
  have qd: "q = dropWhile (\<lambda>c. c \<noteq> NL \<and> c \<noteq> CHR 0x00) p" unfolding q_def l_def by (rule dropWhile_eq_drop[symmetric])
  have pq: "p = l @ q" unfolding qd l_def by simp
  have ln: "NL \<notin> set l" using set_takeWhileD[of NL _ p] unfolding l_def by blast
  have hd: "q = [] \<or> hd q = NL"
  proof (cases "q = []")
    case False
    have "hd q \<in> set p" using False pq by (metis Un_iff hd_in_set set_append)
    then have "hd q \<noteq> CHR 0x00" using 1(2) by metis
    then show ?thesis using hd_dropWhile[of "\<lambda>c. c \<noteq> NL \<and> c \<noteq> CHR 0x00" p] False unfolding qd by blast
  qed simp
  show ?case
  proof (cases "q = []")
    case True
    then have "scan_lines pat p = ([], p)" unfolding un by simp
    then show ?thesis using pq ln True by (intro exI[of _ "[]"] exI[of _ p]) simp
  next
    case False
    then have q: "q = NL # tl q" using hd by (cases q) auto
    have nz: "CHR 0x00 \<notin> set (tl q)" using 1(2) list.set_sel(2)[OF False] unfolding pq set_append by blast
    obtain ls b where IH: "tl q = join ls @ b" "NL \<notin> set b" "\<forall>l\<in>set ls. NL \<notin> set l" "scan_lines pat (tl q) = (join (filter (match_re pat) ls), b)"
      using 1(1)[OF l_def q_def _ nz] False hd by blast
    have "scan_lines pat p = (join (filter (match_re pat) (l # ls)), b)"
      using False hd IH(4) unfolding un by simp
    moreover have "p = join (l # ls) @ b" using pq q IH(1) by (metis append_Cons append_assoc join_simps(2))
    ultimately show ?thesis using IH ln by (intro exI[of _ "l # ls"] exI[of _ b]) auto
  qed
qed

lemma part_short:
  assumes "b @ y = join ls @ r" "NL \<notin> set b" "\<forall>l\<in>set (r # ls). length l \<le> n"
  shows "length b \<le> n"
proof (cases ls)
  case Nil
  then have "length b \<le> length r" using arg_cong[OF assms(1), of length] by simp
  then show ?thesis using assms(3) by simp
next
  case (Cons l ks)
  have "length b \<le> length l"
  proof (rule ccontr)
    assume "\<not> length b \<le> length l"
    then have lt: "length l < length b" by simp
    have "b @ y = l @ NL # (join ks @ r)" using assms(1) Cons by simp
    from arg_cong[OF this, of "\<lambda>z. z ! length l"] have "b ! length l = NL" using lt by (simp add: nth_append)
    then show False using nth_mem[OF lt] assms(2) by simp
  qed
  then show ?thesis using assms(3) Cons by fastforce
qed

lemma grep_loop_run:
  assumes "b @ concat input = join ls @ r" "NL \<notin> set b" "\<forall>l\<in>set (r # ls). plain l \<and> length l \<le> 1022" "[] \<notin> set input"
  shows "grep_loop pat b input = Some (join (filter (match_re pat) ls))"
  using assms
proof (induction "length (concat input)" arbitrary: b input ls rule: less_induct)
  case less
  have nl: "\<forall>l\<in>set ls. NL \<notin> set l" "NL \<notin> set r" using less.prems(3) by (auto simp: plain_def)
  show ?case
  proof (cases input)
    case Nil
    then have "ls = []" using less.prems(1,2) by (cases ls) auto
    then show ?thesis using Nil by (subst grep_loop.simps) simp
  next
    case (Cons c cs)
    have b: "length b \<le> 1022" by (rule part_short[OF less.prems(1,2)]) (use less.prems(3) in auto)
    define n where "n = 1024 - length b - 1"
    define c' where "c' = take n c"
    define input' where "input' = (if length c \<le> n then cs else drop n c # cs)"
    have rd: "u_read n input = (c', input')" "c' \<noteq> []" "concat input = c' @ concat input'" "[] \<notin> set input'"
      using b less.prems(4) by (auto simp: Cons n_def c'_def input'_def)
    have all: "set (b @ concat input) = set (join ls) \<union> set r" using less.prems(1) by simp
    have "CHR 0x00 \<notin> set (join ls) \<union> set r" using less.prems(3) by (auto simp: join_def plain_def)
    then have nz: "CHR 0x00 \<notin> set (b @ c')" using all rd(3) by auto
    obtain ls1 b' where s1: "b @ c' = join ls1 @ b'" "NL \<notin> set b'" "\<forall>l\<in>set ls1. NL \<notin> set l"
      "scan_lines pat (b @ c') = (join (filter (match_re pat) ls1), b')" using scan_lines_run[OF nz] by blast
    have "join ls1 @ (b' @ concat input') = join ls @ r" using less.prems(1) rd(3) s1(1) by (metis append_assoc)
    from join_prefix[OF this s1(3) nl] obtain ls2 where ls2: "ls = ls1 @ ls2" "b' @ concat input' = join ls2 @ r" by blast
    have "grep_loop pat b' input' = Some (join (filter (match_re pat) ls2))"
      by (rule less.hyps[OF _ ls2(2) s1(2)]) (use rd less.prems(3) ls2(1) in auto)
    moreover have "grep_loop pat b input = Option.bind (grep_loop pat b' input') (\<lambda>rest. Some (join (filter (match_re pat) ls1) @ rest))"
      by (subst grep_loop.simps) (simp only: n_def[symmetric] rd(1,2) s1(4) Let_def prod.case if_False)
    ultimately show ?thesis using ls2(1) by (simp add: join_def)
  qed
qed

section \<open>Properties\<close>

text \<open>
  C16: The matcher of \<^verbatim>\<open>grep\<close> decides the meaning of patterns: an anchored pattern holds at the start of the text, any
  other at some position of it, where a pattern holds at a position when the text from there splits into parts that its
  elements (a character, a dot, a starred one, the end anchor) cover one by one.
\<close>

theorem match_meaning:
  "match_re re tx \<longleftrightarrow> (if ch0 re = CHR ''^'' then holds_at (parse_re (tl re)) tx
     else \<exists>pre post. tx = pre @ post \<and> holds_at (parse_re re) post)"
  by (simp add: match_re_def matchhere_iff match_from_iff)

text \<open>
  C28: \<^verbatim>\<open>grep\<close> returns, and what it prints does not depend on how the input is cut into pieces: for a text of lines
  that each fit its buffer, it prints exactly the matching lines, in order, and ignores an unfinished last line.
\<close>

theorem grep_prints_matching_lines:
  assumes "concat input = join ls @ r" "\<forall>l\<in>set (r # ls). plain l \<and> length l \<le> 1022" "[] \<notin> set input"
  shows "grep pat input = Some (join (filter (match_re pat) ls))"
  unfolding grep_def by (rule grep_loop_run) (use assms in auto)

theorem grep_prints_matching_lines_witness:
  "grep ''a*b$'' [''aa'', ''b'' @ [NL] @ ''xy'', [NL] @ ''end''] = Some (''aab'' @ [NL])"
proof -
  have m: "match_re ''a*b$'' ''aab''" "\<not> match_re ''a*b$'' ''xy''"
    by (simp_all add: match_re_def ch0_def ch1_def match_from.simps matchhere.simps matchstar.simps)
  have "grep ''a*b$'' [''aa'', ''b'' @ [NL] @ ''xy'', [NL] @ ''end''] = Some (join (filter (match_re ''a*b$'') [''aab'', ''xy'']))"
    by (rule grep_prints_matching_lines[where r = "''end''"]) (simp_all add: plain_def)
  then show ?thesis using m by simp
qed

end
