(* ===== verification/Sh.thy ===== *)
theory Sh
  imports Fcntl "HOL-Library.Sublist"
begin

text \<open>
  The command parser of the shell, \<^verbatim>\<open>user/sh.c\<close>. The parser moves a pointer \<^verbatim>\<open>s\<close> through the command line towards its
  end \<^verbatim>\<open>es\<close>; the model keeps the characters that are left, and a pointer that is stored in a command is the position it has
  in the line of \<open>n\<close> characters. \<^verbatim>\<open>nulterminate\<close> then writes into the line. The lemmas show that the parser ends on every
  line, that every command it builds is well formed, and that after \<^verbatim>\<open>nulterminate\<close> every stored pointer is a C string with the
  word that was parsed.
\<close>

section \<open>Commands\<close>

definition MAXARGS :: nat where "MAXARGS = 10"


text \<open>A word of the line, from \<^verbatim>\<open>q\<close> to before \<^verbatim>\<open>eq\<close>.\<close>

type_synonym word_pos = "nat \<times> nat"

datatype cmd =
    EXEC "word_pos list"
  | REDIR cmd word_pos u32 int
  | PIPE cmd cmd
  | LIST cmd cmd
  | BACK cmd

datatype 'a parsed = Got 'a string | Panics string | Deep

section \<open>Tokens\<close>

definition blank :: "char \<Rightarrow> bool" where
  "blank c \<longleftrightarrow> c \<in> {CHR '' '', CHR 0x09, CHR 0x0D, CHR 0x0A, CHR 0x0B}"

definition symbol :: "char \<Rightarrow> bool" where
  "symbol c \<longleftrightarrow> c \<in> {CHR ''<'', CHR ''|'', CHR ''>'', CHR ''&'', CHR '';'', CHR ''('', CHR '')''}"

definition skip :: "string \<Rightarrow> string" where
  "skip s = dropWhile blank s"

text \<open>The token, the line at its start, the line after it, and the line after the blanks that follow. The token of the end is NUL.\<close>

definition gettoken :: "string \<Rightarrow> char \<times> string \<times> string \<times> string" where
  "gettoken ps =
     (let q = skip ps in
      case q of
        [] \<Rightarrow> (CHR 0x00, q, q, skip q)
      | c # s \<Rightarrow>
          if c = CHR ''>'' then
            (if s \<noteq> [] \<and> hd s = CHR ''>'' then (CHR ''+'', q, tl s, skip (tl s)) else (CHR ''>'', q, s, skip s))
          else if symbol c then (c, q, s, skip s)
          else (let eq = dropWhile (\<lambda>c. \<not> blank c \<and> \<not> symbol c) q in (CHR ''a'', q, eq, skip eq)))"

definition peek :: "string \<Rightarrow> string \<Rightarrow> bool" where
  "peek ps toks = (let s = skip ps in s \<noteq> [] \<and> hd s \<in> set toks)"

lemma skip_Nil [simp]: "skip [] = []"
  by (simp add: skip_def)

lemma length_skip: "length (skip s) \<le> length s"
  by (simp add: skip_def length_dropWhile_le)

lemma gettoken_shorter:
  assumes "gettoken ps = (t, q, eq, r)"
  shows "length r \<le> length ps" "t \<noteq> CHR 0x00 \<Longrightarrow> length r < length ps"
proof -
  have *: "length r \<le> length (skip ps) \<and> (t \<noteq> CHR 0x00 \<longrightarrow> length r < length (skip ps))"
  proof (cases "skip ps")
    case Nil
    then show ?thesis using assms by (auto simp: gettoken_def)
  next
    case (Cons c s)
    have d: "length (skip (dropWhile P s)) < Suc (length s)" for P
      using length_skip[of "dropWhile P s"] length_dropWhile_le[of P s] by linarith
    have tl: "length (skip (tl s)) < Suc (length s)" "length (skip s) < Suc (length s)"
      using length_skip[of "tl s"] length_skip[of s] by auto
    have "\<not> blank c" using Cons hd_dropWhile[of blank ps] by (simp add: skip_def)
    then show ?thesis using assms Cons tl d[THEN less_imp_le] d
      by (auto simp: gettoken_def Let_def split: if_splits)
  qed
  then show "length r \<le> length ps" "t \<noteq> CHR 0x00 \<Longrightarrow> length r < length ps" using length_skip[of ps] by auto
qed

lemma gettoken_NUL: "gettoken ps = (CHR 0x00, q, eq, r) \<Longrightarrow> CHR 0x00 \<notin> set ps \<Longrightarrow> skip ps = []"
  by (auto simp: gettoken_def Let_def symbol_def skip_def dest: dropWhile_eq_Cons_conv[THEN iffD1] split: list.splits if_splits)

section \<open>The parser\<close>

text \<open>
  The loops and the recursion take a bound on their depth as first argument, and give \<^const>\<open>Deep\<close> when they exceed it. \<open>n\<close> is the
  length of the line. \<^verbatim>\<open>parseredirs\<close> wraps a command in redirections. In \<^verbatim>\<open>parseexec\<close> the wrapped command is an \<^verbatim>\<open>execcmd\<close> that
  receives more arguments later, through the pointer kept to it; the model collects the redirections, innermost first, and wraps
  the complete command.
\<close>

type_synonym redir = "word_pos \<times> u32 \<times> int"

definition redir_of :: "char \<Rightarrow> word_pos \<Rightarrow> redir" where
  "redir_of tok w =
     (if tok = CHR ''<'' then (w, O_RDONLY, 0)
      else if tok = CHR ''>'' then (w, O_WRONLY OR O_CREATE OR O_TRUNC, 1)
      else (w, O_WRONLY OR O_CREATE, 1))"

definition redircmd :: "cmd \<Rightarrow> redir \<Rightarrow> cmd" where
  "redircmd c r = (case r of (w, mode, fd) \<Rightarrow> REDIR c w mode fd)"

primrec parseredirs :: "nat \<Rightarrow> nat \<Rightarrow> redir list \<Rightarrow> string \<Rightarrow> redir list parsed" where
  "parseredirs 0 n rs ps = Deep"
| "parseredirs (Suc k) n rs ps =
     (if peek ps ''<>'' then
        (case gettoken ps of (tok, _, _, s1) \<Rightarrow>
         case gettoken s1 of (t, q, eq, s2) \<Rightarrow>
           if t \<noteq> CHR ''a'' then Panics ''missing file for redirection''
           else parseredirs k n (rs @ [redir_of tok (n - length q, n - length eq)]) s2)
      else Got rs (skip ps))"

text \<open>The loop of \<^verbatim>\<open>parseexec\<close>.\<close>

primrec parseargs :: "nat \<Rightarrow> nat \<Rightarrow> word_pos list \<Rightarrow> redir list \<Rightarrow> string \<Rightarrow> (word_pos list \<times> redir list) parsed" where
  "parseargs 0 n as rs ps = Deep"
| "parseargs (Suc k) n as rs ps =
     (if peek ps ''|)&;'' then Got (as, rs) (skip ps) else
      case gettoken ps of (tok, q, eq, s1) \<Rightarrow>
        if tok = CHR 0x00 then Got (as, rs) s1
        else if tok \<noteq> CHR ''a'' then Panics ''syntax''
        else if MAXARGS \<le> length as + 1 then Panics ''too many args''
        else case parseredirs k n rs s1 of
               Got rs' s2 \<Rightarrow> parseargs k n (as @ [(n - length q, n - length eq)]) rs' s2
             | Panics msg \<Rightarrow> Panics msg
             | Deep \<Rightarrow> Deep)"

text \<open>The loop of \<^verbatim>\<open>parseline\<close> over the ampersands.\<close>

primrec parsebacks :: "nat \<Rightarrow> cmd \<Rightarrow> string \<Rightarrow> cmd parsed" where
  "parsebacks 0 c ps = Deep"
| "parsebacks (Suc k) c ps =
     (if peek ps ''&'' then (case gettoken ps of (_, _, _, s) \<Rightarrow> parsebacks k (BACK c) s) else Got c (skip ps))"

fun parseline :: "nat \<Rightarrow> nat \<Rightarrow> string \<Rightarrow> cmd parsed"
  and parsepipe :: "nat \<Rightarrow> nat \<Rightarrow> string \<Rightarrow> cmd parsed"
  and parseexec :: "nat \<Rightarrow> nat \<Rightarrow> string \<Rightarrow> cmd parsed"
  and parseblock :: "nat \<Rightarrow> nat \<Rightarrow> string \<Rightarrow> cmd parsed" where
  "parseline 0 n ps = Deep"
| "parseline (Suc k) n ps =
     (case parsepipe k n ps of
        Got c s1 \<Rightarrow>
          (case parsebacks k c s1 of
             Got c' s2 \<Rightarrow>
               if peek s2 '';'' then
                 (case gettoken s2 of (_, _, _, s3) \<Rightarrow>
                  case parseline k n s3 of Got d s4 \<Rightarrow> Got (LIST c' d) s4 | Panics msg \<Rightarrow> Panics msg | Deep \<Rightarrow> Deep)
               else Got c' (skip s2)
           | Panics msg \<Rightarrow> Panics msg
           | Deep \<Rightarrow> Deep)
      | Panics msg \<Rightarrow> Panics msg
      | Deep \<Rightarrow> Deep)"
| "parsepipe 0 n ps = Deep"
| "parsepipe (Suc k) n ps =
     (case parseexec k n ps of
        Got c s1 \<Rightarrow>
          if peek s1 ''|'' then
            (case gettoken s1 of (_, _, _, s2) \<Rightarrow>
             case parsepipe k n s2 of Got d s3 \<Rightarrow> Got (PIPE c d) s3 | Panics msg \<Rightarrow> Panics msg | Deep \<Rightarrow> Deep)
          else Got c (skip s1)
      | Panics msg \<Rightarrow> Panics msg
      | Deep \<Rightarrow> Deep)"
| "parseexec 0 n ps = Deep"
| "parseexec (Suc k) n ps =
     (if peek ps ''('' then parseblock k n ps else
      case parseredirs k n [] ps of
        Got rs s1 \<Rightarrow>
          (case parseargs k n [] rs s1 of
             Got (as, rs') s2 \<Rightarrow> Got (foldl redircmd (EXEC as) rs') s2
           | Panics msg \<Rightarrow> Panics msg
           | Deep \<Rightarrow> Deep)
      | Panics msg \<Rightarrow> Panics msg
      | Deep \<Rightarrow> Deep)"
| "parseblock 0 n ps = Deep"
| "parseblock (Suc k) n ps =
     (if \<not> peek ps ''('' then Panics ''parseblock'' else
      case gettoken ps of (_, _, _, s1) \<Rightarrow>
      case parseline k n s1 of
        Got c s2 \<Rightarrow>
          if \<not> peek s2 '')'' then Panics ''syntax - missing )'' else
          (case gettoken s2 of (_, _, _, s3) \<Rightarrow>
           case parseredirs k n [] s3 of
             Got rs s4 \<Rightarrow> Got (foldl redircmd c rs) s4
           | Panics msg \<Rightarrow> Panics msg
           | Deep \<Rightarrow> Deep)
      | Panics msg \<Rightarrow> Panics msg
      | Deep \<Rightarrow> Deep)"

text \<open>\<^verbatim>\<open>nulterminate\<close> writes a NUL at the end of every word of the command.\<close>

definition put_nuls :: "word_pos list \<Rightarrow> string \<Rightarrow> string" where
  "put_nuls ws b = fold (\<lambda>w b. b[snd w := CHR 0x00]) ws b"

primrec nulterminate :: "cmd \<Rightarrow> string \<Rightarrow> string" where
  "nulterminate (EXEC as) b = put_nuls as b"
| "nulterminate (REDIR c w mode fd) b = (nulterminate c b)[snd w := CHR 0x00]"
| "nulterminate (PIPE c d) b = nulterminate d (nulterminate c b)"
| "nulterminate (LIST c d) b = nulterminate d (nulterminate c b)"
| "nulterminate (BACK c) b = nulterminate c b"

text \<open>
  \<^verbatim>\<open>parsecmd\<close>: the command and the line with the NULs, in a buffer with the NUL that ends the line. The recursion goes through
  four functions before it consumes a character, which bounds its depth.
\<close>

definition parse_depth :: "string \<Rightarrow> nat" where
  "parse_depth s = 4 * length s + 5"

definition parsecmd :: "string \<Rightarrow> (cmd \<times> string) parsed" where
  "parsecmd s =
     (case parseline (parse_depth s) (length s) s of
        Got c r \<Rightarrow> if skip r \<noteq> [] then Panics ''syntax'' else Got (c, nulterminate c (s @ [CHR 0x00])) r
      | Panics msg \<Rightarrow> Panics msg
      | Deep \<Rightarrow> Deep)"

section \<open>Well-formed commands\<close>

definition word_char :: "char \<Rightarrow> bool" where
  "word_char c \<longleftrightarrow> \<not> blank c \<and> \<not> symbol c"

text \<open>A longest stretch of word characters in the line.\<close>

definition wf_word :: "string \<Rightarrow> word_pos \<Rightarrow> bool" where
  "wf_word line w \<longleftrightarrow> fst w < snd w \<and> snd w \<le> length line \<and> (\<forall>i. fst w \<le> i \<and> i < snd w \<longrightarrow> word_char (line ! i))
     \<and> (snd w = length line \<or> \<not> word_char (line ! snd w))"

definition wf_redir :: "string \<Rightarrow> redir \<Rightarrow> bool" where
  "wf_redir line r \<longleftrightarrow> wf_word line (fst r)
     \<and> snd r \<in> {(O_RDONLY, 0), (O_WRONLY OR O_CREATE OR O_TRUNC, 1), (O_WRONLY OR O_CREATE, 1)}"

primrec wf_cmd :: "string \<Rightarrow> cmd \<Rightarrow> bool" where
  "wf_cmd line (EXEC as) \<longleftrightarrow> length as < MAXARGS \<and> (\<forall>w\<in>set as. wf_word line w)"
| "wf_cmd line (REDIR c w mode fd) \<longleftrightarrow> wf_cmd line c \<and> wf_redir line (w, mode, fd)"
| "wf_cmd line (PIPE c d) \<longleftrightarrow> wf_cmd line c \<and> wf_cmd line d"
| "wf_cmd line (LIST c d) \<longleftrightarrow> wf_cmd line c \<and> wf_cmd line d"
| "wf_cmd line (BACK c) \<longleftrightarrow> wf_cmd line c"

primrec words :: "cmd \<Rightarrow> word_pos list" where
  "words (EXEC as) = as"
| "words (REDIR c w mode fd) = words c @ [w]"
| "words (PIPE c d) = words c @ words d"
| "words (LIST c d) = words c @ words d"
| "words (BACK c) = words c"

lemma suffix_skip: "suffix (skip ps) ps"
  by (simp add: skip_def suffix_dropWhile)

lemma gettoken_suffix:
  assumes "gettoken ps = (t, q, eq, r)"
  shows "suffix q ps" "suffix eq q" "suffix r ps"
proof -
  have *: "q = skip ps \<and> suffix eq q \<and> r = skip eq"
  proof (cases "skip ps")
    case Nil
    then show ?thesis using assms by (simp add: gettoken_def)
  next
    case (Cons c s)
    have "suffix (tl s) (c # s)" "suffix s (c # s)" "suffix (dropWhile P (c # s)) (c # s)" for P
      by (simp_all only: suffix_dropWhile) (simp_all add: suffix_ConsI)
    then show ?thesis using assms Cons by (auto simp: gettoken_def Let_def simp del: dropWhile.simps split: if_splits)
  qed
  show "suffix q ps" "suffix eq q" using * suffix_skip by auto
  then show "suffix r ps" using * suffix_skip[of eq] suffix_order.trans[of r eq q] suffix_order.trans[of r q ps] by simp
qed

lemma gettoken_word:
  assumes g: "gettoken ps = (CHR ''a'', q, eq, r)" and s: "suffix ps line" and n: "n = length line"
  shows "wf_word line (n - length q, n - length eq)"
proof -
  let ?P = "\<lambda>c. \<not> blank c \<and> \<not> symbol c"
  have na: "\<not> symbol CHR ''a''" by (simp add: symbol_def)
  have "skip ps \<noteq> []" using g by (auto simp: gettoken_def)
  then obtain c s' where cs: "skip ps = c # s'" by (cases "skip ps") auto
  have q: "q = c # s'" "skip ps = q" and e: "eq = dropWhile ?P q" and c: "\<not> symbol c"
    using g cs na by (auto simp: gettoken_def Let_def simp del: dropWhile.simps split: if_splits)
  have nb: "\<not> blank c" using q hd_dropWhile[of blank ps] by (simp add: skip_def)
  obtain pre where line: "line = pre @ q" using gettoken_suffix(1)[OF g] s by (metis suffix_def suffix_order.trans)
  let ?w = "takeWhile ?P q"
  have qe: "q = ?w @ eq" unfolding e by simp
  have len: "n - length q = length pre" "n - length eq = length pre + length ?w" using n line arg_cong[OF qe, of length] by simp_all
  have 1: "0 < length ?w" using q(1) nb c by simp
  have 2: "word_char (line ! i)" if "length pre \<le> i" "i < length pre + length ?w" for i
  proof -
    have "line ! i = ?w ! (i - length pre)" using that line qe by (metis add_diff_inverse_nat linorder_not_le nat_add_left_cancel_less nth_append)
    moreover have "?w ! (i - length pre) \<in> set ?w" using that by (intro nth_mem) simp
    ultimately show ?thesis using set_takeWhileD[of _ ?P q] by (metis word_char_def)
  qed
  have 3: "length pre + length ?w = length line \<or> \<not> word_char (line ! (length pre + length ?w))"
  proof (cases eq)
    case Nil
    then show ?thesis using line qe by simp
  next
    case (Cons d s2)
    then have "\<not> ?P d" using e hd_dropWhile[of ?P q] by (metis list.distinct(1) list.sel(1))
    moreover have "line ! (length pre + length ?w) = d" using line qe Cons by (metis append_assoc length_append nth_append_length)
    ultimately show ?thesis by (simp add: word_char_def)
  qed
  have 4: "length pre + length ?w \<le> length line" using line length_takeWhile_le[of ?P q] by simp
  show ?thesis unfolding wf_word_def len fst_conv snd_conv using 1 3 4 by (intro conjI allI impI) (linarith | rule 2 | elim conjE)+
qed

lemma redir_of_wf: "wf_word line w \<Longrightarrow> wf_redir line (redir_of tok w)"
  by (simp add: redir_of_def wf_redir_def)

lemma redirs_wf: "wf_cmd line c \<Longrightarrow> \<forall>r\<in>set rs. wf_redir line r \<Longrightarrow> wf_cmd line (foldl redircmd c rs)"
  by (induction rs arbitrary: c) (auto simp: redircmd_def split: prod.splits)

lemma parseredirs_wf:
  "parseredirs k (length line) rs ps = Got rs' r \<Longrightarrow> suffix ps line \<Longrightarrow> \<forall>x\<in>set rs. wf_redir line x \<Longrightarrow>
   suffix r ps \<and> (\<forall>x\<in>set rs'. wf_redir line x)"
proof (induction k arbitrary: rs ps)
  case (Suc k)
  obtain tok q1 e1 s1 where g1: "gettoken ps = (tok, q1, e1, s1)" by (metis prod_cases4)
  obtain t q eq s2 where g2: "gettoken s1 = (t, q, eq, s2)" by (metis prod_cases4)
  have s1: "suffix s1 line" "suffix s2 ps"
    using suffix_order.trans[OF gettoken_suffix(3)[OF g1] Suc.prems(2)]
      suffix_order.trans[OF gettoken_suffix(3)[OF g2] gettoken_suffix(3)[OF g1]] by simp_all
  show ?case
  proof (cases "peek ps ''<>''")
    case True
    then have t: "t = CHR ''a''" "parseredirs k (length line) (rs @ [redir_of tok (length line - length q, length line - length eq)]) s2 = Got rs' r"
      using Suc.prems(1) by (simp_all add: g1 g2 split: if_splits)
    have "wf_word line (length line - length q, length line - length eq)" using gettoken_word[OF _ s1(1) refl] g2 t(1) by blast
    then have "\<forall>x\<in>set (rs @ [redir_of tok (length line - length q, length line - length eq)]). wf_redir line x"
      using redir_of_wf[of line _ tok] Suc.prems(3) by simp
    then have "suffix r s2 \<and> (\<forall>x\<in>set rs'. wf_redir line x)"
      by (rule Suc.IH[OF t(2) suffix_order.trans[OF s1(2) Suc.prems(2)]])
    then show ?thesis using s1(2) suffix_order.trans[of r s2 ps] by simp
  next
    case False
    then show ?thesis using Suc.prems suffix_skip[of ps] by auto
  qed
qed simp_all

lemma parseargs_wf:
  "parseargs k (length line) as rs ps = Got (as', rs') r \<Longrightarrow> suffix ps line \<Longrightarrow> \<forall>x\<in>set rs. wf_redir line x \<Longrightarrow>
   \<forall>w\<in>set as. wf_word line w \<Longrightarrow> length as < MAXARGS \<Longrightarrow>
   suffix r ps \<and> (\<forall>x\<in>set rs'. wf_redir line x) \<and> (\<forall>w\<in>set as'. wf_word line w) \<and> length as' < MAXARGS"
proof (induction k arbitrary: as rs ps)
  case (Suc k)
  obtain tok q eq s1 where g: "gettoken ps = (tok, q, eq, s1)" by (metis prod_cases4)
  note gs = gettoken_suffix[OF g]
  show ?case
  proof (cases "peek ps ''|)&;'' \<or> tok = CHR 0x00")
    case True
    then show ?thesis using Suc.prems g gs suffix_skip[of ps] by (auto split: if_splits)
  next
    case False
    then have p: "tok = CHR ''a''" "length as + 1 < MAXARGS"
      using Suc.prems(1) g by (auto split: if_splits)
    then obtain rs1 s2 where r1: "parseredirs k (length line) rs s1 = Got rs1 s2"
      "parseargs k (length line) (as @ [(length line - length q, length line - length eq)]) rs1 s2 = Got (as', rs') r"
      using Suc.prems(1) g False by (auto split: parsed.splits)
    have s1: "suffix s1 line" by (rule suffix_order.trans[OF gs(3) Suc.prems(2)])
    note w1 = parseredirs_wf[OF r1(1) s1 Suc.prems(3)]
    have s2: "suffix s2 line" "suffix s2 ps" using w1 s1 gs(3) suffix_order.trans[of s2 s1] by simp_all
    have "wf_word line (length line - length q, length line - length eq)" using gettoken_word[OF _ Suc.prems(2) refl] g p(1) by blast
    then have W: "\<forall>w\<in>set (as @ [(length line - length q, length line - length eq)]). wf_word line w" using Suc.prems(4) by simp
    have "length (as @ [(length line - length q, length line - length eq)]) < MAXARGS" using p(2) by simp
    note IH = Suc.IH[OF r1(2) s2(1) conjunct2[OF w1] W this]
    show ?thesis using IH suffix_order.trans[OF conjunct1[OF IH] s2(2)] by (intro conjI) (elim conjE, assumption)+
  qed
qed simp_all

text \<open>What a parsing function promises: a well-formed command, and a rest that is a suffix of its input.\<close>

definition parses :: "string \<Rightarrow> string \<Rightarrow> cmd parsed \<Rightarrow> bool" where
  "parses line ps res \<longleftrightarrow> (\<forall>c r. res = Got c r \<longrightarrow> suffix r ps \<and> wf_cmd line c)"

lemma parsebacks_wf: "wf_cmd line c \<Longrightarrow> parses line ps (parsebacks k c ps)"
proof (induction k arbitrary: c ps)
  case (Suc k)
  obtain t q eq r where g: "gettoken ps = (t, q, eq, r)" by (metis prod_cases4)
  have "parses line r (parsebacks k (BACK c) r)" using Suc by simp
  then show ?case using g Suc.prems suffix_skip[of ps] suffix_order.trans[OF _ gettoken_suffix(3)[OF g]] by (simp add: parses_def)
qed (simp add: parses_def)

lemma parseline_wf:
  assumes IH: "\<And>ps. suffix ps line \<Longrightarrow> parses line ps (parseline k n ps) \<and> parses line ps (parsepipe k n ps)"
    and ps: "suffix ps line"
  shows "parses line ps (parseline (Suc k) n ps)"
  unfolding parses_def
proof (intro allI impI)
  fix c r assume got: "parseline (Suc k) n ps = Got c r"
  obtain c1 s1 where p: "parsepipe k n ps = Got c1 s1" using got by (cases "parsepipe k n ps") simp_all
  obtain c2 s2 where b: "parsebacks k c1 s1 = Got c2 s2" using got p by (cases "parsebacks k c1 s1") simp_all
  obtain t q eq s3 where g: "gettoken s2 = (t, q, eq, s3)" by (metis prod_cases4)
  have 1: "suffix s1 ps" "wf_cmd line c1" using IH[OF ps] p by (simp_all add: parses_def)
  have 2: "suffix s2 s1" "wf_cmd line c2" using parsebacks_wf[OF 1(2), of s1 k] b by (simp_all add: parses_def)
  have s2: "suffix s2 ps" by (rule suffix_order.trans[OF 2(1) 1(1)])
  have s3: "suffix s3 ps" by (rule suffix_order.trans[OF gettoken_suffix(3)[OF g] s2])
  show "suffix r ps \<and> wf_cmd line c"
  proof (cases "peek s2 '';''")
    case True
    then obtain d where d: "parseline k n s3 = Got d r" "c = LIST c2 d" using got p b g by (auto split: parsed.splits)
    then show ?thesis using IH[OF suffix_order.trans[OF s3 ps]] 2 suffix_order.trans[OF _ s3] by (simp add: parses_def)
  next
    case False
    then show ?thesis using got p b 2 suffix_order.trans[OF suffix_skip s2] by simp
  qed
qed

lemma parsepipe_wf:
  assumes IH: "\<And>ps. suffix ps line \<Longrightarrow> parses line ps (parsepipe k n ps) \<and> parses line ps (parseexec k n ps)"
    and ps: "suffix ps line"
  shows "parses line ps (parsepipe (Suc k) n ps)"
  unfolding parses_def
proof (intro allI impI)
  fix c r assume got: "parsepipe (Suc k) n ps = Got c r"
  obtain c1 s1 where p: "parseexec k n ps = Got c1 s1" using got by (cases "parseexec k n ps") simp_all
  obtain t q eq s2 where g: "gettoken s1 = (t, q, eq, s2)" by (metis prod_cases4)
  have 1: "suffix s1 ps" "wf_cmd line c1" using IH[OF ps] p by (simp_all add: parses_def)
  have s2: "suffix s2 ps" by (rule suffix_order.trans[OF gettoken_suffix(3)[OF g] 1(1)])
  show "suffix r ps \<and> wf_cmd line c"
  proof (cases "peek s1 ''|''")
    case True
    then obtain d where d: "parsepipe k n s2 = Got d r" "c = PIPE c1 d" using got p g by (auto split: parsed.splits)
    then show ?thesis using IH[OF suffix_order.trans[OF s2 ps]] 1 suffix_order.trans[OF _ s2] by (simp add: parses_def)
  next
    case False
    then show ?thesis using got p 1 suffix_order.trans[OF suffix_skip 1(1)] by simp
  qed
qed

lemma parseexec_wf:
  assumes IH: "parses line ps (parseblock k (length line) ps)" and ps: "suffix ps line"
  shows "parses line ps (parseexec (Suc k) (length line) ps)"
proof (cases "peek ps ''(''")
  case True
  then show ?thesis using IH by simp
next
  case False
  show ?thesis
    unfolding parses_def
  proof (intro allI impI)
    fix c r assume got: "parseexec (Suc k) (length line) ps = Got c r"
    obtain rs s1 where p: "parseredirs k (length line) [] ps = Got rs s1"
      using got False by (cases "parseredirs k (length line) [] ps") simp_all
    obtain as rs' where a: "parseargs k (length line) [] rs s1 = Got (as, rs') r" "c = foldl redircmd (EXEC as) rs'"
      using got False p by (auto split: parsed.splits)
    have 1: "suffix s1 ps" "\<forall>x\<in>set rs. wf_redir line x" using parseredirs_wf[OF p ps] by simp_all
    have "suffix r s1 \<and> (\<forall>x\<in>set rs'. wf_redir line x) \<and> (\<forall>w\<in>set as. wf_word line w) \<and> length as < MAXARGS"
      by (rule parseargs_wf[OF a(1) suffix_order.trans[OF 1(1) ps] 1(2)]) (simp_all add: MAXARGS_def)
    then show "suffix r ps \<and> wf_cmd line c"
      using redirs_wf[of line "EXEC as" rs'] a(2) suffix_order.trans[OF _ 1(1)] by simp
  qed
qed

lemma parseblock_wf:
  assumes IH: "\<And>ps. suffix ps line \<Longrightarrow> parses line ps (parseline k (length line) ps)" and ps: "suffix ps line"
  shows "parses line ps (parseblock (Suc k) (length line) ps)"
  unfolding parses_def
proof (intro allI impI)
  fix c r assume got: "parseblock (Suc k) (length line) ps = Got c r"
  obtain t q eq s1 where g: "gettoken ps = (t, q, eq, s1)" by (metis prod_cases4)
  have s1: "suffix s1 ps" by (rule gettoken_suffix(3)[OF g])
  obtain c1 s2 where l: "parseline k (length line) s1 = Got c1 s2" using got g by (auto split: if_splits parsed.splits)
  obtain t' q' eq' s3 where g': "gettoken s2 = (t', q', eq', s3)" by (metis prod_cases4)
  have 1: "suffix s2 s1" "wf_cmd line c1" using IH[OF suffix_order.trans[OF s1 ps]] l by (simp_all add: parses_def)
  have s3: "suffix s3 ps" by (rule suffix_order.trans[OF gettoken_suffix(3)[OF g'] suffix_order.trans[OF 1(1) s1]])
  obtain rs where p: "parseredirs k (length line) [] s3 = Got rs r" "c = foldl redircmd c1 rs"
    using got g l g' by (auto split: if_splits parsed.splits)
  have "suffix r s3 \<and> (\<forall>x\<in>set rs. wf_redir line x)"
    by (rule parseredirs_wf[OF p(1) suffix_order.trans[OF s3 ps]]) simp
  then show "suffix r ps \<and> wf_cmd line c" using redirs_wf[OF 1(2)] p(2) suffix_order.trans[OF _ s3] by simp
qed

lemma parse_wf:
  "suffix ps line \<Longrightarrow>
   (parses line ps (parseline k (length line) ps) \<and> parses line ps (parsepipe k (length line) ps)) \<and>
   parses line ps (parseexec k (length line) ps) \<and> parses line ps (parseblock k (length line) ps)"
proof (induction k arbitrary: ps)
  case 0
  then show ?case by (simp add: parses_def)
next
  case (Suc k)
  show ?case
    by (intro conjI parseline_wf parsepipe_wf parseexec_wf parseblock_wf Suc.prems)
       (simp_all only: Suc.IH[OF Suc.prems] Suc.IH)
qed

section \<open>The parser ends\<close>

lemma peek_shorter:
  assumes "gettoken ps = (t, q, eq, r)" "peek ps toks"
  shows "length r < length ps"
proof (rule gettoken_shorter(2)[OF assms(1)])
  obtain c s where "skip ps = c # s" using assms(2) by (cases "skip ps") (auto simp: peek_def)
  then show "t \<noteq> CHR 0x00" using assms(1) by (auto simp: gettoken_def Let_def symbol_def simp del: dropWhile.simps split: if_splits)
qed

lemma parseredirs_ends: "length ps < k \<Longrightarrow> parseredirs k n rs ps \<noteq> Deep"
proof (induction k arbitrary: rs ps)
  case (Suc k)
  obtain tok q1 e1 s1 where g1: "gettoken ps = (tok, q1, e1, s1)" by (metis prod_cases4)
  obtain t q eq s2 where g2: "gettoken s1 = (t, q, eq, s2)" by (metis prod_cases4)
  have "peek ps ''<>'' \<Longrightarrow> length s2 < k" using peek_shorter[OF g1] gettoken_shorter(1)[OF g2] Suc.prems by fastforce
  then show ?case using Suc.IH by (simp add: g1 g2)
qed simp

lemma parseredirs_shorter: "parseredirs k n rs ps = Got rs' r \<Longrightarrow> length r \<le> length ps"
proof (induction k arbitrary: rs ps)
  case (Suc k)
  obtain tok q1 e1 s1 where g1: "gettoken ps = (tok, q1, e1, s1)" by (metis prod_cases4)
  obtain t q eq s2 where g2: "gettoken s1 = (t, q, eq, s2)" by (metis prod_cases4)
  have "length s2 \<le> length ps" using gettoken_shorter(1)[OF g1] gettoken_shorter(1)[OF g2] by simp
  then show ?case using Suc.IH[of _ s2] Suc.prems length_skip[of ps] by (fastforce simp: g1 g2 split: if_splits)
qed simp

lemma parseargs_ends: "length ps < k \<Longrightarrow> parseargs k n as rs ps \<noteq> Deep"
proof (induction k arbitrary: as rs ps)
  case (Suc k)
  obtain tok q eq s1 where g: "gettoken ps = (tok, q, eq, s1)" by (metis prod_cases4)
  show ?case
  proof (cases "peek ps ''|)&;'' \<or> tok = CHR 0x00 \<or> tok \<noteq> CHR ''a''")
    case True
    then show ?thesis using g by auto
  next
    case False
    then have l: "length s1 < k" using gettoken_shorter(2)[OF g] Suc.prems by simp
    show ?thesis
    proof (cases "parseredirs k n rs s1")
      case (Got rs' s2)
      then show ?thesis using Suc.IH parseredirs_shorter[OF Got] l False g by simp
    qed (use parseredirs_ends[OF l] g False in simp_all)
  qed
qed simp

lemma parsebacks_ends: "length ps < k \<Longrightarrow> parsebacks k c ps \<noteq> Deep"
proof (induction k arbitrary: c ps)
  case (Suc k)
  obtain t q eq r where g: "gettoken ps = (t, q, eq, r)" by (metis prod_cases4)
  have "peek ps ''&'' \<Longrightarrow> length r < k" using peek_shorter[OF g] Suc.prems by fastforce
  then show ?case using Suc.IH[of r "BACK c"] g by simp
qed simp

lemma parsesD: "parses line ps res \<Longrightarrow> res = Got c r \<Longrightarrow> length r \<le> length ps"
  by (simp add: parses_def suffix_length_le)

lemma parse_shorter:
  assumes "suffix ps line"
  shows "parseline k (length line) ps = Got c r \<Longrightarrow> length r \<le> length ps \<and> suffix r line"
    and "parsepipe k (length line) ps = Got c r \<Longrightarrow> length r \<le> length ps \<and> suffix r line"
    and "parseexec k (length line) ps = Got c r \<Longrightarrow> length r \<le> length ps \<and> suffix r line"
  using parse_wf[OF assms, of k] suffix_order.trans[OF _ assms] by (simp_all add: parses_def suffix_length_le)

lemma parseline_ends:
  assumes IH: "\<And>ps. suffix ps line \<Longrightarrow> 4 * length ps + 4 \<le> k \<Longrightarrow> parseline k (length line) ps \<noteq> Deep"
    and pipe: "parsepipe k (length line) ps \<noteq> Deep" and ps: "suffix ps line" and b: "4 * length ps + 3 \<le> k"
  shows "parseline (Suc k) (length line) ps \<noteq> Deep"
proof (cases "parsepipe k (length line) ps")
  case p: (Got c s1)
  note 1 = parse_shorter(2)[OF ps p]
  show ?thesis
  proof (cases "parsebacks k c s1")
    case (Got c' s2)
    obtain t q eq s3 where g: "gettoken s2 = (t, q, eq, s3)" by (metis prod_cases4)
    have 2: "suffix s2 s1" using parsebacks_wf[of line c s1 k] Got parse_wf[OF ps, of k] p by (simp add: parses_def)
    have s3: "suffix s3 line" "peek s2 '';'' \<Longrightarrow> length s3 < length ps"
      using gettoken_suffix(3)[OF g] 1 2 suffix_order.trans peek_shorter[OF g] suffix_length_le[OF 2] by (blast, fastforce)
    have "peek s2 '';'' \<Longrightarrow> parseline k (length line) s3 \<noteq> Deep" using IH[OF s3(1)] s3(2) b by simp
    then show ?thesis using p Got g by (auto split: parsed.splits)
  qed (use parsebacks_ends[of s1 k c] 1 b p in simp_all)
qed (use pipe in simp_all)

lemma parsepipe_ends:
  assumes IH: "\<And>ps. suffix ps line \<Longrightarrow> 4 * length ps + 3 \<le> k \<Longrightarrow> parsepipe k (length line) ps \<noteq> Deep"
    and exec: "parseexec k (length line) ps \<noteq> Deep" and ps: "suffix ps line" and b: "4 * length ps + 2 \<le> k"
  shows "parsepipe (Suc k) (length line) ps \<noteq> Deep"
proof (cases "parseexec k (length line) ps")
  case (Got c s1)
  note 1 = parse_shorter(3)[OF ps Got]
  obtain t q eq s2 where g: "gettoken s1 = (t, q, eq, s2)" by (metis prod_cases4)
  have "suffix s2 line" using gettoken_suffix(3)[OF g] 1 suffix_order.trans by blast
  then have "peek s1 ''|'' \<Longrightarrow> parsepipe k (length line) s2 \<noteq> Deep" using IH peek_shorter[OF g] b 1 by fastforce
  then show ?thesis using Got g by (auto split: parsed.splits)
qed (use exec in simp_all)

lemma parseexec_ends:
  assumes "parseblock k n ps \<noteq> Deep" and b: "length ps < k"
  shows "parseexec (Suc k) n ps \<noteq> Deep"
proof (cases "parseredirs k n [] ps")
  case (Got rs s1)
  have "parseargs k n [] rs s1 \<noteq> Deep" using parseargs_ends parseredirs_shorter[OF Got] b by simp
  then show ?thesis using Got assms by (auto split: parsed.splits)
qed (use assms parseredirs_ends[OF b] in simp_all)

lemma parseblock_ends:
  assumes IH: "\<And>ps. suffix ps line \<Longrightarrow> 4 * length ps + 4 \<le> k \<Longrightarrow> parseline k (length line) ps \<noteq> Deep"
    and ps: "suffix ps line" and b: "4 * length ps \<le> k"
  shows "parseblock (Suc k) (length line) ps \<noteq> Deep"
proof (cases "peek ps ''(''")
  case True
  obtain t q eq s1 where g: "gettoken ps = (t, q, eq, s1)" by (metis prod_cases4)
  have s1: "suffix s1 line" "length s1 < length ps"
    using suffix_order.trans[OF gettoken_suffix(3)[OF g] ps] peek_shorter[OF g True] by simp_all
  show ?thesis
  proof (cases "parseline k (length line) s1")
    case (Got c s2)
    obtain t' q' eq' s3 where g': "gettoken s2 = (t', q', eq', s3)" by (metis prod_cases4)
    have "length s3 < k" using gettoken_shorter(1)[OF g'] parse_shorter(1)[OF s1(1) Got] s1(2) b by simp
    then show ?thesis using parseredirs_ends[of s3 k "length line" "[]"] Got g g' by (auto split: parsed.splits)
  qed (use IH[OF s1(1)] s1(2) b g in simp_all)
qed simp

lemma parse_ends:
  "suffix ps line \<Longrightarrow>
   (4 * length ps + 4 \<le> k \<longrightarrow> parseline k (length line) ps \<noteq> Deep) \<and>
   (4 * length ps + 3 \<le> k \<longrightarrow> parsepipe k (length line) ps \<noteq> Deep) \<and>
   (4 * length ps + 2 \<le> k \<longrightarrow> parseexec k (length line) ps \<noteq> Deep) \<and>
   (4 * length ps + 1 \<le> k \<longrightarrow> parseblock k (length line) ps \<noteq> Deep)"
proof (induction k arbitrary: ps)
  case (Suc k)
  note ih = Suc.IH[OF Suc.prems]
  show ?case
  proof (intro conjI impI)
    assume "4 * length ps + 4 \<le> Suc k"
    then show "parseline (Suc k) (length line) ps \<noteq> Deep" using ih by (intro parseline_ends Suc.prems) (use Suc.IH in simp_all)
  next
    assume "4 * length ps + 3 \<le> Suc k"
    then show "parsepipe (Suc k) (length line) ps \<noteq> Deep" using ih by (intro parsepipe_ends Suc.prems) (use Suc.IH in simp_all)
  next
    assume "4 * length ps + 2 \<le> Suc k"
    then show "parseexec (Suc k) (length line) ps \<noteq> Deep" using ih by (intro parseexec_ends) simp_all
  next
    assume "4 * length ps + 1 \<le> Suc k"
    then show "parseblock (Suc k) (length line) ps \<noteq> Deep" by (intro parseblock_ends Suc.prems) (use Suc.IH in simp_all)
  qed
qed simp

section \<open>The strings of a command\<close>

lemma put_nuls_append: "put_nuls (ws @ vs) b = put_nuls vs (put_nuls ws b)"
  by (simp add: put_nuls_def)

lemma nulterminate_words: "nulterminate c b = put_nuls (words c) b"
  by (induction c arbitrary: b) (simp_all add: put_nuls_append put_nuls_def)

lemma wf_words: "wf_cmd line c \<Longrightarrow> w \<in> set (words c) \<Longrightarrow> wf_word line w"
  by (induction c) (auto simp: wf_redir_def)

lemma length_put_nuls [simp]: "length (put_nuls ws b) = length b"
  unfolding put_nuls_def by (induction ws arbitrary: b) simp_all

lemma put_nuls_nth:
  "(\<forall>w\<in>set ws. snd w < length b) \<Longrightarrow> i < length b \<Longrightarrow>
   put_nuls ws b ! i = (if i \<in> snd ` set ws then CHR 0x00 else b ! i)"
  unfolding put_nuls_def by (induction ws rule: rev_induct) (auto simp: nth_list_update put_nuls_def[symmetric])

text \<open>The C string at a position of the buffer.\<close>

definition cstr :: "string \<Rightarrow> nat \<Rightarrow> string" where
  "cstr b q = takeWhile (\<lambda>c. c \<noteq> CHR 0x00) (drop q b)"

definition word_text :: "string \<Rightarrow> word_pos \<Rightarrow> string" where
  "word_text line w = take (snd w - fst w) (drop (fst w) line)"

text \<open>A NUL of one word never falls inside another: where a word ends there is no word character.\<close>

lemma cstr_put_nuls:
  assumes wfs: "\<forall>w\<in>set ws. wf_word line w" and w: "w \<in> set ws" and nul: "CHR 0x00 \<notin> set line"
  shows "cstr (put_nuls ws (line @ [CHR 0x00])) (fst w) = word_text line w"
proof -
  let ?b = "put_nuls ws (line @ [CHR 0x00])"
  have W: "fst w < snd w" "snd w \<le> length line" using wfs w by (auto simp: wf_word_def)
  have nth: "?b ! i = (if i \<in> snd ` set ws then CHR 0x00 else (line @ [CHR 0x00]) ! i)" if "i \<le> length line" for i
    using wfs that by (intro put_nuls_nth) (auto simp: wf_word_def less_Suc_eq_le)
  have inside: "?b ! i = line ! i \<and> line ! i \<noteq> CHR 0x00" if "fst w \<le> i" "i < snd w" for i
  proof -
    have "word_char (line ! i)" using wfs w that by (auto simp: wf_word_def)
    then have "i \<notin> snd ` set ws" using wfs that W by (auto simp: wf_word_def)
    moreover have "line ! i \<noteq> CHR 0x00" using nth_mem[of i line] that W nul by fastforce
    ultimately show ?thesis using nth[of i] that W by (auto simp: nth_append)
  qed
  have "drop (fst w) ?b = word_text line w @ CHR 0x00 # drop (Suc (snd w)) ?b"
  proof -
    have "drop (fst w) ?b = take (snd w - fst w) (drop (fst w) ?b) @ drop (snd w) ?b"
      using W by (metis append_take_drop_id drop_drop le_add_diff_inverse2 less_imp_le)
    moreover have "take (snd w - fst w) (drop (fst w) ?b) = word_text line w"
      using W inside by (intro nth_equalityI) (auto simp: word_text_def)
    moreover have "drop (snd w) ?b = CHR 0x00 # drop (Suc (snd w)) ?b"
      using W w nth[of "snd w"] by (subst Cons_nth_drop_Suc[symmetric]) auto
    ultimately show ?thesis by simp
  qed
  moreover have "c \<noteq> CHR 0x00" if "c \<in> set (word_text line w)" for c
    using that nul by (auto simp: word_text_def dest!: in_set_takeD in_set_dropD)
  ultimately show ?thesis unfolding cstr_def by (simp add: takeWhile_tail)
qed

section \<open>Properties\<close>

lemma parsecmd_Got:
  assumes "parsecmd line = Got (c, b) r"
  shows "wf_cmd line c" "b = put_nuls (words c) (line @ [CHR 0x00])"
  using assms parse_wf[of line line "parse_depth line"]
  by (auto simp: parsecmd_def parses_def nulterminate_words split: parsed.splits if_splits)

text \<open>
  C17: The recursive descent parser of the shell ends on every command line: it returns a command with the line that holds its
  strings, or it panics with a message. It never needs more nesting than four calls for each character of the line.
\<close>

theorem parsecmd_ends:
  "(\<exists>c b r. parsecmd line = Got (c, b) r) \<or> (\<exists>msg. parsecmd line = Panics msg)"
  using parse_ends[of line line "parse_depth line"]
  by (auto simp: parsecmd_def parse_depth_def split: parsed.splits)



text \<open>
  C19: After \<^verbatim>\<open>nulterminate\<close>, the C string at every pointer that a command stores, an argument or a file name, is exactly the word
  that was parsed there. The NUL that ends one word never cuts another one short, although all words share the buffer of the line.
\<close>

theorem parsecmd_strings:
  assumes "parsecmd line = Got (c, b) r" and "CHR 0x00 \<notin> set line" and "w \<in> set (words c)"
  shows "cstr b (fst w) = word_text line w"
  using cstr_put_nuls[of "words c" line w] wf_words[OF parsecmd_Got(1)[OF assms(1)]] assms(2,3)
  unfolding parsecmd_Got(2)[OF assms(1)] by blast

theorem parsecmd_strings_witness:
  "\<exists>b. parsecmd ''cat f;rm f'' = Got (LIST (EXEC [(0, 3), (4, 5)]) (EXEC [(6, 8), (9, 10)]), b) [] \<and> cstr b 6 = ''rm''"
proof -
  have p: "parsecmd ''cat f;rm f'' =
      Got (LIST (EXEC [(0, 3), (4, 5)]) (EXEC [(6, 8), (9, 10)]),
           ''cat'' @ CHR 0x00 # ''f'' @ CHR 0x00 # ''rm'' @ CHR 0x00 # ''f'' @ [CHR 0x00]) []"
    by code_simp
  have "word_text ''cat f;rm f'' (6, 8) = ''rm''" by code_simp
  then show ?thesis using p parsecmd_strings[OF p, of "(6, 8)"] by auto
qed

end
