(* ===== verification/Spec2Isabelle.thy ===== *)
theory Spec2Isabelle
  imports Trap Transaction Pipe_Laws Console_Laws Path_Laws Inode_Laws Syscall_Laws Grep Sh
begin

text \<open>
  HEADER
\<close>

section \<open>The file system on the log\<close>

text \<open>
  C5: An inode update is durable. The calls \<^verbatim>\<open>begin_op\<close>, \<^verbatim>\<open>iupdate\<close>, \<^verbatim>\<open>end_op\<close> on an idle log return with the log idle again; the block
  of the inode on the disk then holds, at the slot of the inode, exactly the fields of the inode in memory, in the form in which
  \<^verbatim>\<open>ilock\<close> reads them; the other inodes of the block and every other block outside the log are as they were.
\<close>

theorem inode_update_durable:
  assumes "log_idle p s" "inodes s ip = i" "i_dev i = ROOTDEV" "inode_wf i"
    and "k = unat (IBLOCK (i_inum i) (sb s))" "k < 2 ^ 31" "k \<notin> log_region (log_base s)"
  shows "\<exists>s'. update_inode ip s = Ok () s' \<and> log_idle p s'
     \<and> (\<forall>j. inode_fields (load_dinode (disk_block (disk_img s') k) (dinode_off (i_inum i)) j) = inode_fields i)
     \<and> (\<forall>m. unat m mod IPB \<noteq> unat (i_inum i) mod IPB \<longrightarrow>
          take DINODE (drop (dinode_off m) (disk_block (disk_img s') k)) = take DINODE (drop (dinode_off m) (disk_block (disk_img s) k)))
     \<and> (\<forall>l. l \<noteq> k \<longrightarrow> l \<notin> log_region (log_base s) \<longrightarrow> disk_block (disk_img s') l = disk_block (disk_img s) l)"
proof -
  let ?d = "disk_block (disk_img s)" let ?f = "patch (dinode_off (i_inum i)) (dinode_bytes i)"
  obtain s' where s': "transaction [(k, ?f)] s = Ok () s'" "log_idle p s'"
    "\<And>l. l \<notin> log_region (log_base s) \<Longrightarrow> disk_block (disk_img s') l = updated [(k, ?f)] ?d l"
    using transaction_run[OF assms(1) patch_update_ok[OF assms(4,6,7)]] by (auto simp: MAXOPBLOCKS_def)
  have b: "length (?d k) = BSIZE" by (rule idle_blocks[OF assms(1,6)])
  have k: "disk_block (disk_img s') k = ?f (?d k)" using s'(3)[OF assms(7)] by simp
  have "inode_fields (load_dinode (?f (?d k)) (dinode_off (i_inum i)) j) = inode_fields i" for j
    by (rule load_from_slot[OF assms(4) inode_slot[OF assms(4) b]])
  moreover have "update_inode ip s = Ok () s'" using update_inode_transaction[OF assms(1-3)] s'(1) assms(5) by simp
  ultimately show ?thesis using s'(2,3) slot_other[OF assms(4) b] unfolding k by (intro exI[of _ s']) (auto simp: k)
qed

theorem inode_update_durable_witness:
  "\<exists>s'. update_inode 3 demo_fs = Ok () s'
     \<and> inode_fields (load_dinode (disk_block (disk_img s') 33) (5 * 64) demo_inode) = (2, 0, 0, 1, 700, replicate 13 77)"
proof -
  have "unat (IBLOCK (i_inum demo_inode) (sb demo_fs)) = 33"
    by (simp add: IBLOCK_def demo_inode_def IPB_def DINODE_def BSIZE_def)
  moreover have "dinode_off (i_inum demo_inode) = 5 * 64"
    by (simp add: dinode_off_def demo_inode_def IPB_def DINODE_def BSIZE_def)
  moreover have "33 \<notin> log_region (log_base demo_fs)" by (simp add: demo_fs_idle(2) log_region_def LOGBLOCKS_val)
  moreover have "i_dev demo_inode = ROOTDEV" "inode_fields demo_inode = (2, 0, 0, 1, 700, replicate 13 77)"
    by (simp_all add: demo_inode_def inode_fields_def T_FILE_def)
  ultimately show ?thesis
    using inode_update_durable[OF demo_fs_idle(1), of 3 demo_inode 33] demo_inode_wf by auto
qed

end
